(* ===== verification/Prelude.thy ===== *)
theory Prelude
  imports Main
begin

text \<open>
  Shared vocabulary of the development: failures of the C++ and OCaml code as values of a
  sum type, the failing fold that models their iteration loops, decimal printing, and the
  generic lemmas every component uses.
\<close>

section \<open>Failures as values\<close>

text \<open>
  The constructors name the ways a run of the program stops without a result: a C++
  \<^verbatim>\<open>assert\<close> or an OCaml \<^verbatim>\<open>assert\<close> that fails (with the text of its condition), the
  dereference of a null pointer, a C++ operation whose behaviour is undefined (signed
  overflow, an oversized shift), OCaml's \<^verbatim>\<open>Invalid_argument\<close>, \<^verbatim>\<open>Not_found\<close> and \<^verbatim>\<open>Failure\<close>, and a loop
  that never ends.
\<close>

datatype error =
    Assert_failure string
  | Null_dereference
  | Undefined_behaviour string
  | Invalid_argument string
  | Not_found
  | Failure string
  | Diverges

type_synonym 'a result = "error + 'a"

named_theorems result_simps

definition bindE :: "'a result \<Rightarrow> ('a \<Rightarrow> 'b result) \<Rightarrow> 'b result" where
  "bindE r k = (case r of Inl e \<Rightarrow> Inl e | Inr x \<Rightarrow> k x)"

definition asserting :: "string \<Rightarrow> bool \<Rightarrow> 'a result \<Rightarrow> 'a result" where
  "asserting what b r = (if b then r else Inl (Assert_failure what))"

text \<open>Iteration that stops at the first failure: \<^verbatim>\<open>iter\<close> and \<^verbatim>\<open>for\<close> over a sequence.\<close>

fun foldE :: "('a \<Rightarrow> 's \<Rightarrow> 's result) \<Rightarrow> 'a list \<Rightarrow> 's \<Rightarrow> 's result" where
  "foldE f [] s = Inr s"
| "foldE f (x # xs) s = bindE (f x s) (foldE f xs)"

fun mapE :: "('a \<Rightarrow> 'b result) \<Rightarrow> 'a list \<Rightarrow> 'b list result" where
  "mapE f [] = Inr []"
| "mapE f (x # xs) = bindE (f x) (\<lambda>y. bindE (mapE f xs) (\<lambda>ys. Inr (y # ys)))"

definition returns :: "'a result \<Rightarrow> bool" where
  "returns r \<longleftrightarrow> (\<exists>x. r = Inr x)"

section \<open>Decimal printing\<close>

text \<open>What \<^verbatim>\<open>operator<<\<close> of a C++ stream prints for an integer.\<close>

fun show_nat :: "nat \<Rightarrow> string" where
  "show_nat n =
     (if n < 10 then [char_of (48 + n)] else show_nat (n div 10) @ [char_of (48 + n mod 10)])"

definition show_int :: "int \<Rightarrow> string" where
  "show_int i = (if i < 0 then CHR ''-'' # show_nat (nat (- i)) else show_nat (nat i))"

text \<open>The inverse reading, used only to show that printing is injective.\<close>

definition read_nat :: "string \<Rightarrow> nat" where
  "read_nat s = foldl (\<lambda>a c. a * 10 + (of_char c - 48)) 0 s"

section \<open>Lemmas on results\<close>

lemma bindE_simps [simp, result_simps]:
  "bindE (Inl e) k = Inl e"
  "bindE (Inr x) k = k x"
  by (simp_all add: bindE_def)

lemma bindE_eq_Inr: "bindE r k = Inr y \<longleftrightarrow> (\<exists>x. r = Inr x \<and> k x = Inr y)"
  by (cases r) auto

lemma asserting_True [simp, result_simps]: "b \<Longrightarrow> asserting w b r = r"
  by (simp add: asserting_def)

lemma asserting_False [simp]: "\<not> b \<Longrightarrow> asserting w b r = Inl (Assert_failure w)"
  by (simp add: asserting_def)

lemma asserting_eq_Inr: "asserting w b r = Inr y \<longleftrightarrow> b \<and> r = Inr y"
  by (simp add: asserting_def)

lemmas result_cases = bindE_eq_Inr asserting_eq_Inr

lemma foldE_append: "foldE f (xs @ ys) s = bindE (foldE f xs s) (foldE f ys)"
proof (induction xs arbitrary: s)
  case (Cons x xs)
  then show ?case by (cases "f x s") auto
qed simp

text \<open>
  Total correctness of a failing loop: an invariant on the part of the sequence that has
  been visited, which every step re-establishes without failing.
\<close>

lemma foldE_total:
  assumes init: "I [] s"
    and step: "\<And>ys y zs s. xs = ys @ y # zs \<Longrightarrow> I ys s \<Longrightarrow> \<exists>s'. f y s = Inr s' \<and> I (ys @ [y]) s'"
  shows "\<exists>s'. foldE f xs s = Inr s' \<and> I xs s'"
proof -
  have "\<exists>s'. foldE f us s = Inr s' \<and> I us s'" if "xs = us @ vs" for us vs
    using that
  proof (induction us arbitrary: vs rule: rev_induct)
    case Nil
    with init show ?case by simp
  next
    case (snoc y us)
    then obtain s1 where s1: "foldE f us s = Inr s1" "I us s1" by auto
    with step [of us y vs s1] snoc.prems obtain s' where "f y s1 = Inr s'" "I (us @ [y]) s'"
      by auto
    with s1 show ?case by (simp add: foldE_append)
  qed
  from this [of xs "[]"] show ?thesis by simp
qed

text \<open>Partial correctness: what every successful step keeps, a successful loop keeps.\<close>

lemma foldE_invariant:
  assumes "foldE f xs s = Inr s'" and "I s"
    and "\<And>x s s'. x \<in> set xs \<Longrightarrow> I s \<Longrightarrow> f x s = Inr s' \<Longrightarrow> I s'"
  shows "I s'"
  using assms
proof (induction xs arbitrary: s)
  case (Cons x xs)
  then obtain s1 where "f x s = Inr s1" "foldE f xs s1 = Inr s'" by (auto simp: bindE_eq_Inr)
  with Cons show ?case by (meson list.set_intros)
qed simp

lemma mapE_map_Inr: "(\<And>x. x \<in> set xs \<Longrightarrow> f (g x) = Inr (h x)) \<Longrightarrow> mapE f (map g xs) = Inr (map h xs)"
  by (induction xs) auto

lemma mapE_mem: "mapE f xs = Inr ys \<Longrightarrow> y \<in> set ys \<Longrightarrow> \<exists>x \<in> set xs. f x = Inr y"
  by (induction xs arbitrary: ys) (auto simp: bindE_eq_Inr)

lemma mapE_set: "mapE f xs = Inr ys \<Longrightarrow> set ys = {y. \<exists>x \<in> set xs. f x = Inr y} \<and> (\<forall>x \<in> set xs. \<exists>y. f x = Inr y)"
  by (induction xs arbitrary: ys) (auto simp: bindE_eq_Inr)

lemma mapE_concat:
  assumes "mapE f xs = Inr yss" and "\<And>x ys. x \<in> set xs \<Longrightarrow> f x = Inr ys \<Longrightarrow> set ys = S x"
  shows "set (concat yss) = (\<Union>x \<in> set xs. S x)"
  using mapE_set [OF assms(1)] assms(2) by fastforce

lemma mapE_returns: "(\<And>x. x \<in> set xs \<Longrightarrow> \<exists>y. f x = Inr y) \<Longrightarrow> \<exists>ys. mapE f xs = Inr ys"
proof (induction xs)
  case (Cons x xs)
  then obtain y ys where "f x = Inr y" "mapE f xs = Inr ys" by fastforce
  then show ?case by simp
qed simp

lemma mapE_fails: "x \<in> set xs \<Longrightarrow> f x = Inl e \<Longrightarrow> (\<And>x e'. x \<in> set xs \<Longrightarrow> f x = Inl e' \<Longrightarrow> e' = e) \<Longrightarrow> mapE f xs = Inl e"
proof (induction xs)
  case (Cons y ys)
  show ?case
  proof (cases "f y")
    case (Inl e')
    then have "e' = e" using Cons.prems(3) [of y e'] by simp
    with Inl show ?thesis by simp
  next
    case (Inr z)
    with Cons.prems(1,2) have "x \<in> set ys" by auto
    then have "mapE f ys = Inl e" using Cons.prems(2)
    proof (rule Cons.IH)
      show "e' = e" if "x \<in> set ys" "f x = Inl e'" for x e' using that Cons.prems(3) [of x e'] by simp
    qed
    with Inr show ?thesis by simp
  qed
qed simp

lemma mapE_error: "mapE f xs = Inl e \<Longrightarrow> \<exists>x \<in> set xs. f x = Inl e"
  by (induction xs) (auto simp: bindE_def split: sum.splits)

lemma list_all2_choice:
  "list_all2 (\<lambda>x g. \<exists>a \<in> A g. x = f g a) l gs \<longleftrightarrow> (\<exists>as. list_all2 (\<lambda>g a. a \<in> A g) gs as \<and> l = map2 f gs as)"
proof
  assume "list_all2 (\<lambda>x g. \<exists>a \<in> A g. x = f g a) l gs"
  then show "\<exists>as. list_all2 (\<lambda>g a. a \<in> A g) gs as \<and> l = map2 f gs as"
  proof (induction rule: list_all2_induct)
    case (Cons x xs g gs)
    then obtain a as where "a \<in> A g" "x = f g a" "xs = map2 f gs as" "list_all2 (\<lambda>g a. a \<in> A g) gs as" by auto
    then show ?case by (intro exI [of _ "a # as"]) simp
  qed simp
next
  assume "\<exists>as. list_all2 (\<lambda>g a. a \<in> A g) gs as \<and> l = map2 f gs as"
  then obtain as where l: "l = map2 f gs as" and "list_all2 (\<lambda>g a. a \<in> A g) gs as" by blast
  from this(2) show "list_all2 (\<lambda>x g. \<exists>a \<in> A g. x = f g a) l gs"
    unfolding l by (induction rule: list_all2_induct) auto
qed

lemma returns_simps [simp]: "returns (Inr x)" "\<not> returns (Inl e)"
  by (auto simp: returns_def)

section \<open>Lemmas on printing\<close>

declare show_nat.simps [simp del]

lemma read_nat_snoc: "read_nat (s @ [c]) = read_nat s * 10 + (of_char c - 48)"
  by (simp add: read_nat_def)

lemma read_show_nat: "read_nat (show_nat n) = n"
proof (induction n rule: show_nat.induct)
  case (1 n)
  show ?case
  proof (cases "n < 10")
    case True
    then show ?thesis by (subst show_nat.simps) (simp add: read_nat_def of_char_of)
  next
    case False
    with 1 show ?thesis
      by (subst show_nat.simps) (simp add: read_nat_snoc of_char_of)
  qed
qed

lemma show_nat_inj: "show_nat m = show_nat n \<longleftrightarrow> m = n"
  by (metis read_show_nat)

lemma show_nat_nonempty: "show_nat n \<noteq> []"
  by (subst show_nat.simps) simp

end
