(* ===== verification/Bdd_Package.thy ===== *)
theory Bdd_Package
  imports Prelude "HOL-Library.Countable"
begin

text \<open>
  The interface of the BDD package (BuDDy, as shipped with Spot) and of Spot's BDD
  dictionary, which the C++ sources only call. Its operations are the fields of a record
  that every definition using them takes as an argument; the locale states the documented
  laws the code relies on. Reduced ordered decision trees satisfy the laws.
\<close>

section \<open>The operations the code calls\<close>

type_synonym valuation = "int \<Rightarrow> bool"

text \<open>
  \<open>bdd_and\<close> is \<^verbatim>\<open>operator&=\<close>, \<open>bdd_id\<close> the node number \<^verbatim>\<open>bdd::id()\<close> that also decides
  \<^verbatim>\<open>operator==\<close>; \<open>register_proposition\<close> is the variable that the dictionary gives to the
  atomic proposition of a name. \<open>bdd_sat\<close> is not an operation: it is the Boolean function
  that a BDD stands for.
\<close>

record 'b bdd_pkg =
  bddtrue :: 'b
  bddfalse :: 'b
  bdd_and :: "'b \<Rightarrow> 'b \<Rightarrow> 'b"
  bdd_not :: "'b \<Rightarrow> 'b"
  bdd_ithvar :: "int \<Rightarrow> 'b"
  bdd_id :: "'b \<Rightarrow> int"
  register_proposition :: "string \<Rightarrow> int"
  bdd_sat :: "'b \<Rightarrow> valuation \<Rightarrow> bool"

locale bdd_library =
  fixes B :: "'b bdd_pkg"
  assumes sat_true [simp]: "bdd_sat B (bddtrue B) s"
    and sat_false [simp]: "\<not> bdd_sat B (bddfalse B) s"
    and sat_and [simp]: "bdd_sat B (bdd_and B x y) s \<longleftrightarrow> bdd_sat B x s \<and> bdd_sat B y s"
    and sat_not [simp]: "bdd_sat B (bdd_not B x) s \<longleftrightarrow> \<not> bdd_sat B x s"
    and sat_ithvar [simp]: "bdd_sat B (bdd_ithvar B n) s \<longleftrightarrow> s n"
    and id_inj [simp]: "bdd_id B x = bdd_id B y \<longleftrightarrow> x = y"
    and register_inj [simp]: "register_proposition B a = register_proposition B b \<longleftrightarrow> a = b"
begin

lemma sat_not_false: "bdd_sat B x s \<Longrightarrow> x \<noteq> bddfalse B"
  by auto

lemma id_less_total: "x \<noteq> y \<Longrightarrow> \<not> bdd_id B x < bdd_id B y \<Longrightarrow> bdd_id B y < bdd_id B x"
  using id_inj [of x y] by linarith

end

section \<open>Reduced ordered decision trees\<close>

datatype bdt = BFalse | BTrue | Ite int bdt bdt

definition mk_ite :: "int \<Rightarrow> bdt \<Rightarrow> bdt \<Rightarrow> bdt" where
  "mk_ite v l r = (if l = r then l else Ite v l r)"

fun bdt_sat :: "bdt \<Rightarrow> valuation \<Rightarrow> bool" where
  "bdt_sat BFalse s = False"
| "bdt_sat BTrue s = True"
| "bdt_sat (Ite v l r) s = (if s v then bdt_sat l s else bdt_sat r s)"

fun bdt_not :: "bdt \<Rightarrow> bdt" where
  "bdt_not BFalse = BTrue"
| "bdt_not BTrue = BFalse"
| "bdt_not (Ite v l r) = Ite v (bdt_not l) (bdt_not r)"

fun bdt_and :: "bdt \<Rightarrow> bdt \<Rightarrow> bdt" where
  "bdt_and BFalse y = BFalse"
| "bdt_and BTrue y = y"
| "bdt_and x BFalse = BFalse"
| "bdt_and x BTrue = x"
| "bdt_and (Ite v l r) (Ite w l' r') =
     (if v = w then mk_ite v (bdt_and l l') (bdt_and r r')
      else if v < w then mk_ite v (bdt_and l (Ite w l' r')) (bdt_and r (Ite w l' r'))
      else mk_ite w (bdt_and (Ite v l r) l') (bdt_and (Ite v l r) r'))"

fun bdt_code :: "bdt \<Rightarrow> nat" where
  "bdt_code BFalse = 0"
| "bdt_code BTrue = 1"
| "bdt_code (Ite v l r) = 2 + prod_encode (int_encode v, prod_encode (bdt_code l, bdt_code r))"

definition robdd_pkg :: "bdt bdd_pkg" where
  "robdd_pkg = \<lparr>bddtrue = BTrue, bddfalse = BFalse, bdd_and = bdt_and, bdd_not = bdt_not,
     bdd_ithvar = (\<lambda>n. Ite n BTrue BFalse), bdd_id = (\<lambda>x. int (bdt_code x)),
     register_proposition = (\<lambda>a. int (list_encode (map of_char a))), bdd_sat = bdt_sat\<rparr>"

lemma mk_ite_sat [simp]: "bdt_sat (mk_ite v l r) s = (if s v then bdt_sat l s else bdt_sat r s)"
  by (simp add: mk_ite_def)

lemma bdt_not_sat [simp]: "bdt_sat (bdt_not x) s = (\<not> bdt_sat x s)"
  by (induction x) auto

lemma bdt_and_sat [simp]: "bdt_sat (bdt_and x y) s = (bdt_sat x s \<and> bdt_sat y s)"
  by (induction x y rule: bdt_and.induct) auto

lemma bdt_code_inj: "bdt_code x = bdt_code y \<longleftrightarrow> x = y"
proof (induction x arbitrary: y)
  case (Ite v l r)
  then show ?case by (cases y) (auto simp: prod_encode_eq int_encode_eq)
qed (case_tac y; simp)+

lemma map_of_char_inj: "map (of_char :: char \<Rightarrow> nat) a = map of_char b \<longleftrightarrow> a = b"
  using inj_map_eq_map [OF inj_of_char] by blast

interpretation robdd: bdd_library robdd_pkg
  by unfold_locales (auto simp: robdd_pkg_def bdt_code_inj list_encode_eq map_of_char_inj)

end
