(* ===== verification/Traces.thy ===== *)
theory Traces
  imports Prelude
begin

text \<open>
  The abstract specification of the soundness check: a trace graph, its infinite paths and
  the global trace condition of cyclic proofs, with the facts the components need about
  it: invariance under renaming of vertices, under contracting or expanding steps of a path,
  under removal of a sink, and under fusion of a vertex with its only successor.
\<close>

section \<open>Trace graphs and the global trace condition\<close>

text \<open>
  A trace graph has, for every edge, the tag pairs along which a trace may continue and the
  tag pairs along which it progresses.
\<close>

record ('v, 't) tgraph =
  tg_edge :: "'v \<Rightarrow> 'v \<Rightarrow> bool"
  tg_valid :: "'v \<Rightarrow> 'v \<Rightarrow> ('t \<times> 't) set"
  tg_prog :: "'v \<Rightarrow> 'v \<Rightarrow> ('t \<times> 't) set"

definition tg_path :: "('v, 't) tgraph \<Rightarrow> 'v \<Rightarrow> (nat \<Rightarrow> 'v) \<Rightarrow> bool" where
  "tg_path G v0 p \<longleftrightarrow> p 0 = v0 \<and> (\<forall>i. tg_edge G (p i) (p (Suc i)))"

text \<open>
  A sequence of valid and progressing pairs is progressing if from some point on a trace
  follows the valid pairs and takes a progressing pair infinitely often.
\<close>

definition progressing :: "(nat \<Rightarrow> ('t \<times> 't) set) \<Rightarrow> (nat \<Rightarrow> ('t \<times> 't) set) \<Rightarrow> bool" where
  "progressing V P \<longleftrightarrow>
     (\<exists>n t. (\<forall>i\<ge>n. (t i, t (Suc i)) \<in> V i) \<and> (\<forall>m. \<exists>i\<ge>m. (t i, t (Suc i)) \<in> P i))"

definition path_progressing :: "('v, 't) tgraph \<Rightarrow> (nat \<Rightarrow> 'v) \<Rightarrow> bool" where
  "path_progressing G p \<longleftrightarrow>
     progressing (\<lambda>i. tg_valid G (p i) (p (Suc i))) (\<lambda>i. tg_prog G (p i) (p (Suc i)))"

definition gtc :: "('v, 't) tgraph \<Rightarrow> 'v \<Rightarrow> bool" where
  "gtc G v0 \<longleftrightarrow> (\<forall>p. tg_path G v0 p \<longrightarrow> path_progressing G p)"

section \<open>Elementary facts\<close>

lemma progressingI:
  assumes "\<And>i. n \<le> i \<Longrightarrow> (t i, t (Suc i)) \<in> V i" and "\<And>m. \<exists>i\<ge>m. (t i, t (Suc i)) \<in> P i"
  shows "progressing V P"
  using assms unfolding progressing_def by blast

lemma gtcI: "(\<And>p. tg_path G v0 p \<Longrightarrow> path_progressing G p) \<Longrightarrow> gtc G v0"
  by (simp add: gtc_def)

lemma gtcD: "gtc G v0 \<Longrightarrow> tg_path G v0 p \<Longrightarrow> path_progressing G p"
  by (simp add: gtc_def)

lemma tg_path_start: "tg_path G v0 p \<Longrightarrow> p 0 = v0"
  by (simp add: tg_path_def)

lemma tg_path_edge: "tg_path G v0 p \<Longrightarrow> tg_edge G (p i) (p (Suc i))"
  by (simp add: tg_path_def)

text \<open>A set of vertices that contains the start and is closed under edges contains the path.\<close>

lemma tg_path_in:
  assumes "tg_path G v0 p" and "v0 \<in> X" and "\<And>v w. v \<in> X \<Longrightarrow> tg_edge G v w \<Longrightarrow> w \<in> X"
  shows "p i \<in> X"
  by (induction i) (use assms in \<open>auto simp: tg_path_def\<close>)

text \<open>A vertex without outgoing edges lies on no infinite path.\<close>

lemma tg_path_avoids_sinks: "tg_path G v0 p \<Longrightarrow> (\<And>w. \<not> tg_edge G v w) \<Longrightarrow> p i \<noteq> v"
  by (metis tg_path_edge)

lemma gtc_no_path: "(\<And>p. \<not> tg_path G v0 p) \<Longrightarrow> gtc G v0"
  by (simp add: gtc_def)

section \<open>Renaming vertices\<close>

text \<open>
  An injective renaming of the vertices of a closed part of the graph that carries edges
  and pairs over, in both directions, carries the global trace condition over.
\<close>

lemma gtc_rename:
  assumes inj: "inj_on f X" and start: "v0 \<in> X"
    and closed: "\<And>v w. v \<in> X \<Longrightarrow> tg_edge G v w \<Longrightarrow> w \<in> X"
    and edge: "\<And>v w. v \<in> X \<Longrightarrow> w \<in> X \<Longrightarrow> tg_edge G' (f v) (f w) = tg_edge G v w"
    and onto: "\<And>v w'. v \<in> X \<Longrightarrow> tg_edge G' (f v) w' \<Longrightarrow> w' \<in> f ` X"
    and valid: "\<And>v w. v \<in> X \<Longrightarrow> w \<in> X \<Longrightarrow> tg_edge G v w \<Longrightarrow> tg_valid G' (f v) (f w) = tg_valid G v w"
    and prog: "\<And>v w. v \<in> X \<Longrightarrow> w \<in> X \<Longrightarrow> tg_edge G v w \<Longrightarrow> tg_prog G' (f v) (f w) = tg_prog G v w"
  shows "gtc G' (f v0) = gtc G v0"
proof
  assume g: "gtc G' (f v0)"
  show "gtc G v0"
  proof (rule gtcI)
    fix p assume p: "tg_path G v0 p"
    have X: "p i \<in> X" for i by (rule tg_path_in [OF p start closed])
    with p have "tg_path G' (f v0) (f \<circ> p)" by (auto simp: tg_path_def edge)
    from gtcD [OF g this] show "path_progressing G p"
      by (simp add: path_progressing_def valid prog X tg_path_edge [OF p])
  qed
next
  assume g: "gtc G v0"
  show "gtc G' (f v0)"
  proof (rule gtcI)
    fix q assume q: "tg_path G' (f v0) q"
    have im: "q i \<in> f ` X" for i
      by (rule tg_path_in [OF q]) (use start onto in auto)
    define p where "p i = the_inv_into X f (q i)" for i
    have X: "p i \<in> X" and fp: "f (p i) = q i" for i
      using im [of i] inj by (auto simp: p_def the_inv_into_into f_the_inv_into_f)
    have "tg_path G v0 p"
      unfolding tg_path_def
    proof (intro conjI allI)
      show "p 0 = v0"
        using tg_path_start [OF q] inj start by (simp add: p_def the_inv_into_f_f)
      show "tg_edge G (p i) (p (Suc i))" for i
        using tg_path_edge [OF q, of i] edge [OF X X, of i "Suc i"] by (simp add: fp)
    qed
    from gtcD [OF g this] tg_path_edge [OF this] show "path_progressing G' q"
      by (simp add: path_progressing_def valid prog X flip: fp)
  qed
qed

section \<open>Contracting two steps into one\<close>

text \<open>
  A block function enumerates the positions of a sequence at which the blocks start; a block
  has one or two steps. The pairs of a two-step block are the compositions of its steps'
  pairs, progressing if one of the two steps is.
\<close>

definition block_pairs ::
  "('t \<times> 't) set \<Rightarrow> ('t \<times> 't) set \<Rightarrow> ('t \<times> 't) set \<Rightarrow> ('t \<times> 't) set \<Rightarrow> ('t \<times> 't) set" where
  "block_pairs V1 P1 V2 P2 = P1 O P2 \<union> V1 O P2 \<union> P1 O V2"

definition contracts ::
  "(nat \<Rightarrow> nat) \<Rightarrow> (nat \<Rightarrow> ('t \<times> 't) set) \<Rightarrow> (nat \<Rightarrow> ('t \<times> 't) set) \<Rightarrow>
   (nat \<Rightarrow> ('t \<times> 't) set) \<Rightarrow> (nat \<Rightarrow> ('t \<times> 't) set) \<Rightarrow> bool" where
  "contracts h V P V' P' \<longleftrightarrow> h 0 = 0 \<and>
     (\<forall>j. (h (Suc j) = Suc (h j) \<and> V' j = V (h j) \<and> P' j = P (h j)) \<or>
          (h (Suc j) = Suc (Suc (h j)) \<and> V' j = V (h j) O V (Suc (h j)) \<and>
           P' j = block_pairs (V (h j)) (P (h j)) (V (Suc (h j))) (P (Suc (h j)))))"

lemma contracts_step:
  assumes "contracts h V P V' P'"
  obtains (one) "h (Suc j) = Suc (h j)" "V' j = V (h j)" "P' j = P (h j)"
  | (two) "h (Suc j) = Suc (Suc (h j))" "V' j = V (h j) O V (Suc (h j))"
      "P' j = block_pairs (V (h j)) (P (h j)) (V (Suc (h j))) (P (Suc (h j)))"
  using assms unfolding contracts_def by blast

lemma contracts_less: "contracts h V P V' P' \<Longrightarrow> h j < h (Suc j)"
  by (erule contracts_step [of _ _ _ _ _ j]) auto

lemma contracts_mono: "contracts h V P V' P' \<Longrightarrow> strict_mono h"
  by (simp add: strict_mono_Suc_iff contracts_less)

lemma contracts_ge: "contracts h V P V' P' \<Longrightarrow> j \<le> h j"
  by (rule strict_mono_imp_increasing [OF contracts_mono])

lemma contracts_block:
  assumes c: "contracts h V P V' P'"
  shows "\<exists>!j. h j \<le> i \<and> i < h (Suc j)"
proof (rule ex_ex1I)
  show "\<exists>j. h j \<le> i \<and> i < h (Suc j)"
  proof (induction i)
    case 0
    show ?case using c contracts_less [OF c, of 0] by (auto simp: contracts_def)
  next
    case (Suc i)
    then obtain j where "h j \<le> i" "i < h (Suc j)" by blast
    then show ?case
      using contracts_less [OF c, of "Suc j"] by (metis Suc_leI le_SucI le_less_linear order_antisym)
  qed
  show "j = k" if j: "h j \<le> i \<and> i < h (Suc j)" and k: "h k \<le> i \<and> i < h (Suc k)" for j k
    using that strict_mono_less [OF contracts_mono [OF c]]
    by (metis less_Suc_eq_le order_antisym order_le_less_trans)
qed

lemma progressing_contract:
  assumes c: "contracts h V P V' P'" and pr: "progressing V P"
  shows "progressing V' P'"
proof -
  obtain n t where v: "\<And>i. n \<le> i \<Longrightarrow> (t i, t (Suc i)) \<in> V i"
    and p: "\<And>m. \<exists>i\<ge>m. (t i, t (Suc i)) \<in> P i"
    using pr unfolding progressing_def by blast
  have late: "n \<le> h j" if "n \<le> j" for j
    using contracts_ge [OF c, of j] that by simp
  show ?thesis
  proof (rule progressingI [where n = n and t = "t \<circ> h"])
    fix j assume j: "n \<le> j"
    from c show "((t \<circ> h) j, (t \<circ> h) (Suc j)) \<in> V' j"
    proof (cases rule: contracts_step [where j = j])
      case one
      with v [OF late [OF j]] show ?thesis by simp
    next
      case two
      with v [OF late [OF j]] v [of "Suc (h j)"] late [OF j] show ?thesis by auto
    qed
  next
    fix m
    obtain i where i: "h (max m n) \<le> i" "(t i, t (Suc i)) \<in> P i" using p by blast
    obtain j where j: "h j \<le> i" "i < h (Suc j)" using contracts_block [OF c, of i] by blast
    have "max m n \<le> j"
      using i(1) j(2) strict_mono_less [OF contracts_mono [OF c], of "max m n" "Suc j"] by simp
    then have mj: "m \<le> j" and nj: "n \<le> h j" using late [of j] by auto
    from c have "((t \<circ> h) j, (t \<circ> h) (Suc j)) \<in> P' j"
    proof (cases rule: contracts_step [where j = j])
      case one
      with i j show ?thesis by (simp add: less_Suc_eq_le order_antisym)
    next
      case two
      with j have "i = h j \<or> i = Suc (h j)" by auto
      with two i nj v [of "h j"] v [of "Suc (h j)"] show ?thesis by (auto simp: block_pairs_def)
    qed
    with mj show "\<exists>j\<ge>m. ((t \<circ> h) j, (t \<circ> h) (Suc j)) \<in> P' j" by blast
  qed
qed

text \<open>
  The converse needs the intermediate tag of every two-step block: a tag through which the
  composed pair is valid, chosen so that a progressing composed pair progresses.
\<close>

lemma block_mid:
  assumes "P1 \<subseteq> V1" and "P2 \<subseteq> V2" and "(a, b) \<in> V1 O V2"
  shows "\<exists>m. (a, m) \<in> V1 \<and> (m, b) \<in> V2 \<and>
    ((a, b) \<in> block_pairs V1 P1 V2 P2 \<longrightarrow> (a, m) \<in> P1 \<or> (m, b) \<in> P2)"
  using assms unfolding block_pairs_def by blast

lemma progressing_expand:
  assumes c: "contracts h V P V' P'" and sub: "\<And>i. P i \<subseteq> V i" and pr: "progressing V' P'"
  shows "progressing V P"
proof -
  obtain n t where v: "\<And>j. n \<le> j \<Longrightarrow> (t j, t (Suc j)) \<in> V' j"
    and p: "\<And>m. \<exists>j\<ge>m. (t j, t (Suc j)) \<in> P' j"
    using pr unfolding progressing_def by blast
  have "\<exists>m. n \<le> j \<longrightarrow> h (Suc j) = Suc (Suc (h j)) \<longrightarrow>
      (t j, m) \<in> V (h j) \<and> (m, t (Suc j)) \<in> V (Suc (h j)) \<and>
      ((t j, t (Suc j)) \<in> P' j \<longrightarrow> (t j, m) \<in> P (h j) \<or> (m, t (Suc j)) \<in> P (Suc (h j)))" for j
    by (rule contracts_step [OF c, of j]) (use v [of j] block_mid [OF sub sub] in fastforce)+
  then obtain mid where mid: "\<And>j. n \<le> j \<Longrightarrow> h (Suc j) = Suc (Suc (h j)) \<Longrightarrow>
      (t j, mid j) \<in> V (h j) \<and> (mid j, t (Suc j)) \<in> V (Suc (h j)) \<and>
      ((t j, t (Suc j)) \<in> P' j \<longrightarrow> (t j, mid j) \<in> P (h j) \<or> (mid j, t (Suc j)) \<in> P (Suc (h j)))"
    by metis
  define blk where "blk i = (THE j. h j \<le> i \<and> i < h (Suc j))" for i
  have blk_eq: "blk i = j" if "h j \<le> i" "i < h (Suc j)" for i j
    unfolding blk_def using contracts_block [OF c, of i] that by (blast intro: the1_equality)
  define u where "u i = (if i = h (blk i) then t (blk i) else mid (blk i))" for i
  have u_start: "u (h j) = t j" for j
    using blk_eq [of j "h j"] contracts_less [OF c, of j] by (simp add: u_def)
  have u_mid: "u (Suc (h j)) = mid j" if "h (Suc j) = Suc (Suc (h j))" for j
    using blk_eq [of j "Suc (h j)"] that by (simp add: u_def)
  have step: "(u i, u (Suc i)) \<in> V i" if "h n \<le> i" for i
  proof -
    obtain j where j: "h j \<le> i" "i < h (Suc j)" using contracts_block [OF c, of i] by blast
    with that have nj: "n \<le> j"
      using strict_mono_less [OF contracts_mono [OF c], of n "Suc j"] by simp
    from c show ?thesis
    proof (cases rule: contracts_step [where j = j])
      case one
      with j have "i = h j" by simp
      with one v [OF nj] u_start [of j] u_start [of "Suc j"] show ?thesis by simp
    next
      case two
      with j have "i = h j \<or> i = Suc (h j)" by auto
      with two mid [OF nj] u_start [of j] u_start [of "Suc j"] u_mid [of j] show ?thesis by auto
    qed
  qed
  show ?thesis
  proof (rule progressingI [where n = "h n" and t = u])
    show "(u i, u (Suc i)) \<in> V i" if "h n \<le> i" for i using that by (rule step)
    fix m
    obtain j where j: "max m n \<le> j" "(t j, t (Suc j)) \<in> P' j" using p by blast
    have hj: "m \<le> h j" using contracts_ge [OF c, of j] j(1) by simp
    from c show "\<exists>i\<ge>m. (u i, u (Suc i)) \<in> P i"
    proof (cases rule: contracts_step [where j = j])
      case one
      with j hj u_start [of j] u_start [of "Suc j"] show ?thesis by (auto intro: exI [of _ "h j"])
    next
      case two
      with j mid [of j] have "(t j, mid j) \<in> P (h j) \<or> (mid j, t (Suc j)) \<in> P (Suc (h j))" by simp
      with two hj u_start [of j] u_start [of "Suc j"] u_mid [of j] show ?thesis
        by (metis le_SucI)
    qed
  qed
qed

lemma progressing_contracts:
  assumes "contracts h V P V' P'" and "\<And>i. P i \<subseteq> V i"
  shows "progressing V P = progressing V' P'"
  using assms progressing_contract progressing_expand by blast

section \<open>Edges into sinks\<close>

text \<open>Edges that lead to vertices without outgoing edges lie on no infinite path.\<close>

lemma gtc_dead_edges:
  assumes sub: "\<And>v w. tg_edge G v w \<Longrightarrow> tg_edge G' v w"
    and dead: "\<And>v w u. tg_edge G' v w \<Longrightarrow> \<not> tg_edge G v w \<Longrightarrow> \<not> tg_edge G' w u"
    and valid: "\<And>v w. tg_edge G v w \<Longrightarrow> tg_valid G' v w = tg_valid G v w"
    and prog: "\<And>v w. tg_edge G v w \<Longrightarrow> tg_prog G' v w = tg_prog G v w"
  shows "gtc G' v0 = gtc G v0"
proof -
  have "tg_edge G (p i) (p (Suc i))" if "tg_path G' v0 p" for p i
    using tg_path_edge [OF that, of i] tg_path_edge [OF that, of "Suc i"] dead by blast
  then have path: "tg_path G' v0 p \<longleftrightarrow> tg_path G v0 p" for p
    using sub by (auto simp: tg_path_def)
  have "path_progressing G' p = path_progressing G p" if p: "tg_path G v0 p" for p
    by (simp add: path_progressing_def valid prog tg_path_edge [OF p])
  with path show ?thesis by (simp add: gtc_def)
qed

lemma gtc_remove_sink:
  assumes sink: "\<And>w. \<not> tg_edge G x w"
    and edge: "\<And>v w. tg_edge G' v w \<longleftrightarrow> tg_edge G v w \<and> w \<noteq> x"
    and valid: "\<And>v w. tg_edge G v w \<Longrightarrow> w \<noteq> x \<Longrightarrow> tg_valid G' v w = tg_valid G v w"
    and prog: "\<And>v w. tg_edge G v w \<Longrightarrow> w \<noteq> x \<Longrightarrow> tg_prog G' v w = tg_prog G v w"
  shows "gtc G' v0 = gtc G v0"
  by (rule gtc_dead_edges [symmetric]) (use assms in auto)

section \<open>Fusing a node with its only successor\<close>

text \<open>
  \<open>fused G G' x c\<close>: the vertex \<open>x\<close> has the only successor \<open>c\<close>, and \<open>G'\<close> is \<open>G\<close> without \<open>x\<close>, where
  the edges into \<open>x\<close> lead to \<open>c\<close> and carry the composed pairs.
\<close>

definition fused :: "('v, 't) tgraph \<Rightarrow> ('v, 't) tgraph \<Rightarrow> 'v \<Rightarrow> 'v \<Rightarrow> bool" where
  "fused G G' x c \<longleftrightarrow> c \<noteq> x \<and> (\<forall>w. tg_edge G x w \<longleftrightarrow> w = c) \<and>
     (\<forall>v. tg_edge G v x \<longrightarrow> \<not> tg_edge G v c) \<and>
     (\<forall>v w. tg_edge G' v w \<longleftrightarrow> v \<noteq> x \<and> w \<noteq> x \<and> (tg_edge G v w \<or> tg_edge G v x \<and> w = c)) \<and>
     (\<forall>v w. v \<noteq> x \<longrightarrow> w \<noteq> x \<longrightarrow> tg_edge G v w \<longrightarrow>
        tg_valid G' v w = tg_valid G v w \<and> tg_prog G' v w = tg_prog G v w) \<and>
     (\<forall>v. tg_edge G v x \<longrightarrow> tg_valid G' v c = tg_valid G v x O tg_valid G x c \<and>
        tg_prog G' v c = block_pairs (tg_valid G v x) (tg_prog G v x) (tg_valid G x c) (tg_prog G x c))"

abbreviation path_valid :: "('v, 't) tgraph \<Rightarrow> (nat \<Rightarrow> 'v) \<Rightarrow> nat \<Rightarrow> ('t \<times> 't) set" where
  "path_valid G p i \<equiv> tg_valid G (p i) (p (Suc i))"

abbreviation path_prog :: "('v, 't) tgraph \<Rightarrow> (nat \<Rightarrow> 'v) \<Rightarrow> nat \<Rightarrow> ('t \<times> 't) set" where
  "path_prog G p i \<equiv> tg_prog G (p i) (p (Suc i))"

lemma fusedD:
  assumes "fused G G' x c"
  shows "c \<noteq> x" "tg_edge G x w \<longleftrightarrow> w = c" "tg_edge G v x \<Longrightarrow> \<not> tg_edge G v c"
    "tg_edge G' v w \<longleftrightarrow> v \<noteq> x \<and> w \<noteq> x \<and> (tg_edge G v w \<or> tg_edge G v x \<and> w = c)"
    "v \<noteq> x \<Longrightarrow> w \<noteq> x \<Longrightarrow> tg_edge G v w \<Longrightarrow> tg_valid G' v w = tg_valid G v w \<and> tg_prog G' v w = tg_prog G v w"
    "tg_edge G v x \<Longrightarrow> tg_valid G' v c = tg_valid G v x O tg_valid G x c \<and>
      tg_prog G' v c = block_pairs (tg_valid G v x) (tg_prog G v x) (tg_valid G x c) (tg_prog G x c)"
  using assms by (simp_all add: fused_def)

text \<open>Leaving out the visits to \<open>x\<close>.\<close>

primrec skip_to :: "'v \<Rightarrow> (nat \<Rightarrow> 'v) \<Rightarrow> nat \<Rightarrow> nat" where
  "skip_to x p 0 = 0"
| "skip_to x p (Suc j) = (if p (Suc (skip_to x p j)) = x then Suc (Suc (skip_to x p j)) else Suc (skip_to x p j))"

lemma fused_contract_path:
  assumes F: "fused G G' x c" and p: "tg_path G v0 p" and v0: "v0 \<noteq> x"
  defines "q \<equiv> \<lambda>j. p (skip_to x p j)"
  shows "tg_path G' v0 q" and "contracts (skip_to x p) (path_valid G p) (path_prog G p) (path_valid G' q) (path_prog G' q)"
proof -
  note e = tg_path_edge [OF p] and d = fusedD [OF F]
  have after: "p (Suc i) = c" if "p i = x" for i using e [of i] that d(2) by simp
  have avoid: "q j \<noteq> x" for j
    by (induction j) (use v0 tg_path_start [OF p] d(1) after in \<open>auto simp: q_def\<close>)
  have step: "(p (Suc (skip_to x p j)) = x \<and> tg_edge G (q j) x \<and> q (Suc j) = c) \<or>
      (p (Suc (skip_to x p j)) \<noteq> x \<and> tg_edge G (q j) (q (Suc j)))" for j
    using e [of "skip_to x p j"] after by (auto simp: q_def)
  show "tg_path G' v0 q"
    unfolding tg_path_def
  proof (intro conjI allI)
    show "q 0 = v0" using tg_path_start [OF p] by (simp add: q_def)
    show "tg_edge G' (q j) (q (Suc j))" for j using step [of j] avoid d(4) by blast
  qed
  show "contracts (skip_to x p) (path_valid G p) (path_prog G p) (path_valid G' q) (path_prog G' q)"
    unfolding contracts_def
  proof (intro conjI allI)
    fix j
    show "(skip_to x p (Suc j) = Suc (skip_to x p j) \<and> path_valid G' q j = path_valid G p (skip_to x p j) \<and>
        path_prog G' q j = path_prog G p (skip_to x p j)) \<or>
      (skip_to x p (Suc j) = Suc (Suc (skip_to x p j)) \<and>
        path_valid G' q j = path_valid G p (skip_to x p j) O path_valid G p (Suc (skip_to x p j)) \<and>
        path_prog G' q j = block_pairs (path_valid G p (skip_to x p j)) (path_prog G p (skip_to x p j))
          (path_valid G p (Suc (skip_to x p j))) (path_prog G p (Suc (skip_to x p j))))"
    proof (cases "p (Suc (skip_to x p j)) = x")
      case True
      with step [of j] have "tg_edge G (q j) x" "q (Suc j) = c" by auto
      with True after [OF True] d(6) [of "q j"] show ?thesis by (simp add: q_def)
    next
      case False
      with step [of j] avoid d(5) [of "q j" "q (Suc j)"] show ?thesis by (simp add: q_def)
    qed
  qed simp
qed

text \<open>Putting the visits to \<open>x\<close> back: the positions of a path with detours.\<close>

primrec detour_at :: "(nat \<Rightarrow> bool) \<Rightarrow> nat \<Rightarrow> nat \<times> bool" where
  "detour_at two 0 = (0, False)"
| "detour_at two (Suc i) = (case detour_at two i of (j, mid) \<Rightarrow>
     if \<not> mid \<and> two j then (j, True) else (Suc j, False))"

primrec detour_start :: "(nat \<Rightarrow> bool) \<Rightarrow> nat \<Rightarrow> nat" where
  "detour_start two 0 = 0"
| "detour_start two (Suc j) = (if two j then Suc (Suc (detour_start two j)) else Suc (detour_start two j))"

lemma detour_at_start: "detour_at two (detour_start two j) = (j, False)"
  by (induction j) auto

lemma detour_mid: "detour_at two i = (j, True) \<Longrightarrow> two j"
  by (induction i arbitrary: j) (auto split: prod.splits if_splits)

lemma fused_expand_path:
  assumes F: "fused G G' x c" and q: "tg_path G' v0 q"
  defines "two \<equiv> \<lambda>j. \<not> tg_edge G (q j) (q (Suc j))"
  defines "p \<equiv> \<lambda>i. case detour_at two i of (j, mid) \<Rightarrow> if mid then x else q j"
  shows "tg_path G v0 p" and "contracts (detour_start two) (path_valid G p) (path_prog G p) (path_valid G' q) (path_prog G' q)"
proof -
  note d = fusedD [OF F]
  have e: "q j \<noteq> x" "q (Suc j) \<noteq> x" "two j \<Longrightarrow> tg_edge G (q j) x \<and> q (Suc j) = c"
    "\<not> two j \<Longrightarrow> tg_edge G (q j) (q (Suc j))" for j
    using tg_path_edge [OF q, of j] unfolding d(4) two_def by blast+
  have ps: "p (detour_start two j) = q j" for j by (simp add: p_def detour_at_start)
  have pm: "p (Suc (detour_start two j)) = x" if "two j" for j
    using that by (simp add: p_def detour_at_start)
  show "tg_path G v0 p"
    unfolding tg_path_def
  proof (intro conjI allI)
    show "p 0 = v0" using tg_path_start [OF q] by (simp add: p_def)
    show "tg_edge G (p i) (p (Suc i))" for i
    proof (cases "detour_at two i")
      case (Pair j mid)
      then show ?thesis
        using e [of j] d(2) [of "q (Suc j)"] detour_mid [of two i j] by (cases mid) (auto simp: p_def)
    qed
  qed
  show "contracts (detour_start two) (path_valid G p) (path_prog G p) (path_valid G' q) (path_prog G' q)"
    unfolding contracts_def
  proof (intro conjI allI)
    fix j
    let ?h = "detour_start two j"
    show "(detour_start two (Suc j) = Suc ?h \<and> path_valid G' q j = path_valid G p ?h \<and>
        path_prog G' q j = path_prog G p ?h) \<or>
      (detour_start two (Suc j) = Suc (Suc ?h) \<and>
        path_valid G' q j = path_valid G p ?h O path_valid G p (Suc ?h) \<and>
        path_prog G' q j = block_pairs (path_valid G p ?h) (path_prog G p ?h)
          (path_valid G p (Suc ?h)) (path_prog G p (Suc ?h)))"
    proof (cases "two j")
      case True
      then have "p (Suc (Suc ?h)) = q (Suc j)" using ps [of "Suc j"] by simp
      with True ps [of j] pm [OF True] e(3) [OF True] d(6) [of "q j"] show ?thesis by simp
    next
      case False
      then have "p (Suc ?h) = q (Suc j)" using ps [of "Suc j"] by simp
      with False ps [of j] e [of j] d(5) [of "q j" "q (Suc j)"] show ?thesis by simp
    qed
  qed simp
qed

lemma gtc_fuse:
  assumes F: "fused G G' x c" and v0: "v0 \<noteq> x"
    and sub: "\<And>v w. tg_edge G v w \<Longrightarrow> tg_prog G v w \<subseteq> tg_valid G v w"
  shows "gtc G' v0 = gtc G v0"
proof
  assume g: "gtc G' v0"
  show "gtc G v0"
  proof (rule gtcI)
    fix p assume p: "tg_path G v0 p"
    from gtcD [OF g fused_contract_path(1) [OF F p v0]]
    show "path_progressing G p"
      unfolding path_progressing_def
      by (rule progressing_expand [OF fused_contract_path(2) [OF F p v0] sub [OF tg_path_edge [OF p]]])
  qed
next
  assume g: "gtc G v0"
  show "gtc G' v0"
  proof (rule gtcI)
    fix q assume q: "tg_path G' v0 q"
    from gtcD [OF g fused_expand_path(1) [OF F q]]
    show "path_progressing G' q"
      unfolding path_progressing_def
      by (rule progressing_contract [OF fused_expand_path(2) [OF F q]])
  qed
qed

end
