(* ===== verification/Proof_Graph.thy ===== *)
theory Proof_Graph
  imports Bdd_Package Traces
begin

text \<open>
  The C++ class \<^verbatim>\<open>Proof\<close> (proof.hpp, proof.c): the graph of a proof whose vertices are
  BDD minterms over the propositions \<^verbatim>\<open>p_0, p_1, \<dots>\<close>, with tags on vertices and trace and
  progress pairs on edges. The theory has the record, one definition per constructor and
  method, the class invariant with its preservation by every method, and the facts about
  the minterm encoding of vertices.
\<close>

section \<open>Data\<close>

text \<open>
  \<^verbatim>\<open>Tag\<close> is \<^verbatim>\<open>int\<close>, \<^verbatim>\<open>Vertex\<close> is \<^verbatim>\<open>bdd\<close>. The unordered sets are lists without
  repetition: the iteration order of an unordered container is unspecified, and no result
  about the class depends on it. The unordered maps are partial functions.
\<close>

type_synonym tag = int
type_synonym 'b quad = "'b \<times> 'b \<times> tag \<times> tag"

definition NO_TAG :: tag where
  "NO_TAG = 0"

definition NO_VERTEX :: "'b bdd_pkg \<Rightarrow> 'b" where
  "NO_VERTEX B = bddfalse B"

definition INT_MAX :: int where
  "INT_MAX = 2147483647"

record 'b cxx_proof =
  max_vertices_log2 :: nat
  max_tag :: tag
  last_vertex :: int
  initial_vertex :: 'b
  propositions :: "'b list"
  vertices :: "'b list"
  trans_map :: "'b \<rightharpoonup> 'b list"
  tag_map :: "'b \<rightharpoonup> tag list"
  vertex_names :: "'b \<rightharpoonup> string"
  trace_pairs :: "'b quad set"
  progress_pairs :: "'b quad set"

section \<open>Operations\<close>

text \<open>\<^verbatim>\<open>operator[]\<close> of a map: a missing key is first given a default value.\<close>

definition touch :: "'v \<Rightarrow> 'k \<Rightarrow> ('k \<rightharpoonup> 'v) \<Rightarrow> ('k \<rightharpoonup> 'v)" where
  "touch d k m = (case m k of None \<Rightarrow> m(k \<mapsto> d) | Some _ \<Rightarrow> m)"

definition at_key :: "('k \<rightharpoonup> 'v list) \<Rightarrow> 'k \<Rightarrow> 'v list" where
  "at_key m k = (case m k of None \<Rightarrow> [] | Some xs \<Rightarrow> xs)"

definition GET_PROP :: "'b bdd_pkg \<Rightarrow> string \<Rightarrow> 'b" where
  "GET_PROP B x = bdd_ithvar B (register_proposition B x)"

definition Proof_new :: "'b bdd_pkg \<Rightarrow> nat \<Rightarrow> 'b cxx_proof" where
  "Proof_new B maxv_l2 =
     \<lparr>max_vertices_log2 = maxv_l2, max_tag = 0, last_vertex = 0, initial_vertex = NO_VERTEX B,
      propositions = map (\<lambda>i. GET_PROP B (''p_'' @ show_nat i)) [0..<maxv_l2],
      vertices = [], trans_map = Map.empty, tag_map = Map.empty, vertex_names = Map.empty,
      trace_pairs = {}, progress_pairs = {}\<rparr>"

definition get_tags_of_vertex :: "'b cxx_proof \<Rightarrow> 'b \<Rightarrow> tag list result" where
  "get_tags_of_vertex P v =
     (case tag_map P v of None \<Rightarrow> Inl (Assert_failure ''it != tag_map.end()'') | Some ts \<Rightarrow> Inr ts)"

definition get_successors :: "'b cxx_proof \<Rightarrow> 'b \<Rightarrow> 'b list result" where
  "get_successors P v =
     (case trans_map P v of None \<Rightarrow> Inl (Assert_failure ''tmi != trans_map.end()'') | Some vs \<Rightarrow> Inr vs)"

definition get_vertex_name :: "'b cxx_proof \<Rightarrow> 'b \<Rightarrow> string result" where
  "get_vertex_name P v =
     (case vertex_names P v of None \<Rightarrow> Inl (Assert_failure ''i != vertex_names.end()'') | Some n \<Rightarrow> Inr n)"

text \<open>The loop of \<^verbatim>\<open>create_vertex\<close>: one literal per proposition, from the bits of \<open>l\<close>.\<close>

fun vertex_loop :: "'b bdd_pkg \<Rightarrow> 'b list \<Rightarrow> int \<Rightarrow> 'b \<Rightarrow> 'b" where
  "vertex_loop B [] l v = v"
| "vertex_loop B (b # bs) l v =
     vertex_loop B bs (l div 2) (bdd_and B v (if l mod 2 \<noteq> 0 then b else bdd_not B b))"

definition install_vertex :: "'b cxx_proof \<Rightarrow> int \<Rightarrow> 'b \<Rightarrow> 'b cxx_proof" where
  "install_vertex P lv v =
     P\<lparr>last_vertex := lv,
       vertices := List.insert v (vertices P),
       tag_map := touch [] v (tag_map P),
       trans_map := touch [] v (trans_map P),
       vertex_names := (vertex_names P)(v \<mapsto> show_int lv)\<rparr>"

definition Proof_create_vertex :: "'b bdd_pkg \<Rightarrow> 'b cxx_proof \<Rightarrow> ('b \<times> 'b cxx_proof) result" where
  "Proof_create_vertex B P =
     (if last_vertex P = INT_MAX then Inl (Undefined_behaviour ''++last_vertex'')
      else if 32 \<le> max_vertices_log2 P then Inl (Undefined_behaviour ''last_vertex>>max_vertices_log2'')
      else
        let lv = last_vertex P + 1 in
        asserting ''(last_vertex>>max_vertices_log2) == 0'' (drop_bit (max_vertices_log2 P) lv = 0)
          (let v = vertex_loop B (take (max_vertices_log2 P) (propositions P)) lv (bddtrue B)
           in Inr (v, install_vertex P lv v)))"

definition Proof_tag_vertex :: "'b cxx_proof \<Rightarrow> 'b \<Rightarrow> tag \<Rightarrow> 'b cxx_proof result" where
  "Proof_tag_vertex P v t =
     asserting ''vertices.find(v) != vertices.end()'' (v \<in> set (vertices P))
       (Inr (P\<lparr>max_tag := max (max_tag P) t,
               tag_map := (tag_map P)(v \<mapsto> List.insert t (at_key (tag_map P) v))\<rparr>))"

definition Proof_set_initial_vertex :: "'b cxx_proof \<Rightarrow> 'b \<Rightarrow> 'b cxx_proof result" where
  "Proof_set_initial_vertex P v =
     asserting ''vertices.find(v) != vertices.end()'' (v \<in> set (vertices P))
       (Inr (P\<lparr>initial_vertex := v\<rparr>))"

definition Proof_set_successor :: "'b cxx_proof \<Rightarrow> 'b \<Rightarrow> 'b \<Rightarrow> 'b cxx_proof result" where
  "Proof_set_successor P v1 v2 =
     asserting ''vertices.find(v1) != vertices.end()'' (v1 \<in> set (vertices P))
       (asserting ''vertices.find(v2) != vertices.end()'' (v2 \<in> set (vertices P))
         (Inr (P\<lparr>trans_map := (trans_map P)(v1 \<mapsto> List.insert v2 (at_key (trans_map P) v1))\<rparr>)))"

text \<open>
  The checks shared by the two pair setters; \<^verbatim>\<open>tag_map[v]\<close> inside an assertion creates a
  missing key like everywhere else.
\<close>

definition check_pair ::
  "'b cxx_proof \<Rightarrow> 'b \<Rightarrow> 'b \<Rightarrow> tag \<Rightarrow> tag \<Rightarrow> 'b cxx_proof result" where
  "check_pair P v1 v2 t1 t2 =
     asserting ''vertices.find(v1) != vertices.end()'' (v1 \<in> set (vertices P))
       (asserting ''vertices.find(v2) != vertices.end()'' (v2 \<in> set (vertices P))
         (asserting ''tag_map[v1].find(t1) != tag_map[v1].end()'' (t1 \<in> set (at_key (tag_map P) v1))
           (asserting ''tag_map[v2].find(t2) != tag_map[v2].end()'' (t2 \<in> set (at_key (tag_map P) v2))
             (Inr (P\<lparr>tag_map := touch [] v2 (touch [] v1 (tag_map P))\<rparr>)))))"

definition Proof_set_trace_pair ::
  "'b cxx_proof \<Rightarrow> 'b \<Rightarrow> 'b \<Rightarrow> tag \<Rightarrow> tag \<Rightarrow> 'b cxx_proof result" where
  "Proof_set_trace_pair P v1 v2 t1 t2 =
     bindE (check_pair P v1 v2 t1 t2)
       (\<lambda>P. Inr (P\<lparr>trace_pairs := insert (v1, v2, t1, t2) (trace_pairs P)\<rparr>))"

definition Proof_set_progress_pair ::
  "'b cxx_proof \<Rightarrow> 'b \<Rightarrow> 'b \<Rightarrow> tag \<Rightarrow> tag \<Rightarrow> 'b cxx_proof result" where
  "Proof_set_progress_pair P v1 v2 t1 t2 =
     bindE (check_pair P v1 v2 t1 t2)
       (\<lambda>P. Inr (P\<lparr>progress_pairs := insert (v1, v2, t1, t2) (progress_pairs P)\<rparr>))"

definition trace_pair :: "'b cxx_proof \<Rightarrow> 'b \<Rightarrow> 'b \<Rightarrow> tag \<Rightarrow> tag \<Rightarrow> bool" where
  "trace_pair P v1 v2 t1 t2 \<longleftrightarrow> (v1, v2, t1, t2) \<in> trace_pairs P"

definition progress_pair :: "'b cxx_proof \<Rightarrow> 'b \<Rightarrow> 'b \<Rightarrow> tag \<Rightarrow> tag \<Rightarrow> bool" where
  "progress_pair P v1 v2 t1 t2 \<longleftrightarrow> (v1, v2, t1, t2) \<in> progress_pairs P"

section \<open>The class invariant\<close>

definition prop_var :: "'b bdd_pkg \<Rightarrow> nat \<Rightarrow> int" where
  "prop_var B i = register_proposition B (''p_'' @ show_nat i)"

text \<open>The minterm of vertex number \<open>l\<close> over \<open>k\<close> propositions.\<close>

definition vertex_code :: "'b bdd_pkg \<Rightarrow> nat \<Rightarrow> int \<Rightarrow> 'b" where
  "vertex_code B k l = vertex_loop B (map (\<lambda>i. bdd_ithvar B (prop_var B i)) [0..<k]) l (bddtrue B)"

definition quads_ok :: "'b cxx_proof \<Rightarrow> 'b quad set \<Rightarrow> bool" where
  "quads_ok P Q \<longleftrightarrow> (\<forall>(v1, v2, t1, t2) \<in> Q. v1 \<in> set (vertices P) \<and> v2 \<in> set (vertices P) \<and>
     t1 \<in> set (at_key (tag_map P) v1) \<and> t2 \<in> set (at_key (tag_map P) v2))"

definition proof_numbering :: "'b bdd_pkg \<Rightarrow> 'b cxx_proof \<Rightarrow> bool" where
  "proof_numbering B P \<longleftrightarrow>
     propositions P = map (\<lambda>i. bdd_ithvar B (prop_var B i)) [0..<max_vertices_log2 P] \<and>
     0 \<le> last_vertex P \<and> last_vertex P < 2 ^ max_vertices_log2 P \<and>
     distinct (vertices P) \<and>
     set (vertices P) = vertex_code B (max_vertices_log2 P) ` {1..last_vertex P} \<and>
     (\<forall>l\<in>{1..last_vertex P}.
        vertex_names P (vertex_code B (max_vertices_log2 P) l) = Some (show_int l))"

definition proof_maps :: "'b bdd_pkg \<Rightarrow> 'b cxx_proof \<Rightarrow> bool" where
  "proof_maps B P \<longleftrightarrow>
     dom (tag_map P) = set (vertices P) \<and> dom (trans_map P) = set (vertices P) \<and>
     dom (vertex_names P) = set (vertices P) \<and>
     (\<forall>v ws. trans_map P v = Some ws \<longrightarrow> distinct ws \<and> set ws \<subseteq> set (vertices P)) \<and>
     (\<forall>v ts. tag_map P v = Some ts \<longrightarrow> distinct ts \<and> (\<forall>t\<in>set ts. t \<le> max_tag P)) \<and>
     0 \<le> max_tag P \<and>
     (initial_vertex P = NO_VERTEX B \<or> initial_vertex P \<in> set (vertices P)) \<and>
     quads_ok P (trace_pairs P) \<and> quads_ok P (progress_pairs P)"

definition proof_inv :: "'b bdd_pkg \<Rightarrow> 'b cxx_proof \<Rightarrow> bool" where
  "proof_inv B P \<longleftrightarrow> proof_numbering B P \<and> proof_maps B P"

text \<open>The trace graph that a \<^verbatim>\<open>Proof\<close> object stands for.\<close>

definition proof_graph :: "'b cxx_proof \<Rightarrow> ('b, tag) tgraph" where
  "proof_graph P =
     \<lparr>tg_edge = (\<lambda>v w. w \<in> set (at_key (trans_map P) v)),
      tg_valid = (\<lambda>v w. {(t, u). trace_pair P v w t u}),
      tg_prog = (\<lambda>v w. {(t, u). progress_pair P v w t u})\<rparr>"

section \<open>The minterm encoding\<close>

lemma prop_name_inj: "''p_'' @ show_nat i = ''p_'' @ show_nat j \<longleftrightarrow> i = j"
  by (simp add: show_nat_inj)

lemma GET_PROP_prop_var: "GET_PROP B (CHR ''p'' # CHR ''_'' # show_nat i) = bdd_ithvar B (prop_var B i)"
  by (simp add: GET_PROP_def prop_var_def)

context bdd_library
begin

lemma prop_var_inj: "prop_var B i = prop_var B j \<longleftrightarrow> i = j"
  by (simp add: prop_var_def show_nat_inj)

lemma vertex_loop_sat:
  "bdd_sat B (vertex_loop B (map (\<lambda>i. bdd_ithvar B (prop_var B i)) [j..<k]) l v) s \<longleftrightarrow>
     bdd_sat B v s \<and> (\<forall>i. j \<le> i \<and> i < k \<longrightarrow> s (prop_var B i) = bit l (i - j))"
proof (induction "k - j" arbitrary: j l v)
  case 0
  then show ?case by auto
next
  case (Suc n)
  then have jk: "j < k" and n: "n = k - Suc j" by auto
  have split: "(\<forall>i. j \<le> i \<and> i < k \<longrightarrow> s (prop_var B i) = bit l (i - j)) \<longleftrightarrow>
      s (prop_var B j) = odd l \<and>
      (\<forall>i. Suc j \<le> i \<and> i < k \<longrightarrow> s (prop_var B i) = bit (l div 2) (i - Suc j))" (is "?L = ?R")
  proof
    assume ?L
    then show ?R using jk by (auto simp: bit_0 Suc_diff_Suc simp flip: bit_Suc)
  next
    assume r: ?R
    show ?L
    proof (intro allI impI)
      fix i assume i: "j \<le> i \<and> i < k"
      show "s (prop_var B i) = bit l (i - j)"
      proof (cases "i = j")
        case True
        with r show ?thesis by (simp add: bit_0)
      next
        case False
        with i r show ?thesis by (auto simp: Suc_diff_Suc simp flip: bit_Suc)
      qed
    qed
  qed
  show ?case
    by (simp add: upt_conv_Cons [OF jk] Suc.hyps(1) [OF n] split odd_iff_mod_2_eq_one)
qed

lemma vertex_code_sat: "bdd_sat B (vertex_code B k l) s \<longleftrightarrow> (\<forall>i<k. s (prop_var B i) = bit l i)"
  using vertex_loop_sat [of 0 k l "bddtrue B" s] by (simp add: vertex_code_def)

text \<open>Every minterm has a valuation, the one that reads the bits of the number.\<close>

definition code_valuation :: "int \<Rightarrow> valuation" where
  "code_valuation l x = (\<exists>i. x = prop_var B i \<and> bit l i)"

lemma code_valuation_sat: "bdd_sat B (vertex_code B k l) (code_valuation l)"
  by (auto simp: vertex_code_sat code_valuation_def prop_var_inj)

lemma vertex_code_disjoint:
  assumes "bdd_sat B (vertex_code B k l) s" and "bdd_sat B (vertex_code B k l') s"
    and "0 \<le> l" "l < 2 ^ k" "0 \<le> l'" "l' < 2 ^ k"
  shows "l = l'"
proof -
  have "bit (take_bit k l) i = bit (take_bit k l') i" for i
    using assms(1,2) by (auto simp: vertex_code_sat bit_take_bit_iff)
  then have "take_bit k l = take_bit k l'" by (simp add: bit_eq_iff)
  with assms(3-) show ?thesis by (simp add: take_bit_int_eq_self)
qed

lemma vertex_code_inj:
  "vertex_code B k l = vertex_code B k l' \<Longrightarrow> 0 \<le> l \<Longrightarrow> l < 2 ^ k \<Longrightarrow> 0 \<le> l' \<Longrightarrow> l' < 2 ^ k \<Longrightarrow> l = l'"
  using vertex_code_disjoint code_valuation_sat by metis

lemma vertex_code_not_false: "vertex_code B k l \<noteq> bddfalse B"
  using code_valuation_sat sat_not_false by blast

end

section \<open>Methods keep the invariant\<close>

lemma touch_simps [simp]:
  "dom (touch d k m) = insert k (dom m)"
  "k \<in> dom m \<Longrightarrow> touch d k m = m"
  "m k = None \<Longrightarrow> touch d k m = m(k \<mapsto> d)"
  by (auto simp: touch_def split: option.splits)

lemma at_key_simps [simp]:
  "at_key (m(k \<mapsto> xs)) k' = (if k' = k then xs else at_key m k')"
  "m k = None \<Longrightarrow> at_key m k = []"
  "m k = Some xs \<Longrightarrow> at_key m k = xs"
  by (auto simp: at_key_def)

lemma at_key_touch [simp]: "at_key (touch [] k m) k' = at_key m k'"
  by (auto simp: touch_def at_key_def split: option.splits)

lemma proof_inv_new: "proof_inv B (Proof_new B k)"
  by (simp add: proof_inv_def proof_numbering_def proof_maps_def quads_ok_def Proof_new_def
      GET_PROP_prop_var)

lemma proof_invD:
  assumes "proof_inv B P"
  shows "dom (tag_map P) = set (vertices P)" "dom (trans_map P) = set (vertices P)"
    "dom (vertex_names P) = set (vertices P)"
    "quads_ok P (trace_pairs P)" "quads_ok P (progress_pairs P)"
    "distinct (vertices P)"
    "set (vertices P) = vertex_code B (max_vertices_log2 P) ` {1..last_vertex P}"
    "0 \<le> last_vertex P" "last_vertex P < 2 ^ max_vertices_log2 P"
  using assms by (auto simp: proof_inv_def proof_numbering_def proof_maps_def)

lemma proof_inv_successors:
  "proof_inv B P \<Longrightarrow> w \<in> set (at_key (trans_map P) v) \<Longrightarrow> v \<in> set (vertices P) \<and> w \<in> set (vertices P)"
  by (cases "trans_map P v") (force simp: proof_inv_def proof_maps_def)+

lemma get_successors_ok:
  "proof_inv B P \<Longrightarrow> v \<in> set (vertices P) \<Longrightarrow> get_successors P v = Inr (at_key (trans_map P) v)"
  using proof_invD(2) [of B P] by (auto simp: get_successors_def split: option.splits)

lemma get_tags_ok:
  "proof_inv B P \<Longrightarrow> v \<in> set (vertices P) \<Longrightarrow> get_tags_of_vertex P v = Inr (at_key (tag_map P) v)"
  using proof_invD(1) [of B P] by (auto simp: get_tags_of_vertex_def split: option.splits)

lemma check_pair_ok:
  assumes "proof_inv B P" and "check_pair P v1 v2 t1 t2 = Inr P'"
  shows "P' = P" "v1 \<in> set (vertices P)" "v2 \<in> set (vertices P)"
    "t1 \<in> set (at_key (tag_map P) v1)" "t2 \<in> set (at_key (tag_map P) v2)"
  using assms proof_invD(1) [of B P] by (auto simp: check_pair_def asserting_eq_Inr)

lemma proof_numbering_update:
  "proof_numbering B P \<Longrightarrow> max_vertices_log2 P' = max_vertices_log2 P \<Longrightarrow> last_vertex P' = last_vertex P \<Longrightarrow>
   propositions P' = propositions P \<Longrightarrow> vertices P' = vertices P \<Longrightarrow> vertex_names P' = vertex_names P \<Longrightarrow>
   proof_numbering B P'"
  by (simp add: proof_numbering_def)

lemma proof_inv_maps: "proof_inv B P \<Longrightarrow> proof_maps B P"
  by (simp add: proof_inv_def)

lemma quads_okI:
  "(\<And>v1 v2 t1 t2. (v1, v2, t1, t2) \<in> Q \<Longrightarrow> v1 \<in> set (vertices P) \<and> v2 \<in> set (vertices P) \<and>
     t1 \<in> set (at_key (tag_map P) v1) \<and> t2 \<in> set (at_key (tag_map P) v2)) \<Longrightarrow> quads_ok P Q"
  by (auto simp: quads_ok_def)

lemma quads_okD:
  "quads_ok P Q \<Longrightarrow> (v1, v2, t1, t2) \<in> Q \<Longrightarrow> v1 \<in> set (vertices P) \<and> v2 \<in> set (vertices P) \<and>
     t1 \<in> set (at_key (tag_map P) v1) \<and> t2 \<in> set (at_key (tag_map P) v2)"
  by (auto simp: quads_ok_def)

lemma quads_ok_mono:
  "quads_ok P Q \<Longrightarrow> set (vertices P) \<subseteq> set (vertices P') \<Longrightarrow>
   (\<And>v. v \<in> set (vertices P) \<Longrightarrow> set (at_key (tag_map P) v) \<subseteq> set (at_key (tag_map P') v)) \<Longrightarrow> quads_ok P' Q"
  by (rule quads_okI) (blast dest: quads_okD)

lemma tag_vertex_inv:
  assumes inv: "proof_inv B P" and op: "Proof_tag_vertex P v t = Inr P'"
  shows "proof_inv B P'"
proof -
  from op have v: "v \<in> set (vertices P)" and P': "P' = P\<lparr>max_tag := max (max_tag P) t,
      tag_map := (tag_map P)(v \<mapsto> List.insert t (at_key (tag_map P) v))\<rparr>"
    by (auto simp: Proof_tag_vertex_def asserting_eq_Inr)
  have q: "quads_ok P' Q" if "quads_ok P Q" for Q
    by (rule quads_ok_mono [OF that]) (auto simp: P')
  have old: "distinct ts \<and> (\<forall>u\<in>set ts. u \<le> max_tag P)" if "tag_map P w = Some ts" for w ts
    using inv that by (simp add: proof_inv_def proof_maps_def)
  have new: "distinct ts \<and> (\<forall>u\<in>set ts. u \<le> max_tag P')" if "tag_map P' w = Some ts" for w ts
    using that old [of w] by (cases "tag_map P w") (auto simp: P' le_max_iff_disj split: if_splits)
  have "proof_numbering B P'"
    by (rule proof_numbering_update [of B P]) (use inv in \<open>simp_all add: P' proof_inv_def\<close>)
  moreover have "proof_maps B P'"
    using proof_inv_maps [OF inv] v q new unfolding proof_maps_def
    by (simp add: P' insert_absorb le_max_iff_disj)
  ultimately show ?thesis by (simp add: proof_inv_def)
qed

lemma set_initial_vertex_inv:
  assumes inv: "proof_inv B P" and op: "Proof_set_initial_vertex P v = Inr P'"
  shows "proof_inv B P'"
proof -
  from op have v: "v \<in> set (vertices P)" and P': "P' = P\<lparr>initial_vertex := v\<rparr>"
    by (auto simp: Proof_set_initial_vertex_def asserting_eq_Inr)
  have "proof_numbering B P'"
    by (rule proof_numbering_update [of B P]) (use inv in \<open>simp_all add: P' proof_inv_def\<close>)
  moreover have "proof_maps B P'"
    using proof_inv_maps [OF inv] v unfolding proof_maps_def by (simp add: P' quads_ok_def)
  ultimately show ?thesis by (simp add: proof_inv_def)
qed

lemma set_successor_inv:
  assumes inv: "proof_inv B P" and op: "Proof_set_successor P v1 v2 = Inr P'"
  shows "proof_inv B P'"
proof -
  from op have v: "v1 \<in> set (vertices P)" "v2 \<in> set (vertices P)"
    and P': "P' = P\<lparr>trans_map := (trans_map P)(v1 \<mapsto> List.insert v2 (at_key (trans_map P) v1))\<rparr>"
    by (auto simp: Proof_set_successor_def asserting_eq_Inr)
  have q: "quads_ok P' Q" if "quads_ok P Q" for Q
    by (rule quads_ok_mono [OF that]) (auto simp: P')
  have old: "distinct ws \<and> set ws \<subseteq> set (vertices P)" if "trans_map P w = Some ws" for w ws
    using inv that by (simp add: proof_inv_def proof_maps_def)
  have new: "distinct ws \<and> set ws \<subseteq> set (vertices P)" if "trans_map P' w = Some ws" for w ws
    using that old [of w] v(2) by (cases "trans_map P w") (auto simp: P' split: if_splits)
  have "proof_numbering B P'"
    by (rule proof_numbering_update [of B P]) (use inv in \<open>simp_all add: P' proof_inv_def\<close>)
  moreover have "proof_maps B P'"
    using proof_inv_maps [OF inv] v q new unfolding proof_maps_def
    by (simp add: P' insert_absorb le_max_iff_disj)
  ultimately show ?thesis by (simp add: proof_inv_def)
qed

lemma pairs_inv:
  assumes inv: "proof_inv B P" and op: "check_pair P v1 v2 t1 t2 = Inr P1"
  shows "proof_inv B (P1\<lparr>trace_pairs := insert (v1, v2, t1, t2) (trace_pairs P1)\<rparr>)"
    and "proof_inv B (P1\<lparr>progress_pairs := insert (v1, v2, t1, t2) (progress_pairs P1)\<rparr>)"
proof -
  note ok = check_pair_ok [OF inv op]
  have num: "proof_numbering B (P1\<lparr>trace_pairs := X\<rparr>)" "proof_numbering B (P1\<lparr>progress_pairs := X\<rparr>)" for X
    by (rule proof_numbering_update [of B P]; use inv ok(1) in \<open>simp add: proof_inv_def\<close>)+
  show "proof_inv B (P1\<lparr>trace_pairs := insert (v1, v2, t1, t2) (trace_pairs P1)\<rparr>)"
    using proof_inv_maps [OF inv] ok num(1)
    unfolding proof_inv_def proof_maps_def by (simp add: quads_ok_def)
  show "proof_inv B (P1\<lparr>progress_pairs := insert (v1, v2, t1, t2) (progress_pairs P1)\<rparr>)"
    using proof_inv_maps [OF inv] ok num(2)
    unfolding proof_inv_def proof_maps_def by (simp add: quads_ok_def)
qed

lemma set_trace_pair_inv:
  "proof_inv B P \<Longrightarrow> Proof_set_trace_pair P v1 v2 t1 t2 = Inr P' \<Longrightarrow> proof_inv B P'"
  by (auto simp: Proof_set_trace_pair_def bindE_eq_Inr dest: pairs_inv)

lemma set_progress_pair_inv:
  "proof_inv B P \<Longrightarrow> Proof_set_progress_pair P v1 v2 t1 t2 = Inr P' \<Longrightarrow> proof_inv B P'"
  by (auto simp: Proof_set_progress_pair_def bindE_eq_Inr dest: pairs_inv)

text \<open>
  \<^verbatim>\<open>create_vertex\<close> succeeds exactly while a number below \<open>2 ^ max_vertices_log2\<close> is left;
  it returns a new vertex, which is not \<^verbatim>\<open>NO_VERTEX\<close>, without tags and successors.
\<close>

context bdd_library
begin

lemma create_vertex_succeeds_iff:
  assumes inv: "proof_inv B P" and small: "max_vertices_log2 P < 32"
  shows "returns (Proof_create_vertex B P) \<longleftrightarrow>
    last_vertex P + 1 < 2 ^ max_vertices_log2 P \<and> last_vertex P \<noteq> INT_MAX"
  using small proof_invD(8) [OF inv]
  by (auto simp: Proof_create_vertex_def asserting_def drop_bit_eq_div returns_def Let_def
      div_pos_pos_trivial zdiv_eq_0_iff)

lemma create_vertex_eq_Inr:
  "Proof_create_vertex B P = Inr (v, P') \<longleftrightarrow>
     last_vertex P \<noteq> INT_MAX \<and> max_vertices_log2 P < 32 \<and>
     drop_bit (max_vertices_log2 P) (last_vertex P + 1) = 0 \<and>
     v = vertex_loop B (take (max_vertices_log2 P) (propositions P)) (last_vertex P + 1) (bddtrue B) \<and>
     P' = install_vertex P (last_vertex P + 1) v"
  by (auto simp: Proof_create_vertex_def Let_def asserting_eq_Inr)

lemma create_vertex_fresh:
  assumes inv: "proof_inv B P" and cv: "Proof_create_vertex B P = Inr (v, P')"
  shows "v = vertex_code B (max_vertices_log2 P) (last_vertex P + 1)"
    and "last_vertex P + 1 < 2 ^ max_vertices_log2 P"
    and "v \<notin> set (vertices P)" and "v \<noteq> NO_VERTEX B"
    and "P' = install_vertex P (last_vertex P + 1) v"
proof -
  note cv = cv [unfolded create_vertex_eq_Inr]
  have "take (max_vertices_log2 P) (propositions P) =
      map (\<lambda>i. bdd_ithvar B (prop_var B i)) [0..<max_vertices_log2 P]"
    using inv by (simp add: proof_inv_def proof_numbering_def)
  with cv show v: "v = vertex_code B (max_vertices_log2 P) (last_vertex P + 1)"
    by (simp add: vertex_code_def)
  have "(last_vertex P + 1) div 2 ^ max_vertices_log2 P = 0"
    using cv by (simp add: drop_bit_eq_div)
  with proof_invD(8) [OF inv] show lt: "last_vertex P + 1 < 2 ^ max_vertices_log2 P"
    by (auto simp: zdiv_eq_0_iff)
  show "v \<notin> set (vertices P)"
  proof
    assume "v \<in> set (vertices P)"
    then obtain l where l: "1 \<le> l" "l \<le> last_vertex P"
      and eq: "vertex_code B (max_vertices_log2 P) l = vertex_code B (max_vertices_log2 P) (last_vertex P + 1)"
      unfolding proof_invD(7) [OF inv] v by auto
    have "l = last_vertex P + 1"
      by (rule vertex_code_inj [OF eq]) (use l lt proof_invD(8,9) [OF inv] in linarith)+
    with l show False by simp
  qed
  show "v \<noteq> NO_VERTEX B" unfolding v NO_VERTEX_def by (rule vertex_code_not_false)
  show "P' = install_vertex P (last_vertex P + 1) v" using cv by simp
qed

lemma install_fresh:
  assumes inv: "proof_inv B P" and "v \<notin> set (vertices P)"
  shows "install_vertex P lv v =
     P\<lparr>last_vertex := lv, vertices := v # vertices P, tag_map := (tag_map P)(v \<mapsto> []),
       trans_map := (trans_map P)(v \<mapsto> []), vertex_names := (vertex_names P)(v \<mapsto> show_int lv)\<rparr>"
proof -
  have "tag_map P v = None" "trans_map P v = None"
    using assms(2) proof_invD(1,2) [OF inv] by auto
  with assms(2) show ?thesis by (simp add: install_vertex_def)
qed

lemma create_vertex_inv:
  assumes inv: "proof_inv B P" and cv: "Proof_create_vertex B P = Inr (v, P')"
  shows "proof_inv B P'"
proof -
  note fresh = create_vertex_fresh [OF inv cv]
  have P': "P' = P\<lparr>last_vertex := last_vertex P + 1, vertices := v # vertices P,
      tag_map := (tag_map P)(v \<mapsto> []), trans_map := (trans_map P)(v \<mapsto> []),
      vertex_names := (vertex_names P)(v \<mapsto> show_int (last_vertex P + 1))\<rparr>"
    unfolding fresh(5) by (rule install_fresh [OF inv fresh(3)])
  have range: "{1..last_vertex P + 1} = insert (last_vertex P + 1) {1..last_vertex P}"
    using proof_invD(8) [OF inv] by auto
  have other: "vertex_code B (max_vertices_log2 P) l \<noteq> v" if "l \<in> {1..last_vertex P}" for l
    using fresh(3) proof_invD(7) [OF inv] that by auto
  have "proof_numbering B P'"
    using inv fresh(2,3) other unfolding proof_inv_def proof_numbering_def P'
    by (simp add: range fresh(1) [symmetric])
  moreover have "quads_ok P' Q" if "quads_ok P Q" for Q
    by (rule quads_ok_mono [OF that]) (use fresh(3) in \<open>auto simp: P'\<close>)
  then have "proof_maps B P'"
    using proof_inv_maps [OF inv] fresh(3) unfolding proof_maps_def
    by (simp add: P') (metis subset_insertI2)
  ultimately show ?thesis by (simp add: proof_inv_def)
qed

end

section \<open>Reachable objects\<close>

text \<open>One successful call of a method that changes the object.\<close>

inductive proof_step :: "'b bdd_pkg \<Rightarrow> 'b cxx_proof \<Rightarrow> 'b cxx_proof \<Rightarrow> bool" for B where
  step_create_vertex: "Proof_create_vertex B P = Inr (v, P') \<Longrightarrow> proof_step B P P'"
| step_tag_vertex: "Proof_tag_vertex P v t = Inr P' \<Longrightarrow> proof_step B P P'"
| step_set_initial_vertex: "Proof_set_initial_vertex P v = Inr P' \<Longrightarrow> proof_step B P P'"
| step_set_successor: "Proof_set_successor P v1 v2 = Inr P' \<Longrightarrow> proof_step B P P'"
| step_set_trace_pair: "Proof_set_trace_pair P v1 v2 t1 t2 = Inr P' \<Longrightarrow> proof_step B P P'"
| step_set_progress_pair: "Proof_set_progress_pair P v1 v2 t1 t2 = Inr P' \<Longrightarrow> proof_step B P P'"

definition proof_reachable :: "'b bdd_pkg \<Rightarrow> nat \<Rightarrow> 'b cxx_proof \<Rightarrow> bool" where
  "proof_reachable B k P \<longleftrightarrow> (proof_step B)\<^sup>*\<^sup>* (Proof_new B k) P"

lemmas method_defs = Proof_tag_vertex_def Proof_set_initial_vertex_def Proof_set_successor_def
  Proof_set_trace_pair_def Proof_set_progress_pair_def check_pair_def install_vertex_def

text \<open>No method forgets a vertex, an edge, a tag or a pair, or resizes the object.\<close>

definition proof_extends :: "'b cxx_proof \<Rightarrow> 'b cxx_proof \<Rightarrow> bool" where
  "proof_extends P P' \<longleftrightarrow> max_vertices_log2 P' = max_vertices_log2 P \<and>
     set (vertices P) \<subseteq> set (vertices P') \<and>
     (\<forall>v. set (at_key (trans_map P) v) \<subseteq> set (at_key (trans_map P') v)) \<and>
     (\<forall>v. set (at_key (tag_map P) v) \<subseteq> set (at_key (tag_map P') v)) \<and>
     trace_pairs P \<subseteq> trace_pairs P' \<and> progress_pairs P \<subseteq> progress_pairs P'"

lemma proof_extends_trans: "proof_extends P P' \<Longrightarrow> proof_extends P' P'' \<Longrightarrow> proof_extends P P''"
  by (force simp: proof_extends_def)

context bdd_library
begin

lemma proof_step_extends: "proof_step B P P' \<Longrightarrow> proof_extends P P'"
  by (induction rule: proof_step.induct)
    (auto simp: create_vertex_eq_Inr method_defs proof_extends_def result_cases)

lemma proof_step_inv: "proof_step B P P' \<Longrightarrow> proof_inv B P \<Longrightarrow> proof_inv B P'"
  by (induction rule: proof_step.induct)
    (blast intro: create_vertex_inv tag_vertex_inv set_initial_vertex_inv set_successor_inv
      set_trace_pair_inv set_progress_pair_inv)+

lemma proof_reachable_inv: "proof_reachable B k P \<Longrightarrow> proof_inv B P"
  unfolding proof_reachable_def
  by (induction rule: rtranclp_induct) (auto intro: proof_inv_new proof_step_inv)

lemma proof_steps_extend: "(proof_step B)\<^sup>*\<^sup>* P P' \<Longrightarrow> proof_extends P P'"
  by (induction rule: rtranclp_induct)
    (auto intro: proof_extends_trans proof_step_extends simp: proof_extends_def [of P P])

end

end
