(* ===== verification/Spot_Twa.thy ===== *)
theory Spot_Twa
  imports Proof_Graph "HOL-Library.While_Combinator"
begin

text \<open>
  Spot's interface to on-the-fly automata, as the two automata of the checker implement it
  and as \<^verbatim>\<open>check_soundness\<close> uses it: states, successor iterators, the language of an
  automaton, the ordering contract of \<^verbatim>\<open>spot::state\<close>, and the library functions
  \<^verbatim>\<open>make_twa_graph\<close> and \<^verbatim>\<open>contains\<close>, which are parameters with their documented laws.
\<close>

section \<open>States, edges and automata\<close>

text \<open>
  The three subclasses of \<^verbatim>\<open>spot::state\<close> in the sources; a \<^verbatim>\<open>dynamic_cast\<close> is a case
  distinction on the constructor.
\<close>

datatype 'b spot_state =
    TraceState 'b tag
  | ProofState 'b "tag list"
  | ProofGhostState

text \<open>A mark is the set of acceptance sets an edge belongs to; \<^verbatim>\<open>set_buchi()\<close> declares one.\<close>

type_synonym mark = "nat set"
type_synonym 'b edge = "'b \<times> mark \<times> 'b spot_state"

definition set_buchi :: mark where
  "set_buchi = {0}"

record 'b twa =
  twa_init :: "'b spot_state"
  twa_succ :: "'b spot_state \<Rightarrow> 'b edge list result"

inductive twa_reachable :: "'b twa \<Rightarrow> 'b spot_state \<Rightarrow> bool" for A where
  twa_reachable_init: "twa_reachable A (twa_init A)"
| twa_reachable_step:
    "twa_reachable A s \<Longrightarrow> twa_succ A s = Inr es \<Longrightarrow> (c, m, s') \<in> set es \<Longrightarrow> twa_reachable A s'"

text \<open>An automaton is safe if exploring it never fails, and finite if it has finitely many states.\<close>

definition twa_safe :: "'b twa \<Rightarrow> bool" where
  "twa_safe A \<longleftrightarrow> (\<forall>s. twa_reachable A s \<longrightarrow> returns (twa_succ A s))"

definition twa_finite :: "'b twa \<Rightarrow> bool" where
  "twa_finite A \<longleftrightarrow> finite {s. twa_reachable A s}"

text \<open>
  Transition-based Buchi acceptance: an infinite word of valuations is accepted if some run
  reads it and takes edges with the mark \<open>0\<close> infinitely often.
\<close>

definition twa_run ::
  "'b bdd_pkg \<Rightarrow> 'b twa \<Rightarrow> (nat \<Rightarrow> valuation) \<Rightarrow> (nat \<Rightarrow> 'b spot_state) \<Rightarrow> (nat \<Rightarrow> 'b \<times> mark) \<Rightarrow> bool" where
  "twa_run B A w r l \<longleftrightarrow> r 0 = twa_init A \<and>
     (\<forall>i. \<exists>es. twa_succ A (r i) = Inr es \<and> (fst (l i), snd (l i), r (Suc i)) \<in> set es \<and>
        bdd_sat B (fst (l i)) (w i))"

definition twa_lang :: "'b bdd_pkg \<Rightarrow> 'b twa \<Rightarrow> (nat \<Rightarrow> valuation) set" where
  "twa_lang B A = {w. \<exists>r l. twa_run B A w r l \<and> (\<forall>m. \<exists>i\<ge>m. 0 \<in> snd (l i))}"

section \<open>Successor iterators\<close>

text \<open>
  How a client uses a \<^verbatim>\<open>twa_succ_iterator\<close> after \<^verbatim>\<open>first()\<close>: until \<^verbatim>\<open>done()\<close>, read the
  current edge and call \<^verbatim>\<open>next()\<close>. \<open>None\<close> stands for an iteration that never ends.
\<close>

definition drain :: "('i \<Rightarrow> bool) \<Rightarrow> ('i \<Rightarrow> 'i) \<Rightarrow> ('i \<Rightarrow> 'e) \<Rightarrow> 'i \<Rightarrow> 'e list option" where
  "drain dn nx cur it =
     map_option snd (while_option (\<lambda>(it, out). \<not> dn it) (\<lambda>(it, out). (nx it, out @ [cur it])) (it, []))"

definition collect_edges :: "'e result list option \<Rightarrow> 'e list result" where
  "collect_edges r = (case r of None \<Rightarrow> Inl Diverges | Some xs \<Rightarrow> mapE (\<lambda>x. x) xs)"

text \<open>
  The contract of an iterator: the edges still to come are a list that \<^verbatim>\<open>next()\<close> shortens
  by the current one.
\<close>

locale succ_iterator =
  fixes dn :: "'i \<Rightarrow> bool" and nx :: "'i \<Rightarrow> 'i" and cur :: "'i \<Rightarrow> 'e" and items :: "'i \<Rightarrow> 'e list"
  assumes done_items: "dn it \<longleftrightarrow> items it = []"
    and next_items: "\<not> dn it \<Longrightarrow> items it = cur it # items (nx it)"
begin

lemma loop_items:
  "while_option (\<lambda>(it, out). \<not> dn it) (\<lambda>(it, out). (nx it, out @ [cur it])) (it, out) \<noteq> None \<and>
   map_option snd (while_option (\<lambda>(it, out). \<not> dn it) (\<lambda>(it, out). (nx it, out @ [cur it])) (it, out)) =
     Some (out @ items it)"
proof (induction "items it" arbitrary: it out)
  case Nil
  then show ?case by (subst (1 2) while_option_unfold) (simp add: done_items)
next
  case (Cons x xs)
  then have nd: "\<not> dn it" by (auto simp: done_items)
  with Cons.hyps(2) next_items [of it] have xs: "xs = items (nx it)" and x: "x = cur it" by auto
  from Cons.hyps(1) [OF xs, of "out @ [cur it]"] nd Cons.hyps(2) x xs show ?case
    by (subst (1 2) while_option_unfold) simp
qed

lemma drain_items: "drain dn nx cur it = Some (items it)"
  using loop_items [of it "[]"] by (simp add: drain_def)

end

section \<open>The contract of \<^verbatim>\<open>compare\<close> and \<^verbatim>\<open>hash\<close>\<close>

text \<open>
  Spot stores states in hash tables keyed by \<^verbatim>\<open>hash()\<close> and resolved by \<^verbatim>\<open>compare()\<close>: on the
  states of an automaton, \<^verbatim>\<open>compare()\<close> has to be a total order whose zero is equality, and
  equal states have to have equal hashes.
\<close>

locale state_order =
  fixes carrier :: "'s set" and cmp :: "'s \<Rightarrow> 's \<Rightarrow> int result" and hash :: "'s \<Rightarrow> 'h"
  assumes cmp_total: "s \<in> carrier \<Longrightarrow> t \<in> carrier \<Longrightarrow> returns (cmp s t)"
    and cmp_eq: "s \<in> carrier \<Longrightarrow> t \<in> carrier \<Longrightarrow> cmp s t = Inr 0 \<longleftrightarrow> s = t"
    and cmp_antisym: "s \<in> carrier \<Longrightarrow> t \<in> carrier \<Longrightarrow> cmp s t = Inr x \<Longrightarrow> cmp t s = Inr (- x)"
    and cmp_trans: "s \<in> carrier \<Longrightarrow> t \<in> carrier \<Longrightarrow> u \<in> carrier \<Longrightarrow>
      cmp s t = Inr (- 1) \<Longrightarrow> cmp t u = Inr (- 1) \<Longrightarrow> cmp s u = Inr (- 1)"
    and cmp_range: "s \<in> carrier \<Longrightarrow> t \<in> carrier \<Longrightarrow> cmp s t = Inr x \<Longrightarrow> x \<in> {- 1, 0, 1}"
    and hash_cmp: "s \<in> carrier \<Longrightarrow> t \<in> carrier \<Longrightarrow> cmp s t = Inr 0 \<Longrightarrow> hash s = hash t"
begin

lemma cmp_trichotomy:
  assumes "s \<in> carrier" "t \<in> carrier"
  obtains (less) "cmp s t = Inr (- 1)" "cmp t s = Inr 1"
  | (equal) "s = t"
  | (greater) "cmp s t = Inr 1" "cmp t s = Inr (- 1)"
  using cmp_total [OF assms] cmp_range [OF assms] cmp_antisym [OF assms] cmp_eq [OF assms]
  by (fastforce simp: returns_def)

end

section \<open>The library functions of \<^verbatim>\<open>check_soundness\<close>\<close>

text \<open>
  \<^verbatim>\<open>make_twa_graph\<close> copies an on-the-fly automaton into an explicit graph by exploring its
  reachable states; \<^verbatim>\<open>contains(l, r)\<close> decides whether the language of \<open>r\<close> is included in
  that of \<open>l\<close>.
\<close>

record ('b, 'g) spot_pkg =
  make_twa_graph :: "'b twa \<Rightarrow> 'g result"
  graph_contains :: "'g \<Rightarrow> 'g \<Rightarrow> bool"
  graph_lang :: "'g \<Rightarrow> (nat \<Rightarrow> valuation) set"

locale spot_library = bdd_library B for B :: "'b bdd_pkg" +
  fixes S :: "('b, 'g) spot_pkg"
  assumes copy_lang:
      "twa_safe A \<Longrightarrow> twa_finite A \<Longrightarrow> \<exists>g. make_twa_graph S A = Inr g \<and> graph_lang S g = twa_lang B A"
    and contains_lang: "graph_contains S g h \<longleftrightarrow> graph_lang S h \<subseteq> graph_lang S g"
begin

lemma contains_copies:
  assumes "twa_safe A" "twa_finite A" "twa_safe A'" "twa_finite A'"
  shows "\<exists>g h. make_twa_graph S A = Inr g \<and> make_twa_graph S A' = Inr h \<and>
    graph_contains S g h = (twa_lang B A' \<subseteq> twa_lang B A)"
  using copy_lang [OF assms(1,2)] copy_lang [OF assms(3,4)] contains_lang by metis

end

text \<open>
  A library that satisfies the laws: graphs are the automata themselves and containment is
  decided by the inclusion of their languages over decision-tree BDDs.
\<close>

definition exact_spot :: "(bdt, bdt twa) spot_pkg" where
  "exact_spot = \<lparr>make_twa_graph = Inr,
     graph_contains = (\<lambda>g h. twa_lang robdd_pkg h \<subseteq> twa_lang robdd_pkg g),
     graph_lang = twa_lang robdd_pkg\<rparr>"

interpretation exact: spot_library robdd_pkg exact_spot
  by unfold_locales (auto simp: exact_spot_def)

section \<open>Safety by invariant\<close>

lemma twa_safe_by_invariant:
  assumes "twa_init A \<in> X" and "\<And>s. s \<in> X \<Longrightarrow> \<exists>es. twa_succ A s = Inr es \<and> (\<forall>(c, m, s') \<in> set es. s' \<in> X)"
  shows "twa_safe A" and "{s. twa_reachable A s} \<subseteq> X"
proof -
  have X: "s \<in> X" if "twa_reachable A s" for s
    using that
  proof induction
    case (twa_reachable_step s es c m s')
    with assms(2) [of s] show ?case by auto
  qed (rule assms(1))
  then show "{s. twa_reachable A s} \<subseteq> X" by blast
  from X assms(2) show "twa_safe A" unfolding twa_safe_def returns_def by blast
qed

end
