(* ===== verification/Proof_Aut.thy ===== *)
theory Proof_Aut
  imports Spot_Twa
begin

text \<open>
  The proof automaton (proof_aut.hpp, proof_aut.c): from a ghost initial state it reads the
  initial vertex and then follows the successors of the proof graph; every edge is
  accepting, so its words are the infinite paths of the proof.
\<close>

section \<open>States\<close>

text \<open>\<^verbatim>\<open>assert(ps)\<close> and \<^verbatim>\<open>assert(gs)\<close> fail on a state of a foreign class.\<close>

definition ProofState_compare :: "'b bdd_pkg \<Rightarrow> 'b \<Rightarrow> 'b spot_state \<Rightarrow> int result" where
  "ProofState_compare B v other =
     (case other of
        ProofGhostState \<Rightarrow> Inr 1
      | ProofState w _ \<Rightarrow>
          Inr (if bdd_id B v < bdd_id B w then - 1 else if bdd_id B v > bdd_id B w then 1 else 0)
      | _ \<Rightarrow> Inl (Assert_failure ''ps''))"

definition ProofGhostState_compare :: "'b spot_state \<Rightarrow> int result" where
  "ProofGhostState_compare other =
     (case other of
        ProofState _ _ \<Rightarrow> Inr (- 1)
      | ProofGhostState \<Rightarrow> Inr 0
      | _ \<Rightarrow> Inl (Assert_failure ''gs''))"

text \<open>The virtual calls \<^verbatim>\<open>s->compare(other)\<close> and \<^verbatim>\<open>s->hash()\<close> on the states of this automaton.\<close>

definition proof_state_compare :: "'b bdd_pkg \<Rightarrow> 'b spot_state \<Rightarrow> 'b spot_state \<Rightarrow> int result" where
  "proof_state_compare B s other =
     (case s of
        ProofState v _ \<Rightarrow> ProofState_compare B v other
      | ProofGhostState \<Rightarrow> ProofGhostState_compare other
      | TraceState _ _ \<Rightarrow> Inl (Undefined_behaviour ''not a state of the proof automaton''))"

definition proof_state_hash :: "'b bdd_pkg \<Rightarrow> 'b spot_state \<Rightarrow> int" where
  "proof_state_hash B s = (case s of ProofState v _ \<Rightarrow> bdd_id B v | _ \<Rightarrow> 0)"

definition proof_state_clone :: "'b spot_state \<Rightarrow> 'b spot_state" where
  "proof_state_clone s = (case s of ProofState v ts \<Rightarrow> ProofState v ts | _ \<Rightarrow> ProofGhostState)"

section \<open>Iterators\<close>

text \<open>The automaton inherits from \<^verbatim>\<open>Proof\<close>; \<^verbatim>\<open>proof.acc().all_sets()\<close> are the sets of \<^verbatim>\<open>set_buchi()\<close>.\<close>

definition acc_all_sets :: mark where
  "acc_all_sets = set_buchi"

record ghost_iterator =
  finished :: bool

definition ghost_first :: "ghost_iterator \<Rightarrow> ghost_iterator" where
  "ghost_first it = it\<lparr>finished := False\<rparr>"

definition ghost_next :: "ghost_iterator \<Rightarrow> ghost_iterator" where
  "ghost_next it = it\<lparr>finished := True\<rparr>"

definition ghost_done :: "ghost_iterator \<Rightarrow> bool" where
  "ghost_done it = finished it"

definition ghost_dst :: "'b cxx_proof \<Rightarrow> 'b spot_state result" where
  "ghost_dst P =
     (let v = initial_vertex P in bindE (get_tags_of_vertex P v) (\<lambda>ts. Inr (ProofState v ts)))"

definition ghost_cond :: "'b cxx_proof \<Rightarrow> 'b" where
  "ghost_cond P = initial_vertex P"

definition ghost_acc :: mark where
  "ghost_acc = acc_all_sets"

text \<open>
  \<open>pi_rest\<close> is the part of the successor set from the iterator to its end; the set itself
  is that of \<^verbatim>\<open>vertex\<close> and does not change during the iteration.
\<close>

record 'b proof_iterator =
  pi_vertex :: 'b
  pi_rest :: "'b list"

definition proof_first :: "'b cxx_proof \<Rightarrow> 'b proof_iterator \<Rightarrow> 'b proof_iterator result" where
  "proof_first P it = bindE (get_successors P (pi_vertex it)) (\<lambda>vs. Inr (it\<lparr>pi_rest := vs\<rparr>))"

definition proof_next :: "'b proof_iterator \<Rightarrow> 'b proof_iterator" where
  "proof_next it = it\<lparr>pi_rest := tl (pi_rest it)\<rparr>"

definition proof_done :: "'b proof_iterator \<Rightarrow> bool" where
  "proof_done it \<longleftrightarrow> pi_rest it = []"

definition proof_dst :: "'b cxx_proof \<Rightarrow> 'b proof_iterator \<Rightarrow> 'b spot_state result" where
  "proof_dst P it =
     (let v = hd (pi_rest it) in bindE (get_tags_of_vertex P v) (\<lambda>ts. Inr (ProofState v ts)))"

definition proof_cond :: "'b proof_iterator \<Rightarrow> 'b" where
  "proof_cond it = hd (pi_rest it)"

definition proof_acc :: mark where
  "proof_acc = acc_all_sets"

section \<open>The automaton\<close>

definition ghost_edge :: "'b cxx_proof \<Rightarrow> ghost_iterator \<Rightarrow> 'b edge result" where
  "ghost_edge P it = bindE (ghost_dst P) (\<lambda>s. Inr (ghost_cond P, ghost_acc, s))"

definition proof_edge :: "'b cxx_proof \<Rightarrow> 'b proof_iterator \<Rightarrow> 'b edge result" where
  "proof_edge P it = bindE (proof_dst P it) (\<lambda>s. Inr (proof_cond it, proof_acc, s))"

text \<open>\<^verbatim>\<open>succ_iter\<close> picks the iterator by the class of the state; the client then runs it.\<close>

definition ProofAutomaton_succ :: "'b cxx_proof \<Rightarrow> 'b spot_state \<Rightarrow> 'b edge list result" where
  "ProofAutomaton_succ P s =
     (case s of
        ProofState v _ \<Rightarrow>
          bindE (proof_first P \<lparr>pi_vertex = v, pi_rest = []\<rparr>)
            (\<lambda>it. collect_edges (drain proof_done proof_next (proof_edge P) it))
      | ProofGhostState \<Rightarrow>
          collect_edges (drain ghost_done ghost_next (ghost_edge P) (ghost_first \<lparr>finished = False\<rparr>))
      | TraceState _ _ \<Rightarrow> Inl (Assert_failure ''gs''))"

definition ProofAutomaton :: "'b cxx_proof \<Rightarrow> 'b twa" where
  "ProofAutomaton P = \<lparr>twa_init = ProofGhostState, twa_succ = ProofAutomaton_succ P\<rparr>"

fun join_tags :: "tag list \<Rightarrow> string" where
  "join_tags [] = ''''"
| "join_tags [t] = ''t_'' @ show_int t"
| "join_tags (t # ts) = ''t_'' @ show_int t @ '','' @ join_tags ts"

definition ProofAutomaton_format_state :: "'b cxx_proof \<Rightarrow> 'b spot_state \<Rightarrow> string result" where
  "ProofAutomaton_format_state P s =
     (case s of
        ProofGhostState \<Rightarrow> Inr ''''
      | ProofState v ts \<Rightarrow>
          bindE (get_vertex_name P v) (\<lambda>n. Inr (''S'' @ n @ '' '' @ join_tags ts))
      | TraceState _ _ \<Rightarrow> Inl (Assert_failure ''ps''))"

text \<open>The states the automaton has: the ghost and one state per vertex, with its tags.\<close>

definition proof_states :: "'b cxx_proof \<Rightarrow> 'b spot_state set" where
  "proof_states P = insert ProofGhostState {ProofState v (at_key (tag_map P) v) |v. v \<in> set (vertices P)}"

section \<open>The contracts\<close>

interpretation ghost_iter: succ_iterator ghost_done ghost_next "ghost_edge P"
    "\<lambda>it. if finished it then [] else [ghost_edge P it]" for P
  by unfold_locales (auto simp: ghost_done_def ghost_next_def)

interpretation proof_iter: succ_iterator proof_done proof_next "proof_edge P"
    "\<lambda>it. map (\<lambda>v. proof_edge P \<lparr>pi_vertex = pi_vertex it, pi_rest = [v]\<rparr>) (pi_rest it)" for P
proof (unfold_locales, goal_cases)
  case (2 it)
  then obtain v vs where "pi_rest it = v # vs" by (cases "pi_rest it") (auto simp: proof_done_def)
  then show ?case by (simp add: proof_next_def proof_edge_def proof_dst_def proof_cond_def)
qed (simp add: proof_done_def)

context bdd_library
begin

lemma proof_state_order: "state_order (proof_states P) (proof_state_compare B) (proof_state_hash B)"
  by unfold_locales
    (auto simp: proof_states_def proof_state_compare_def ProofState_compare_def
      ProofGhostState_compare_def split: if_splits dest: id_less_total)

end

interpretation robdd_proof_states:
  state_order "proof_states P" "proof_state_compare robdd_pkg" "proof_state_hash robdd_pkg" for P
  by (rule robdd.proof_state_order)

section \<open>Edges of the automaton\<close>

lemma ghost_succ:
  "ProofAutomaton_succ P ProofGhostState =
     bindE (get_tags_of_vertex P (initial_vertex P))
       (\<lambda>ts. Inr [(initial_vertex P, {0}, ProofState (initial_vertex P) ts)])"
  by (cases "get_tags_of_vertex P (initial_vertex P)")
    (simp_all add: ProofAutomaton_succ_def ghost_iter.drain_items ghost_first_def collect_edges_def
      ghost_edge_def ghost_dst_def ghost_cond_def ghost_acc_def acc_all_sets_def set_buchi_def)

lemma proof_succ:
  assumes inv: "proof_inv B P" and v: "v \<in> set (vertices P)"
  shows "ProofAutomaton_succ P (ProofState v ts) =
    Inr (map (\<lambda>w. (w, {0}, ProofState w (at_key (tag_map P) w))) (at_key (trans_map P) v))"
proof -
  have edge: "proof_edge P \<lparr>pi_vertex = v, pi_rest = [w]\<rparr> = Inr (w, {0}, ProofState w (at_key (tag_map P) w))"
    if "w \<in> set (at_key (trans_map P) v)" for w
    using get_tags_ok [OF inv] proof_inv_successors [OF inv that]
    by (simp add: proof_edge_def proof_dst_def proof_cond_def proof_acc_def acc_all_sets_def set_buchi_def)
  show ?thesis
    by (simp add: ProofAutomaton_succ_def proof_first_def get_successors_ok [OF inv v]
        proof_iter.drain_items collect_edges_def)
      (rule mapE_map_Inr, rule edge)
qed

text \<open>Exploring the automaton of a well-formed proof with an initial vertex never fails.\<close>

lemma proof_automaton_states:
  assumes inv: "proof_inv B P" and init: "initial_vertex P \<in> set (vertices P)"
  shows "twa_safe (ProofAutomaton P)" "{s. twa_reachable (ProofAutomaton P) s} \<subseteq> proof_states P"
proof -
  have closed: "\<exists>es. twa_succ (ProofAutomaton P) s = Inr es \<and> (\<forall>(c, m, s') \<in> set es. s' \<in> proof_states P)"
    if "s \<in> proof_states P" for s
    using that init get_tags_ok [OF inv init] proof_succ [OF inv] proof_inv_successors [OF inv]
    by (auto simp: proof_states_def ProofAutomaton_def ghost_succ)
  have start: "twa_init (ProofAutomaton P) \<in> proof_states P"
    by (simp add: ProofAutomaton_def proof_states_def)
  show "twa_safe (ProofAutomaton P)" "{s. twa_reachable (ProofAutomaton P) s} \<subseteq> proof_states P"
    using twa_safe_by_invariant [OF start closed] by auto
qed

lemma proof_automaton_finite:
  assumes "proof_inv B P" and "initial_vertex P \<in> set (vertices P)"
  shows "twa_finite (ProofAutomaton P)"
proof -
  have "finite (proof_states P)" by (simp add: proof_states_def)
  then show ?thesis
    using proof_automaton_states(2) [OF assms] by (simp add: twa_finite_def finite_subset)
qed

section \<open>The language of the automaton\<close>

text \<open>
  The proof automaton reads exactly the words that spell an infinite path of the proof
  graph from the initial vertex.
\<close>

lemma proof_lang:
  assumes inv: "proof_inv B P" and init: "initial_vertex P \<in> set (vertices P)"
  shows "w \<in> twa_lang B (ProofAutomaton P) \<longleftrightarrow>
    (\<exists>p. tg_path (proof_graph P) (initial_vertex P) p \<and> (\<forall>i. bdd_sat B (p i) (w i)))"
proof
  assume "w \<in> twa_lang B (ProofAutomaton P)"
  then obtain r l where run: "twa_run B (ProofAutomaton P) w r l" by (auto simp: twa_lang_def)
  define st where "st v = ProofState v (at_key (tag_map P) v)" for v
  have step: "\<exists>es. ProofAutomaton_succ P (r i) = Inr es \<and> (fst (l i), snd (l i), r (Suc i)) \<in> set es \<and>
      bdd_sat B (fst (l i)) (w i)" for i
    using run by (simp add: twa_run_def ProofAutomaton_def)
  have r0: "r 0 = ProofGhostState" using run by (simp add: twa_run_def ProofAutomaton_def)
  have s0: "r 1 = st (initial_vertex P) \<and> fst (l 0) = initial_vertex P"
    using step [of 0] by (auto simp: r0 ghost_succ get_tags_ok [OF inv init] st_def)
  have next_state: "\<exists>v'. v' \<in> set (at_key (trans_map P) v) \<and> v' \<in> set (vertices P) \<and>
      r (Suc (Suc i)) = st v' \<and> fst (l (Suc i)) = v'"
    if "r (Suc i) = st v" "v \<in> set (vertices P)" for i v
    using step [of "Suc i"] that proof_succ [OF inv that(2)] proof_inv_successors [OF inv]
    by (auto simp: st_def)
  have "\<exists>v. v \<in> set (vertices P) \<and> r (Suc i) = st v \<and> fst (l i) = v" for i
  proof (induction i)
    case 0
    with s0 init show ?case by auto
  next
    case (Suc i)
    then obtain v where v: "v \<in> set (vertices P)" "r (Suc i) = st v" by blast
    from next_state [OF v(2,1)] show ?case by blast
  qed
  then have st: "r (Suc i) = st (fst (l i))" "fst (l i) \<in> set (vertices P)" for i by metis+
  have "tg_path (proof_graph P) (initial_vertex P) (\<lambda>i. fst (l i))"
    unfolding tg_path_def
  proof (intro conjI allI)
    show "fst (l 0) = initial_vertex P" using s0 by simp
    show "tg_edge (proof_graph P) (fst (l i)) (fst (l (Suc i)))" for i
      using next_state [OF st] by (auto simp: proof_graph_def)
  qed
  moreover have "bdd_sat B (fst (l i)) (w i)" for i using step [of i] by blast
  ultimately show "\<exists>p. tg_path (proof_graph P) (initial_vertex P) p \<and> (\<forall>i. bdd_sat B (p i) (w i))"
    by blast
next
  assume "\<exists>p. tg_path (proof_graph P) (initial_vertex P) p \<and> (\<forall>i. bdd_sat B (p i) (w i))"
  then obtain p where p: "tg_path (proof_graph P) (initial_vertex P) p" and sat: "\<And>i. bdd_sat B (p i) (w i)"
    by blast
  have pv: "p i \<in> set (vertices P)" for i
    by (rule tg_path_in [OF p init]) (use proof_inv_successors [OF inv] in \<open>auto simp: proof_graph_def\<close>)
  define r where "r i = (case i of 0 \<Rightarrow> ProofGhostState | Suc j \<Rightarrow> ProofState (p j) (at_key (tag_map P) (p j)))" for i
  have "twa_run B (ProofAutomaton P) w r (\<lambda>i. (p i, {0}))"
    unfolding twa_run_def
  proof (intro conjI allI)
    show "r 0 = twa_init (ProofAutomaton P)" by (simp add: r_def ProofAutomaton_def)
    show "\<exists>es. twa_succ (ProofAutomaton P) (r i) = Inr es \<and>
        (fst (p i, {0}), snd (p i, {0}), r (Suc i)) \<in> set es \<and> bdd_sat B (fst (p i, {0})) (w i)" for i
    proof (cases i)
      case 0
      with p sat show ?thesis
        by (simp add: r_def ProofAutomaton_def ghost_succ get_tags_ok [OF inv init] tg_path_start [OF p])
          (metis tg_path_start)
    next
      case (Suc j)
      with tg_path_edge [OF p, of j] sat show ?thesis
        by (auto simp: r_def ProofAutomaton_def proof_succ [OF inv pv] proof_graph_def)
    qed
  qed
  then show "w \<in> twa_lang B (ProofAutomaton P)" by (force simp: twa_lang_def)
qed

end
