(* ===== verification/Trace_Aut.thy ===== *)
theory Trace_Aut
  imports Spot_Twa "HOL-Library.Word"
begin

unbundle bit_operations_syntax

text \<open>
  The trace automaton (trace.hpp, trace.c): it waits in its initial state while it reads
  any prefix of a path, guesses a vertex and a tag, and then follows the trace pairs;
  edges on progress pairs are accepting. The theory has the states with their ordering and
  hashing at machine width, the memo table of heap-allocated states, the successor
  iterator, and the language of the automaton.
\<close>

section \<open>Hashing\<close>

text \<open>
  \<^verbatim>\<open>HASH_VAL\<close> mixes a hash value of type \<^verbatim>\<open>size_t\<close> into a seed of type \<^verbatim>\<open>int\<close>. The seed is
  promoted with its sign, the sum wraps at 64 bits and the result is cut back to 32 bits;
  the left shift of a negative seed is what GCC makes of it (two's complement).
\<close>

type_synonym size_t = "64 word"
type_synonym cint = "32 word"

definition HASH_VAL :: "cint \<Rightarrow> size_t \<Rightarrow> cint" where
  "HASH_VAL s h =
     ucast ((scast s :: size_t) XOR
       (h + 0x9e3779b9 + scast (push_bit 6 s) + scast (signed_drop_bit 2 s)))"

definition hash_bdd :: "'b bdd_pkg \<Rightarrow> 'b \<Rightarrow> size_t" where
  "hash_bdd B v = word_of_int (bdd_id B v)"

definition hash_tag :: "tag \<Rightarrow> size_t" where
  "hash_tag t = word_of_int t"

definition hash_Quad :: "'b bdd_pkg \<Rightarrow> 'b quad \<Rightarrow> size_t" where
  "hash_Quad B q = (case q of (v1, v2, t1, t2) \<Rightarrow>
     scast (HASH_VAL (HASH_VAL (HASH_VAL (HASH_VAL 0 (hash_bdd B v1)) (hash_bdd B v2))
       (hash_tag t1)) (hash_tag t2)))"

definition hash_StatePair :: "'b bdd_pkg \<Rightarrow> 'b \<times> tag \<Rightarrow> size_t" where
  "hash_StatePair B p = scast (HASH_VAL (HASH_VAL 0 (hash_bdd B (fst p))) (hash_tag (snd p)))"

definition TraceState_hash :: "'b bdd_pkg \<Rightarrow> 'b \<Rightarrow> tag \<Rightarrow> size_t" where
  "TraceState_hash B v t = scast (HASH_VAL (HASH_VAL 0 (hash_bdd B v)) (hash_tag t))"

text \<open>When the C++17 standard defines \<open>s << k\<close> for a signed 32-bit \<open>s\<close>.\<close>

definition shl_defined :: "cint \<Rightarrow> nat \<Rightarrow> bool" where
  "shl_defined s k \<longleftrightarrow> 0 \<le> sint s \<and> sint s * 2 ^ k < 2 ^ 32"

section \<open>States\<close>

definition initial :: "'b bdd_pkg \<Rightarrow> 'b \<Rightarrow> tag \<Rightarrow> bool" where
  "initial B v t \<longleftrightarrow> v = NO_VERTEX B \<and> t = NO_TAG"

text \<open>\<^verbatim>\<open>reinterpret_cast\<close> on a state of another class has no defined result.\<close>

definition TraceState_compare :: "'b bdd_pkg \<Rightarrow> 'b \<Rightarrow> tag \<Rightarrow> 'b spot_state \<Rightarrow> int result" where
  "TraceState_compare B v t other =
     (case other of
        TraceState w u \<Rightarrow>
          Inr (if initial B v t then (if initial B w u then 0 else - 1)
               else if initial B w u then 1
               else if bdd_id B v < bdd_id B w then - 1
               else if bdd_id B v > bdd_id B w then 1
               else if t < u then - 1
               else if t > u then 1
               else 0)
      | _ \<Rightarrow> Inl (Undefined_behaviour ''reinterpret_cast<const TraceState *>(other)''))"

definition trace_state_compare :: "'b bdd_pkg \<Rightarrow> 'b spot_state \<Rightarrow> 'b spot_state \<Rightarrow> int result" where
  "trace_state_compare B s other =
     (case s of
        TraceState v t \<Rightarrow> TraceState_compare B v t other
      | _ \<Rightarrow> Inl (Undefined_behaviour ''not a state of the trace automaton''))"

definition trace_state_hash :: "'b bdd_pkg \<Rightarrow> 'b spot_state \<Rightarrow> size_t" where
  "trace_state_hash B s = (case s of TraceState v t \<Rightarrow> TraceState_hash B v t | _ \<Rightarrow> 0)"

section \<open>The automaton object and its states on the heap\<close>

text \<open>
  Pointers to \<^verbatim>\<open>TraceState\<close> objects are addresses into a store that the automaton owns;
  address \<open>0\<close> is the null pointer and \<open>ta_next\<close> the next address \<^verbatim>\<open>new\<close> returns.
\<close>

type_synonym addr = nat

record 'b trace_aut =
  ta_proof :: "'b cxx_proof"
  ta_acc_set :: mark
  state_map :: "'b \<times> tag \<rightharpoonup> addr"
  ta_heap :: "addr \<rightharpoonup> 'b \<times> tag"
  ta_next :: addr

definition TraceAutomaton_new :: "'b cxx_proof \<Rightarrow> 'b trace_aut" where
  "TraceAutomaton_new P =
     \<lparr>ta_proof = P, ta_acc_set = set_buchi, state_map = Map.empty, ta_heap = Map.empty, ta_next = 1\<rparr>"

definition get_state :: "'b trace_aut \<Rightarrow> 'b \<Rightarrow> tag \<Rightarrow> (addr \<times> 'b trace_aut) result" where
  "get_state A v t =
     (case state_map A (v, t) of
        None \<Rightarrow>
          let s = ta_next A in
          Inr (s, A\<lparr>ta_next := Suc s, ta_heap := (ta_heap A)(s \<mapsto> (v, t)),
                    state_map := (state_map A)((v, t) \<mapsto> s)\<rparr>)
      | Some s \<Rightarrow> asserting ''i->second != 0'' (s \<noteq> 0) (Inr (s, A)))"

definition TraceAutomaton_get_init_state :: "'b bdd_pkg \<Rightarrow> 'b trace_aut \<Rightarrow> (addr \<times> 'b trace_aut) result" where
  "TraceAutomaton_get_init_state B A = get_state A (NO_VERTEX B) NO_TAG"

text \<open>
  \<^verbatim>\<open>delete\<close> of a null pointer does nothing; of an address that is not allocated, such as one
  that was freed before, it is undefined. The destructor visits the entries of the hash map
  in an order that the map chooses: \<open>order\<close> lists their keys.
\<close>

definition delete_state :: "addr \<Rightarrow> 'b trace_aut \<Rightarrow> 'b trace_aut result" where
  "delete_state s A =
     (if s = 0 then Inr A
      else case ta_heap A s of
        None \<Rightarrow> Inl (Undefined_behaviour ''delete'')
      | Some _ \<Rightarrow> Inr (A\<lparr>ta_heap := (ta_heap A)(s := None)\<rparr>))"

definition TraceAutomaton_delete :: "('b \<times> tag) list \<Rightarrow> 'b trace_aut \<Rightarrow> 'b trace_aut result" where
  "TraceAutomaton_delete order A =
     foldE (\<lambda>p A. case state_map A p of None \<Rightarrow> Inr A | Some s \<Rightarrow> delete_state s A) order A"

definition deref :: "'b trace_aut \<Rightarrow> addr \<Rightarrow> ('b \<times> tag) result" where
  "deref A a = (case ta_heap A a of None \<Rightarrow> Inl Null_dereference | Some s \<Rightarrow> Inr s)"

section \<open>The successor iterator\<close>

record 'b trace_iterator =
  ti_vertex :: 'b
  ti_tag :: tag
  state_info_vector :: "addr list"

definition push_state ::
  "'b \<Rightarrow> tag \<Rightarrow> 'b trace_aut \<times> addr list \<Rightarrow> ('b trace_aut \<times> addr list) result" where
  "push_state v t s = bindE (get_state (fst s) v t) (\<lambda>(a, A). Inr (A, snd s @ [a]))"

text \<open>The bodies of the two nested loops of \<^verbatim>\<open>first()\<close>.\<close>

definition first_tag ::
  "'b bdd_pkg \<Rightarrow> 'b trace_iterator \<Rightarrow> 'b \<Rightarrow> tag \<Rightarrow> 'b trace_aut \<times> addr list \<Rightarrow> ('b trace_aut \<times> addr list) result" where
  "first_tag B it v t s =
     (if \<not> initial B (ti_vertex it) (ti_tag it) \<and>
         \<not> trace_pair (ta_proof (fst s)) (ti_vertex it) v (ti_tag it) t
      then Inr s
      else push_state v t s)"

definition first_vertex ::
  "'b bdd_pkg \<Rightarrow> 'b trace_iterator \<Rightarrow> 'b \<Rightarrow> 'b trace_aut \<times> addr list \<Rightarrow> ('b trace_aut \<times> addr list) result" where
  "first_vertex B it v s =
     bindE (get_tags_of_vertex (ta_proof (fst s)) v) (\<lambda>tset. foldE (first_tag B it v) tset s)"

definition trace_first ::
  "'b bdd_pkg \<Rightarrow> 'b trace_aut \<Rightarrow> 'b trace_iterator \<Rightarrow> ('b trace_aut \<times> 'b trace_iterator) result" where
  "trace_first B A it =
     asserting ''state_info_vector.empty()'' (state_info_vector it = [])
       (bindE (if initial B (ti_vertex it) (ti_tag it) then Inr (vertices (ta_proof A))
               else get_successors (ta_proof A) (ti_vertex it)) (\<lambda>successors.
        bindE (if initial B (ti_vertex it) (ti_tag it) then push_state (NO_VERTEX B) NO_TAG (A, [])
               else Inr (A, [])) (\<lambda>s.
        bindE (foldE (first_vertex B it) successors s) (\<lambda>(A, vec).
        Inr (A, it\<lparr>state_info_vector := vec\<rparr>)))))"

definition trace_next :: "'b trace_iterator \<Rightarrow> 'b trace_iterator" where
  "trace_next it = it\<lparr>state_info_vector := butlast (state_info_vector it)\<rparr>"

definition trace_done :: "'b trace_iterator \<Rightarrow> bool" where
  "trace_done it \<longleftrightarrow> state_info_vector it = []"

definition trace_dst :: "'b trace_iterator \<Rightarrow> addr" where
  "trace_dst it = last (state_info_vector it)"

definition trace_cond :: "'b bdd_pkg \<Rightarrow> 'b trace_aut \<Rightarrow> 'b trace_iterator \<Rightarrow> 'b result" where
  "trace_cond B A it =
     bindE (deref A (last (state_info_vector it)))
       (\<lambda>(c, _). Inr (if c = NO_VERTEX B then bddtrue B else c))"

definition trace_acc :: "'b trace_aut \<Rightarrow> 'b trace_iterator \<Rightarrow> mark result" where
  "trace_acc A it =
     bindE (deref A (last (state_info_vector it)))
       (\<lambda>(v, t). Inr (if progress_pair (ta_proof A) (ti_vertex it) v (ti_tag it) t then ta_acc_set A else {}))"

section \<open>The automaton\<close>

definition trace_edge :: "'b bdd_pkg \<Rightarrow> 'b trace_aut \<Rightarrow> 'b trace_iterator \<Rightarrow> 'b edge result" where
  "trace_edge B A it =
     bindE (trace_cond B A it) (\<lambda>c. bindE (trace_acc A it) (\<lambda>m.
       bindE (deref A (trace_dst it)) (\<lambda>(v, t). Inr (c, m, TraceState v t))))"

text \<open>
  What a client of \<^verbatim>\<open>succ_iter\<close> sees: \<^verbatim>\<open>first()\<close>, then the edges of the iteration, with the
  states the pointers stand for, and the automaton with its memo table filled further.
\<close>

definition TraceAutomaton_succ ::
  "'b bdd_pkg \<Rightarrow> 'b trace_aut \<Rightarrow> 'b spot_state \<Rightarrow> ('b edge list \<times> 'b trace_aut) result" where
  "TraceAutomaton_succ B A s =
     (case s of
        TraceState v t \<Rightarrow>
          bindE (trace_first B A \<lparr>ti_vertex = v, ti_tag = t, state_info_vector = []\<rparr>) (\<lambda>(A', it).
            bindE (collect_edges (drain trace_done trace_next (trace_edge B A') it)) (\<lambda>es. Inr (es, A')))
      | _ \<Rightarrow> Inl (Assert_failure ''ts''))"

definition TraceAutomaton :: "'b bdd_pkg \<Rightarrow> 'b cxx_proof \<Rightarrow> 'b twa" where
  "TraceAutomaton B P =
     \<lparr>twa_init = TraceState (NO_VERTEX B) NO_TAG,
      twa_succ = (\<lambda>s. bindE (TraceAutomaton_succ B (TraceAutomaton_new P) s) (\<lambda>(es, _). Inr es))\<rparr>"

definition TraceAutomaton_format_state ::
  "'b bdd_pkg \<Rightarrow> 'b trace_aut \<Rightarrow> 'b spot_state \<Rightarrow> string result" where
  "TraceAutomaton_format_state B A s =
     (case s of
        TraceState v t \<Rightarrow>
          (if initial B v t then Inr ''init''
           else asserting ''ts->vertex != NO_VERTEX && ts->tag != NO_TAG'' (v \<noteq> NO_VERTEX B \<and> t \<noteq> NO_TAG)
             (bindE (get_vertex_name (ta_proof A) v) (\<lambda>n. Inr (''S'' @ n @ '',t'' @ show_int t))))
      | _ \<Rightarrow> Inl (Assert_failure ''ts''))"

section \<open>Specification of the automaton\<close>

text \<open>The store and the memo table describe each other; no state is allocated twice.\<close>

definition ta_inv :: "'b trace_aut \<Rightarrow> bool" where
  "ta_inv A \<longleftrightarrow> 0 < ta_next A \<and>
     (\<forall>p a. state_map A p = Some a \<longrightarrow> a \<noteq> 0 \<and> ta_heap A a = Some p) \<and>
     (\<forall>a p. ta_heap A a = Some p \<longrightarrow> state_map A p = Some a \<and> a < ta_next A)"

text \<open>The targets of a state, in the order in which \<^verbatim>\<open>first()\<close> pushes them, and their edges.\<close>

definition trace_targets :: "'b bdd_pkg \<Rightarrow> 'b cxx_proof \<Rightarrow> 'b \<Rightarrow> tag \<Rightarrow> ('b \<times> tag) list" where
  "trace_targets B P v t =
     (if initial B v t then [(NO_VERTEX B, NO_TAG)] else []) @
     concat (map (\<lambda>w. map (Pair w) (filter (\<lambda>u. initial B v t \<or> trace_pair P v w t u) (at_key (tag_map P) w)))
       (if initial B v t then vertices P else at_key (trans_map P) v))"

definition trace_edge_to :: "'b bdd_pkg \<Rightarrow> 'b cxx_proof \<Rightarrow> 'b \<Rightarrow> tag \<Rightarrow> 'b \<times> tag \<Rightarrow> 'b edge" where
  "trace_edge_to B P v t p =
     (if fst p = NO_VERTEX B then bddtrue B else fst p,
      if progress_pair P v (fst p) t (snd p) then set_buchi else {},
      TraceState (fst p) (snd p))"

definition trace_mark :: "'b cxx_proof \<Rightarrow> 'b \<Rightarrow> 'b \<Rightarrow> tag \<Rightarrow> tag \<Rightarrow> mark" where
  "trace_mark P v w t u = (if progress_pair P v w t u then {0} else {})"

definition trace_states :: "'b bdd_pkg \<Rightarrow> 'b cxx_proof \<Rightarrow> 'b spot_state set" where
  "trace_states B P = insert (TraceState (NO_VERTEX B) NO_TAG)
     {TraceState v t |v t. v \<in> set (vertices P) \<and> t \<in> set (at_key (tag_map P) v)}"

section \<open>Hashing and ordering\<close>

text \<open>After one step from seed \<open>0\<close> with a small identifier the seed is negative.\<close>

lemma HASH_VAL_zero: "HASH_VAL 0 h = ucast (h + 0x9e3779b9)"
  by (simp add: HASH_VAL_def)

lemma ucast_word_of_int_64_32: "ucast (word_of_int x :: 64 word) = (word_of_int x :: 32 word)"
  by (rule bit_word_eqI) (simp add: bit_simps)

lemma first_seed_negative:
  assumes "0 \<le> i" and "i < 1640531527"
  shows "sint (HASH_VAL 0 (word_of_int i)) < 0"
proof -
  let ?x = "i + 0x9e3779b9"
  have "word_of_int i + 0x9e3779b9 = (word_of_int ?x :: 64 word)" by simp
  then have "HASH_VAL 0 (word_of_int i) = word_of_int ?x"
    by (simp only: HASH_VAL_zero ucast_word_of_int_64_32)
  moreover have "?x + 2147483648 = i + 506952121 + 4294967296" by simp
  then have "(?x + 2147483648) mod 4294967296 = i + 506952121"
    using assms by (simp only: mod_add_self2) simp
  moreover have "sint (word_of_int ?x :: 32 word) = (?x + 2147483648) mod 4294967296 - 2147483648"
    by (subst int_word_sint) simp
  ultimately show ?thesis using assms by (simp only:)
qed

context bdd_library
begin

lemma trace_compare_zero: "trace_state_compare B (TraceState v a) (TraceState w b) = Inr 0 \<longleftrightarrow> v = w \<and> a = b"
  unfolding trace_state_compare_def TraceState_compare_def
  by (cases rule: linorder_cases [of "bdd_id B v" "bdd_id B w"])
    (auto simp: initial_def split: if_splits)

lemma trace_state_order:
  "state_order {s. \<exists>v t. s = TraceState v t} (trace_state_compare B) (trace_state_hash B)"
proof (unfold_locales, goal_cases)
  case (1 s t)
  then show ?case by (auto simp: trace_state_compare_def TraceState_compare_def)
next
  case (2 s t)
  then show ?case by (auto simp: trace_compare_zero)
next
  case (3 s t x)
  then show ?case
    by (clarsimp simp: trace_state_compare_def TraceState_compare_def)
next
  case (4 s t u)
  then show ?case
    by (clarsimp simp: trace_state_compare_def TraceState_compare_def split: if_split_asm) auto
next
  case (5 s t x)
  then show ?case
    by (clarsimp simp: trace_state_compare_def TraceState_compare_def split: if_split_asm)
next
  case (6 s t)
  then show ?case by (auto simp: trace_compare_zero)
qed

end

interpretation robdd_trace_states:
  state_order "{s. \<exists>v t. s = TraceState v t}" "trace_state_compare robdd_pkg" "trace_state_hash robdd_pkg"
  by (rule robdd.trace_state_order)

section \<open>The memo table\<close>

lemma ta_inv_new [simp]: "ta_inv (TraceAutomaton_new P)"
  by (simp add: ta_inv_def TraceAutomaton_new_def)

lemma ta_invD:
  assumes "ta_inv A"
  shows "state_map A p = Some a \<Longrightarrow> a \<noteq> 0 \<and> ta_heap A a = Some p"
    "ta_heap A a = Some p \<Longrightarrow> state_map A p = Some a \<and> a < ta_next A" "0 < ta_next A"
  using assms unfolding ta_inv_def by blast+

lemma ta_inv_alloc:
  assumes A: "ta_inv A" and none: "state_map A p = None"
  shows "ta_inv (A\<lparr>ta_next := Suc (ta_next A), ta_heap := (ta_heap A)(ta_next A \<mapsto> p),
      state_map := (state_map A)(p \<mapsto> ta_next A)\<rparr>)"
proof -
  have fresh: "ta_heap A a = Some q \<Longrightarrow> a \<noteq> ta_next A" for a q
    using ta_invD(2) [OF A, of a q] by blast
  have m: "a \<noteq> 0 \<and> ((ta_heap A)(ta_next A \<mapsto> p)) a = Some q"
    if h: "((state_map A)(p \<mapsto> ta_next A)) q = Some a" for q a
  proof (cases "q = p")
    case True
    with h ta_invD(3) [OF A] show ?thesis by simp
  next
    case False
    with h have "state_map A q = Some a" by simp
    from ta_invD(1) [OF A this] fresh [of a q] show ?thesis by simp
  qed
  have h: "((state_map A)(p \<mapsto> ta_next A)) q = Some a \<and> a < Suc (ta_next A)"
    if h: "((ta_heap A)(ta_next A \<mapsto> p)) a = Some q" for q a
  proof (cases "a = ta_next A")
    case True
    with h show ?thesis by simp
  next
    case False
    with h have "ta_heap A a = Some q" by simp
    from ta_invD(2) [OF A this] none show ?thesis by auto
  qed
  show ?thesis
    unfolding ta_inv_def
    by (simp del: fun_upd_apply) (use m h in blast)
qed

lemma get_state_ok:
  assumes "ta_inv A"
  obtains a A' where "get_state A v t = Inr (a, A')" "ta_inv A'" "ta_heap A' a = Some (v, t)"
    "ta_proof A' = ta_proof A" "ta_acc_set A' = ta_acc_set A"
    "ta_heap A \<subseteq>\<^sub>m ta_heap A'" "state_map A \<subseteq>\<^sub>m state_map A'"
proof (cases "state_map A (v, t)")
  case None
  have "ta_heap A (ta_next A) = None"
    using ta_invD(2) [OF assms, of "ta_next A"] by (cases "ta_heap A (ta_next A)") auto
  with None show ?thesis
    by (intro that [of "ta_next A", OF _ ta_inv_alloc [OF assms None]]) (auto simp: get_state_def map_le_def Let_def)
next
  case (Some a)
  with ta_invD(1) [OF assms Some] assms show ?thesis
    by (intro that [of a A]) (auto simp: get_state_def)
qed

section \<open>The life of an automaton object\<close>

text \<open>The objects that the constructor and the public methods lead to.\<close>

inductive ta_used :: "'b bdd_pkg \<Rightarrow> 'b cxx_proof \<Rightarrow> 'b trace_aut \<Rightarrow> bool" for B P where
  used_new: "ta_used B P (TraceAutomaton_new P)"
| used_init: "ta_used B P A \<Longrightarrow> TraceAutomaton_get_init_state B A = Inr (a, A') \<Longrightarrow> ta_used B P A'"
| used_succ: "ta_used B P A \<Longrightarrow> TraceAutomaton_succ B A s = Inr (es, A') \<Longrightarrow> ta_used B P A'"

lemma get_state_inv: "get_state A v t = Inr (a, A') \<Longrightarrow> ta_inv A \<Longrightarrow> ta_inv A'"
  by (rule get_state_ok [of A v t]) auto

lemma get_state_finite:
  "get_state A v t = Inr (a, A') \<Longrightarrow> finite (dom (state_map A)) \<Longrightarrow> finite (dom (state_map A'))"
  by (auto simp: get_state_def Let_def asserting_eq_Inr split: option.splits)

lemma push_state_inv:
  "push_state v t s = Inr s' \<Longrightarrow> ta_inv (fst s) \<and> finite (dom (state_map (fst s))) \<Longrightarrow>
    ta_inv (fst s') \<and> finite (dom (state_map (fst s')))"
  by (auto simp: push_state_def bindE_eq_Inr intro: get_state_inv get_state_finite)

lemma first_vertex_inv:
  assumes "first_vertex B it w s = Inr s'" and "ta_inv (fst s) \<and> finite (dom (state_map (fst s)))"
  shows "ta_inv (fst s') \<and> finite (dom (state_map (fst s')))"
proof -
  obtain ts where "foldE (first_tag B it w) ts s = Inr s'" using assms(1) by (auto simp: first_vertex_def bindE_eq_Inr)
  from this assms(2) show ?thesis
    by (rule foldE_invariant) (auto simp: first_tag_def split: if_splits dest: push_state_inv)
qed

lemma trace_first_inv:
  assumes "trace_first B A it = Inr (A', it')" and A: "ta_inv A \<and> finite (dom (state_map A))"
  shows "ta_inv A' \<and> finite (dom (state_map A'))"
proof -
  obtain vs s vec where s: "(if initial B (ti_vertex it) (ti_tag it) then push_state (NO_VERTEX B) NO_TAG (A, []) else Inr (A, [])) = Inr s"
    and f: "foldE (first_vertex B it) vs s = Inr (A', vec)"
    using assms(1) by (auto simp: trace_first_def result_cases)
  have "ta_inv (fst s) \<and> finite (dom (state_map (fst s)))"
    using s A push_state_inv [of "NO_VERTEX B" NO_TAG "(A, [])" s] by (auto split: if_splits)
  with f have "ta_inv (fst (A', vec)) \<and> finite (dom (state_map (fst (A', vec))))"
    by (rule foldE_invariant) (erule (1) first_vertex_inv)
  then show ?thesis by simp
qed

lemma ta_used_inv: "ta_used B P A \<Longrightarrow> ta_inv A \<and> finite (dom (state_map A))"
proof (induction rule: ta_used.induct)
  case used_new
  show ?case by (simp add: TraceAutomaton_new_def [of P] ta_inv_def)
next
  case (used_init A a A')
  from used_init.hyps(2) [unfolded TraceAutomaton_get_init_state_def] used_init.IH
  show ?case by (simp add: get_state_inv get_state_finite)
next
  case (used_succ A s es A')
  then obtain it it' where "trace_first B A it = Inr (A', it')"
    by (auto simp: TraceAutomaton_succ_def bindE_eq_Inr split: spot_state.splits)
  then show ?case using used_succ.IH by (rule trace_first_inv)
qed

text \<open>While the destructor runs, the states of the entries it has not visited are left.\<close>

lemma delete_step:
  assumes A: "ta_inv A" and p: "state_map A p = Some a" "p \<notin> set us" "A1 = A\<lparr>ta_heap := (ta_heap A) |` {a. \<exists>q. q \<notin> set us \<and> state_map A q = Some a}\<rparr>"
  shows "delete_state a A1 = Inr (A\<lparr>ta_heap := (ta_heap A) |` {a. \<exists>q. q \<notin> set (us @ [p]) \<and> state_map A q = Some a}\<rparr>)"
proof -
  note ap = ta_invD(1) [OF A p(1)]
  have other: "q = p" if "state_map A q = Some a" for q using ta_invD(1) [OF A that] ap by simp
  have "((ta_heap A) |` {a. \<exists>q. q \<notin> set us \<and> state_map A q = Some a})(a := None) =
      (ta_heap A) |` {a. \<exists>q. q \<notin> set (us @ [p]) \<and> state_map A q = Some a}"
  proof
    fix b
    show "(((ta_heap A) |` {a. \<exists>q. q \<notin> set us \<and> state_map A q = Some a})(a := None)) b =
      ((ta_heap A) |` {a. \<exists>q. q \<notin> set (us @ [p]) \<and> state_map A q = Some a}) b"
    proof (cases "b = a")
      case True
      then have out: "b \<notin> {a. \<exists>q. q \<notin> set (us @ [p]) \<and> state_map A q = Some a}" using other by auto
      show ?thesis unfolding restrict_out [OF out] by (simp add: True)
    next
      case False
      have "q \<noteq> p" if "state_map A q = Some b" for q using that p(1) False by auto
      then have "(\<exists>q. q \<notin> set us \<and> state_map A q = Some b) = (\<exists>q. q \<notin> set (us @ [p]) \<and> state_map A q = Some b)"
        by (metis Un_iff empty_iff insert_iff list.set set_append)
      with False show ?thesis by (simp add: restrict_map_def)
    qed
  qed
  moreover have "a \<noteq> 0" by (simp add: ap)
  moreover have "a \<in> {a. \<exists>q. q \<notin> set us \<and> state_map A q = Some a}" using p(1,2) by blast
  then have "ta_heap A1 a = Some p" by (simp add: p(3) ap restrict_map_def)
  ultimately show ?thesis using p(3) by (simp add: delete_state_def)
qed

lemma delete_all:
  assumes A: "ta_inv A" and order: "distinct order" "set order = dom (state_map A)"
  shows "\<exists>A'. TraceAutomaton_delete order A = Inr A' \<and> ta_heap A' = Map.empty"
proof -
  let ?left = "\<lambda>us. A\<lparr>ta_heap := (ta_heap A) |` {a. \<exists>q. q \<notin> set us \<and> state_map A q = Some a}\<rparr>"
  have "((ta_heap A) |` {a. \<exists>q. state_map A q = Some a}) b = ta_heap A b" for b
    using ta_invD(2) [OF A, of b] by (cases "ta_heap A b") (auto simp: restrict_map_def)
  then have "(ta_heap A) |` {a. \<exists>q. state_map A q = Some a} = ta_heap A" by (rule ext)
  then have start: "A = ?left []" by simp
  have "\<exists>A'. foldE (\<lambda>p A. case state_map A p of None \<Rightarrow> Inr A | Some s \<Rightarrow> delete_state s A) order A = Inr A' \<and> A' = ?left order"
  proof (rule foldE_total [where I = "\<lambda>us A'. A' = ?left us"])
    show "A = ?left []" by (fact start)
  next
    fix us p vs A1 assume o: "order = us @ p # vs" and A1: "A1 = ?left us"
    then obtain a where "state_map A p = Some a" "p \<notin> set us" using order by auto
    with delete_step [OF A this A1] A1
    show "\<exists>A'. (case state_map A1 p of None \<Rightarrow> Inr A1 | Some s \<Rightarrow> delete_state s A1) = Inr A' \<and> A' = ?left (us @ [p])"
      by simp
  qed
  moreover have "{a. \<exists>q. q \<notin> set order \<and> state_map A q = Some a} = {}" using order(2) by blast
  ultimately show ?thesis unfolding TraceAutomaton_delete_def by auto
qed

section \<open>The iteration\<close>

text \<open>
  The state of the loops of \<^verbatim>\<open>first()\<close>: an automaton that extends the one the call started
  with, and a vector of pointers to the given targets.
\<close>

definition vec_ok :: "'b trace_aut \<Rightarrow> ('b \<times> tag) list \<Rightarrow> 'b trace_aut \<times> addr list \<Rightarrow> bool" where
  "vec_ok A0 ps s \<longleftrightarrow> ta_inv (fst s) \<and> ta_proof (fst s) = ta_proof A0 \<and>
     ta_acc_set (fst s) = ta_acc_set A0 \<and> state_map A0 \<subseteq>\<^sub>m state_map (fst s) \<and>
     map (ta_heap (fst s)) (snd s) = map Some ps"

lemma map_le_same: "m \<subseteq>\<^sub>m m' \<Longrightarrow> map m xs = map Some ys \<Longrightarrow> map m' xs = map Some ys"
proof (induction xs arbitrary: ys)
  case (Cons x xs)
  then show ?case by (cases ys) (auto simp: map_le_def dom_def)
qed simp

lemma push_state_vec:
  assumes ok: "vec_ok A0 ps s"
  shows "\<exists>s'. push_state v t s = Inr s' \<and> vec_ok A0 (ps @ [(v, t)]) s'"
proof -
  have inv: "ta_inv (fst s)" and vec: "map (ta_heap (fst s)) (snd s) = map Some ps"
    using ok by (simp_all add: vec_ok_def)
  show ?thesis
  proof (rule get_state_ok [OF inv, of v t])
    fix a A'
    assume g: "get_state (fst s) v t = Inr (a, A')" "ta_inv A'" "ta_heap A' a = Some (v, t)"
      "ta_proof A' = ta_proof (fst s)" "ta_acc_set A' = ta_acc_set (fst s)"
      "ta_heap (fst s) \<subseteq>\<^sub>m ta_heap A'" "state_map (fst s) \<subseteq>\<^sub>m state_map A'"
    have "state_map A0 \<subseteq>\<^sub>m state_map A'"
      using ok g(7) by (auto simp: vec_ok_def intro: map_le_trans)
    with ok g map_le_same [OF g(6) vec] have "vec_ok A0 (ps @ [(v, t)]) (A', snd s @ [a])"
      by (simp add: vec_ok_def)
    with g(1) show ?thesis by (simp add: push_state_def)
  qed
qed

lemma first_tag_vec:
  assumes "vec_ok A0 ps s"
  shows "\<exists>s'. foldE (first_tag B it w) us s = Inr s' \<and>
    vec_ok A0 (ps @ map (Pair w) (filter (\<lambda>u. initial B (ti_vertex it) (ti_tag it) \<or>
      trace_pair (ta_proof A0) (ti_vertex it) w (ti_tag it) u) us)) s'"
proof (rule foldE_total [where I = "\<lambda>us. vec_ok A0 (ps @ map (Pair w) (filter (\<lambda>u.
      initial B (ti_vertex it) (ti_tag it) \<or>
      trace_pair (ta_proof A0) (ti_vertex it) w (ti_tag it) u) us))"])
  fix ys y zs s
  assume ok: "vec_ok A0 (ps @ map (Pair w) (filter (\<lambda>u. initial B (ti_vertex it) (ti_tag it) \<or>
      trace_pair (ta_proof A0) (ti_vertex it) w (ti_tag it) u) ys)) s"
  then have "ta_proof (fst s) = ta_proof A0" by (simp add: vec_ok_def)
  with ok push_state_vec [OF ok, of w y]
  show "\<exists>s'. first_tag B it w y s = Inr s' \<and> vec_ok A0 (ps @ map (Pair w) (filter (\<lambda>u.
      initial B (ti_vertex it) (ti_tag it) \<or>
      trace_pair (ta_proof A0) (ti_vertex it) w (ti_tag it) u) (ys @ [y]))) s'"
    by (cases s) (auto simp: first_tag_def)
qed (use assms in simp)

lemma first_vertex_vec:
  assumes "vec_ok A0 ps s" and inv: "proof_inv B (ta_proof A0)" and ws: "set ws \<subseteq> set (vertices (ta_proof A0))"
  shows "\<exists>s'. foldE (first_vertex B it) ws s = Inr s' \<and>
    vec_ok A0 (ps @ concat (map (\<lambda>w. map (Pair w) (filter (\<lambda>u. initial B (ti_vertex it) (ti_tag it) \<or>
      trace_pair (ta_proof A0) (ti_vertex it) w (ti_tag it) u) (at_key (tag_map (ta_proof A0)) w))) ws)) s'"
    (is "\<exists>s'. _ \<and> vec_ok A0 (ps @ ?spec ws) s'")
proof (rule foldE_total [where I = "\<lambda>ws. vec_ok A0 (ps @ ?spec ws)"])
  fix ys y zs s
  assume "ws = ys @ y # zs" and ok: "vec_ok A0 (ps @ ?spec ys) s"
  with ws have "y \<in> set (vertices (ta_proof A0))" "ta_proof (fst s) = ta_proof A0"
    by (auto simp: vec_ok_def)
  with first_tag_vec [OF ok, of B it y "at_key (tag_map (ta_proof A0)) y"] get_tags_ok [OF inv]
  show "\<exists>s'. first_vertex B it y s = Inr s' \<and> vec_ok A0 (ps @ ?spec (ys @ [y])) s'"
    by (simp add: first_vertex_def)
qed (use assms in simp)

lemma vec_ok_start: "ta_inv A \<Longrightarrow> vec_ok A [] (A, [])"
  by (simp add: vec_ok_def)

text \<open>
  \<^verbatim>\<open>first()\<close> on a state of a well-formed proof: no assertion fails, and the vector points to
  the targets of the state, whatever the memo table held before.
\<close>

lemma trace_first_ok:
  assumes A: "ta_inv A" and inv: "proof_inv B (ta_proof A)"
    and v: "initial B v t \<or> v \<in> set (vertices (ta_proof A))"
  shows "\<exists>A' vec. trace_first B A \<lparr>ti_vertex = v, ti_tag = t, state_info_vector = []\<rparr> =
      Inr (A', \<lparr>ti_vertex = v, ti_tag = t, state_info_vector = vec\<rparr>) \<and>
    vec_ok A (trace_targets B (ta_proof A) v t) (A', vec)"
proof (cases "initial B v t")
  let ?it = "\<lparr>ti_vertex = v, ti_tag = t, state_info_vector = []\<rparr>"
  case True
  obtain s where s: "push_state (NO_VERTEX B) NO_TAG (A, []) = Inr s" "vec_ok A [(NO_VERTEX B, NO_TAG)] s"
    using push_state_vec [OF vec_ok_start [OF A], of "NO_VERTEX B" NO_TAG] by auto
  obtain A' vec where "foldE (first_vertex B ?it) (vertices (ta_proof A)) s = Inr (A', vec)"
    "vec_ok A (trace_targets B (ta_proof A) v t) (A', vec)"
    using first_vertex_vec [OF s(2) inv subset_refl, of ?it] True by (auto simp: trace_targets_def)
  with True s(1) show ?thesis by (auto simp: trace_first_def)
next
  let ?it = "\<lparr>ti_vertex = v, ti_tag = t, state_info_vector = []\<rparr>"
  let ?ws = "at_key (trans_map (ta_proof A)) v"
  case False
  with v have succ: "get_successors (ta_proof A) v = Inr ?ws"
    by (simp add: get_successors_ok [OF inv])
  have "set ?ws \<subseteq> set (vertices (ta_proof A))"
    using proof_inv_successors [OF inv] by blast
  from first_vertex_vec [OF vec_ok_start [OF A] inv this, of ?it] False
  obtain A' vec where "foldE (first_vertex B ?it) ?ws (A, []) = Inr (A', vec)"
    "vec_ok A (trace_targets B (ta_proof A) v t) (A', vec)"
    by (auto simp: trace_targets_def)
  with False succ show ?thesis by (auto simp: trace_first_def)
qed

interpretation trace_iter: succ_iterator trace_done trace_next "trace_edge B A"
    "\<lambda>it. map (\<lambda>a. trace_edge B A (it\<lparr>state_info_vector := [a]\<rparr>)) (rev (state_info_vector it))" for B A
proof (unfold_locales, goal_cases)
  case (2 it)
  then obtain as a where "state_info_vector it = as @ [a]"
    by (cases "state_info_vector it" rule: rev_cases) (auto simp: trace_done_def)
  then show ?case
    by (simp add: trace_next_def trace_edge_def trace_cond_def trace_acc_def trace_dst_def)
qed (simp add: trace_done_def)

lemma trace_edge_single:
  "ta_heap A a = Some p \<Longrightarrow> ta_acc_set A = set_buchi \<Longrightarrow>
   trace_edge B A \<lparr>ti_vertex = v, ti_tag = t, state_info_vector = [a]\<rparr> = Inr (trace_edge_to B (ta_proof A) v t p)"
  by (cases p) (simp add: trace_edge_def trace_cond_def trace_acc_def trace_dst_def deref_def trace_edge_to_def)

lemma trace_succ_ok:
  assumes A: "ta_inv A" "ta_acc_set A = set_buchi" and inv: "proof_inv B (ta_proof A)"
    and v: "initial B v t \<or> v \<in> set (vertices (ta_proof A))"
  shows "\<exists>A'. TraceAutomaton_succ B A (TraceState v t) =
      Inr (rev (map (trace_edge_to B (ta_proof A) v t) (trace_targets B (ta_proof A) v t)), A') \<and>
    ta_inv A' \<and> ta_acc_set A' = set_buchi \<and> ta_proof A' = ta_proof A \<and> state_map A \<subseteq>\<^sub>m state_map A'"
proof -
  obtain A' vec where f: "trace_first B A \<lparr>ti_vertex = v, ti_tag = t, state_info_vector = []\<rparr> =
      Inr (A', \<lparr>ti_vertex = v, ti_tag = t, state_info_vector = vec\<rparr>)"
    and ok: "vec_ok A (trace_targets B (ta_proof A) v t) (A', vec)"
    using trace_first_ok [OF A(1) inv v] by blast
  let ?ps = "trace_targets B (ta_proof A) v t"
  have acc: "ta_acc_set A' = set_buchi" and same: "ta_proof A' = ta_proof A"
    and vec: "map (ta_heap A') vec = map Some ?ps"
    using ok A by (auto simp: vec_ok_def)
  have "mapE (\<lambda>x. x) (map (\<lambda>a. trace_edge B A' \<lparr>ti_vertex = v, ti_tag = t, state_info_vector = [a]\<rparr>) (rev vec)) =
      Inr (map (\<lambda>a. trace_edge_to B (ta_proof A) v t (the (ta_heap A' a))) (rev vec))"
  proof (rule mapE_map_Inr)
    fix a assume "a \<in> set (rev vec)"
    then have "ta_heap A' a \<in> set (map (ta_heap A') vec)" by simp
    then obtain p where "ta_heap A' a = Some p" unfolding vec by auto
    from trace_edge_single [OF this acc] this
    show "trace_edge B A' \<lparr>ti_vertex = v, ti_tag = t, state_info_vector = [a]\<rparr> =
        Inr (trace_edge_to B (ta_proof A) v t (the (ta_heap A' a)))"
      by (simp add: same)
  qed
  moreover have targets: "map (\<lambda>a. the (ta_heap A' a)) vec = ?ps"
    using arg_cong [OF vec, of "map the"] by (simp add: comp_def)
  have "map (\<lambda>a. trace_edge_to B (ta_proof A) v t (the (ta_heap A' a))) (rev vec) =
      rev (map (trace_edge_to B (ta_proof A) v t) ?ps)"
    by (simp add: targets [symmetric] rev_map comp_def)
  ultimately show ?thesis
    using ok acc by (simp add: TraceAutomaton_succ_def f trace_iter.drain_items collect_edges_def vec_ok_def)
qed

section \<open>Edges of the automaton\<close>

lemma initial_iff [simp]: "initial B (NO_VERTEX B) NO_TAG"
  by (simp add: initial_def)

context bdd_library
begin

lemma no_vertex_notin: "proof_inv B P \<Longrightarrow> NO_VERTEX B \<notin> set (vertices P)"
  using proof_invD(7) vertex_code_not_false by (fastforce simp: NO_VERTEX_def)

lemma vertex_not_initial: "proof_inv B P \<Longrightarrow> v \<in> set (vertices P) \<Longrightarrow> v \<noteq> NO_VERTEX B \<and> \<not> initial B v t"
  using no_vertex_notin by (auto simp: initial_def)

lemma no_progress_from_initial:
  "proof_inv B P \<Longrightarrow> \<not> progress_pair P (NO_VERTEX B) w t u"
  using proof_invD(5) no_vertex_notin quads_okD by (fastforce simp: progress_pair_def)

lemma trace_succ:
  assumes inv: "proof_inv B P" and v: "initial B v t \<or> v \<in> set (vertices P)"
  shows "twa_succ (TraceAutomaton B P) (TraceState v t) =
    Inr (rev (map (trace_edge_to B P v t) (trace_targets B P v t)))"
proof -
  have new: "ta_proof (TraceAutomaton_new P) = P" "ta_acc_set (TraceAutomaton_new P) = set_buchi"
    by (simp_all add: TraceAutomaton_new_def)
  from trace_succ_ok [of "TraceAutomaton_new P" B v t, unfolded new] inv v
  obtain A' where "TraceAutomaton_succ B (TraceAutomaton_new P) (TraceState v t) =
      Inr (rev (map (trace_edge_to B P v t) (trace_targets B P v t)), A')"
    by auto
  then show ?thesis by (simp add: TraceAutomaton_def)
qed

lemma edge_in_succ:
  assumes "proof_inv B P" and "initial B v t \<or> v \<in> set (vertices P)"
    and "twa_succ (TraceAutomaton B P) (TraceState v t) = Inr es"
  shows "e \<in> set es \<longleftrightarrow> (\<exists>p\<in>set (trace_targets B P v t). e = trace_edge_to B P v t p)"
proof -
  have "es = rev (map (trace_edge_to B P v t) (trace_targets B P v t))"
    using trace_succ [OF assms(1,2)] assms(3) by simp
  then show ?thesis by (auto simp only: set_rev set_map)
qed

lemma targets_initial:
  "set (trace_targets B P (NO_VERTEX B) NO_TAG) =
     insert (NO_VERTEX B, NO_TAG) {(w, u). w \<in> set (vertices P) \<and> u \<in> set (at_key (tag_map P) w)}"
  by (auto simp: trace_targets_def)

lemma targets_vertex:
  "\<not> initial B v t \<Longrightarrow> set (trace_targets B P v t) =
     {(w, u). w \<in> set (at_key (trans_map P) v) \<and> u \<in> set (at_key (tag_map P) w) \<and> trace_pair P v w t u}"
  by (auto simp: trace_targets_def)

lemma edge_to_vertex:
  "w \<noteq> NO_VERTEX B \<Longrightarrow> trace_edge_to B P v t (w, u) =
     (w, trace_mark P v w t u, TraceState w u)"
  by (simp add: trace_edge_to_def trace_mark_def set_buchi_def)

text \<open>The initial state loops on every letter and may jump to any tagged vertex.\<close>

lemma initial_edges:
  assumes inv: "proof_inv B P"
    and es: "twa_succ (TraceAutomaton B P) (TraceState (NO_VERTEX B) NO_TAG) = Inr es"
  shows "e \<in> set es \<longleftrightarrow> e = (bddtrue B, {}, TraceState (NO_VERTEX B) NO_TAG) \<or>
    (\<exists>c u. c \<in> set (vertices P) \<and> u \<in> set (at_key (tag_map P) c) \<and> e = (c, {}, TraceState c u))"
    (is "_ \<longleftrightarrow> ?loop \<or> ?jump")
proof -
  have loop: "trace_edge_to B P (NO_VERTEX B) NO_TAG (NO_VERTEX B, NO_TAG) =
      (bddtrue B, {}, TraceState (NO_VERTEX B) NO_TAG)"
    by (simp add: trace_edge_to_def no_progress_from_initial [OF inv])
  have jump: "trace_edge_to B P (NO_VERTEX B) NO_TAG (c, u) = (c, {}, TraceState c u)"
    if "c \<in> set (vertices P)" for c u
    using vertex_not_initial [OF inv that] by (simp add: edge_to_vertex trace_mark_def no_progress_from_initial [OF inv])
  have "initial B (NO_VERTEX B) NO_TAG \<or> NO_VERTEX B \<in> set (vertices P)" by simp
  note edges = edge_in_succ [OF inv this es]
  show ?thesis unfolding edges targets_initial by (auto simp: loop jump)
qed

text \<open>From a vertex and a tag the automaton follows the trace pairs along the proof's edges.\<close>

lemma vertex_edges:
  assumes inv: "proof_inv B P" and v: "v \<in> set (vertices P)"
    and es: "twa_succ (TraceAutomaton B P) (TraceState v t) = Inr es"
  shows "e \<in> set es \<longleftrightarrow> (\<exists>c u. c \<in> set (at_key (trans_map P) v) \<and> trace_pair P v c t u \<and>
    e = (c, trace_mark P v c t u, TraceState c u))"
proof -
  have tag: "u \<in> set (at_key (tag_map P) c)" if "trace_pair P v c t u" for c u
    using quads_okD [OF proof_invD(4) [OF inv]] that by (auto simp: trace_pair_def)
  have vert: "c \<noteq> NO_VERTEX B" if "c \<in> set (at_key (trans_map P) v)" for c
    using vertex_not_initial [OF inv] proof_inv_successors [OF inv that] by blast
  have ni: "\<not> initial B v t" using vertex_not_initial [OF inv v] by blast
  from v have "initial B v t \<or> v \<in> set (vertices P)" by simp
  note edges = edge_in_succ [OF inv this es]
  show ?thesis
    unfolding edges targets_vertex [OF ni]
    by (auto simp: edge_to_vertex [OF vert]) (metis edge_to_vertex tag vert)
qed

lemma trace_automaton_states:
  assumes inv: "proof_inv B P"
  shows "twa_safe (TraceAutomaton B P)" "{s. twa_reachable (TraceAutomaton B P) s} \<subseteq> trace_states B P"
proof -
  have closed: "\<exists>es. twa_succ (TraceAutomaton B P) s = Inr es \<and> (\<forall>(c, m, s') \<in> set es. s' \<in> trace_states B P)"
    if s: "s \<in> trace_states B P" for s
  proof (cases "s = TraceState (NO_VERTEX B) NO_TAG")
    case True
    then obtain es where "twa_succ (TraceAutomaton B P) s = Inr es" using trace_succ [OF inv] by auto
    with True initial_edges [OF inv, of es] show ?thesis by (fastforce simp: trace_states_def)
  next
    case False
    with s obtain v t where v: "s = TraceState v t" "v \<in> set (vertices P)" by (auto simp: trace_states_def)
    then obtain es where es: "twa_succ (TraceAutomaton B P) s = Inr es" using trace_succ [OF inv] by auto
    with v vertex_edges [OF inv v(2), of t es] quads_okD [OF proof_invD(4) [OF inv]] show ?thesis
      by (fastforce simp: trace_states_def trace_pair_def)
  qed
  have start: "twa_init (TraceAutomaton B P) \<in> trace_states B P"
    by (simp add: TraceAutomaton_def trace_states_def)
  show "twa_safe (TraceAutomaton B P)" "{s. twa_reachable (TraceAutomaton B P) s} \<subseteq> trace_states B P"
    using twa_safe_by_invariant [OF start closed] by auto
qed

lemma trace_automaton_finite:
  assumes "proof_inv B P"
  shows "twa_finite (TraceAutomaton B P)"
proof -
  have "trace_states B P = insert (TraceState (NO_VERTEX B) NO_TAG)
      (\<Union>v\<in>set (vertices P). TraceState v ` set (at_key (tag_map P) v))"
    by (auto simp: trace_states_def)
  then have "finite (trace_states B P)" by simp
  with trace_automaton_states(2) [OF assms] show ?thesis by (simp add: twa_finite_def finite_subset)
qed

end

end
