(* ===== verification/Containment.thy ===== *)
theory Containment
  imports Proof_Aut Trace_Aut
begin

text \<open>
  What the language inclusion between the two automata means: a word of the proof automaton
  spells an infinite path of the proof, and the trace automaton accepts it exactly when a
  trace follows some tail of the path and progresses infinitely often.
\<close>

section \<open>From a progressing path to an accepting run\<close>

context bdd_library
begin

definition run_of :: "nat \<Rightarrow> (nat \<Rightarrow> 'b) \<Rightarrow> (nat \<Rightarrow> tag) \<Rightarrow> nat \<Rightarrow> 'b spot_state" where
  "run_of n p t i = (if i \<le> n then TraceState (NO_VERTEX B) NO_TAG else TraceState (p (i - 1)) (t (i - 1)))"

definition label_of :: "'b cxx_proof \<Rightarrow> nat \<Rightarrow> (nat \<Rightarrow> 'b) \<Rightarrow> (nat \<Rightarrow> tag) \<Rightarrow> nat \<Rightarrow> 'b \<times> mark" where
  "label_of P n p t i =
     (if i < n then (bddtrue B, {}) else if i = n then (p n, {})
      else (p i, trace_mark P (p (i - 1)) (p i) (t (i - 1)) (t i)))"

lemma run_of_step:
  assumes inv: "proof_inv B P" and pv: "\<And>i. p i \<in> set (vertices P)"
    and edge: "\<And>i. p (Suc i) \<in> set (at_key (trans_map P) (p i))"
    and tr: "\<And>i. n \<le> i \<Longrightarrow> trace_pair P (p i) (p (Suc i)) (t i) (t (Suc i))"
    and sat: "\<And>i. bdd_sat B (p i) (w i)"
  shows "\<exists>es. twa_succ (TraceAutomaton B P) (run_of n p t i) = Inr es \<and>
    (fst (label_of P n p t i), snd (label_of P n p t i), run_of n p t (Suc i)) \<in> set es \<and>
    bdd_sat B (fst (label_of P n p t i)) (w i)"
proof (cases "i \<le> n")
  case True
  obtain es where es: "twa_succ (TraceAutomaton B P) (TraceState (NO_VERTEX B) NO_TAG) = Inr es"
    using trace_succ [OF inv] by auto
  have "t n \<in> set (at_key (tag_map P) (p n))"
    using tr [of n] quads_okD [OF proof_invD(4) [OF inv]] by (auto simp: trace_pair_def)
  with True es sat [of i] pv [of n] show ?thesis
    by (cases "i = n") (auto simp: run_of_def label_of_def initial_edges [OF inv es])
next
  case False
  then obtain j where j: "i = Suc j" "n \<le> j" by (cases i) auto
  obtain es where es: "twa_succ (TraceAutomaton B P) (TraceState (p j) (t j)) = Inr es"
    using trace_succ [OF inv] pv by auto
  with j sat [of i] edge [of j] tr [OF j(2)] show ?thesis
    by (auto simp: run_of_def label_of_def vertex_edges [OF inv pv es])
qed

lemma progressing_accepted:
  assumes inv: "proof_inv B P" and init: "initial_vertex P \<in> set (vertices P)"
    and p: "tg_path (proof_graph P) (initial_vertex P) p" and sat: "\<And>i. bdd_sat B (p i) (w i)"
    and pr: "path_progressing (proof_graph P) p"
  shows "w \<in> twa_lang B (TraceAutomaton B P)"
proof -
  obtain n t where tr: "\<And>i. n \<le> i \<Longrightarrow> trace_pair P (p i) (p (Suc i)) (t i) (t (Suc i))"
    and prog: "\<And>m. \<exists>i\<ge>m. progress_pair P (p i) (p (Suc i)) (t i) (t (Suc i))"
    using pr unfolding path_progressing_def progressing_def proof_graph_def by auto
  have edge: "p (Suc i) \<in> set (at_key (trans_map P) (p i))" for i
    using tg_path_edge [OF p, of i] by (simp add: proof_graph_def)
  have pv: "p i \<in> set (vertices P)" for i
    using proof_inv_successors [OF inv edge] by blast
  have "twa_run B (TraceAutomaton B P) w (run_of n p t) (label_of P n p t)"
    unfolding twa_run_def
  proof (intro conjI allI)
    show "run_of n p t 0 = twa_init (TraceAutomaton B P)" by (simp add: run_of_def TraceAutomaton_def)
  qed (rule run_of_step, (fact inv pv edge tr sat)+)
  moreover have "\<exists>i\<ge>m. 0 \<in> snd (label_of P n p t i)" for m
  proof -
    obtain i where i: "max m n \<le> i" "progress_pair P (p i) (p (Suc i)) (t i) (t (Suc i))" using prog by blast
    then have "0 \<in> snd (label_of P n p t (Suc i))" by (simp add: label_of_def trace_mark_def)
    with i(1) show ?thesis by (intro exI [of _ "Suc i"]) simp
  qed
  ultimately show ?thesis by (auto simp: twa_lang_def)
qed

section \<open>From an accepting run to a progressing path\<close>

text \<open>The vertex that a letter of the word of a path determines.\<close>

lemma vertex_sat_unique:
  assumes "proof_inv B P" "v \<in> set (vertices P)" "v' \<in> set (vertices P)" "bdd_sat B v s" "bdd_sat B v' s"
  shows "v = v'"
  using assms proof_invD(7,8,9) [OF assms(1)] vertex_code_disjoint by fastforce

text \<open>A run is in the initial state up to some point and on vertices ever after.\<close>

lemma run_shape:
  assumes inv: "proof_inv B P" and run: "twa_run B (TraceAutomaton B P) w r l"
    and i: "r i = TraceState v t" "v \<in> set (vertices P)"
  shows "\<exists>v' t'. r (Suc i) = TraceState v' t' \<and> v' \<in> set (vertices P) \<and> bdd_sat B v' (w i) \<and>
    trace_pair P v v' t t' \<and> snd (l i) = trace_mark P v v' t t'"
proof -
  obtain es where es: "twa_succ (TraceAutomaton B P) (r i) = Inr es"
    "(fst (l i), snd (l i), r (Suc i)) \<in> set es" "bdd_sat B (fst (l i)) (w i)"
    using run unfolding twa_run_def by blast
  with vertex_edges [OF inv i(2) es(1) [unfolded i(1)]] proof_inv_successors [OF inv] show ?thesis
    by auto
qed

lemma initial_step:
  assumes inv: "proof_inv B P" and run: "twa_run B (TraceAutomaton B P) w r l"
    and i: "r i = TraceState (NO_VERTEX B) NO_TAG"
  shows "snd (l i) = {} \<and> (r (Suc i) = TraceState (NO_VERTEX B) NO_TAG \<or>
    (\<exists>v t. r (Suc i) = TraceState v t \<and> v \<in> set (vertices P) \<and> bdd_sat B v (w i)))"
proof -
  obtain es where es: "twa_succ (TraceAutomaton B P) (r i) = Inr es"
    "(fst (l i), snd (l i), r (Suc i)) \<in> set es" "bdd_sat B (fst (l i)) (w i)"
    using run unfolding twa_run_def by blast
  with initial_edges [OF inv es(1) [unfolded i]] show ?thesis by auto
qed

lemma accepted_progressing:
  assumes inv: "proof_inv B P" and init: "initial_vertex P \<in> set (vertices P)"
    and p: "tg_path (proof_graph P) (initial_vertex P) p" and sat: "\<And>i. bdd_sat B (p i) (w i)"
    and acc: "w \<in> twa_lang B (TraceAutomaton B P)"
  shows "path_progressing (proof_graph P) p"
proof -
  obtain r l where run: "twa_run B (TraceAutomaton B P) w r l" and marks: "\<And>m. \<exists>i\<ge>m. 0 \<in> snd (l i)"
    using acc by (auto simp: twa_lang_def)
  have pv: "p i \<in> set (vertices P)" for i
    using tg_path_edge [OF p, of i] proof_inv_successors [OF inv] by (fastforce simp: proof_graph_def)
  have r0: "r 0 = TraceState (NO_VERTEX B) NO_TAG" using run by (simp add: twa_run_def TraceAutomaton_def)
  have leave: "\<exists>n v t. r (Suc n) = TraceState v t \<and> v \<in> set (vertices P) \<and> bdd_sat B v (w n)"
  proof (rule ccontr)
    assume "\<not> ?thesis"
    then have "r i = TraceState (NO_VERTEX B) NO_TAG" for i
      by (induction i) (use r0 initial_step [OF inv run] in blast)+
    then have "snd (l i) = {}" for i using initial_step [OF inv run] by blast
    with marks show False by auto
  qed
  then obtain n v0 t0 where n: "r (Suc n) = TraceState v0 t0" "v0 \<in> set (vertices P)" "bdd_sat B v0 (w n)" by blast
  have on: "\<exists>u. r (Suc i) = TraceState (p i) u" if "n \<le> i" for i
    using that
  proof (induction i rule: dec_induct)
    case base
    with n vertex_sat_unique [OF inv n(2) pv n(3) sat] show ?case by auto
  next
    case (step i)
    then obtain u where u: "r (Suc i) = TraceState (p i) u" by blast
    from run_shape [OF inv run u pv] vertex_sat_unique [OF inv _ pv _ sat] show ?case by metis
  qed
  then obtain t where t: "\<And>i. n \<le> i \<Longrightarrow> r (Suc i) = TraceState (p i) (t i)" by metis
  have step: "trace_pair P (p i) (p (Suc i)) (t i) (t (Suc i)) \<and>
      snd (l (Suc i)) = trace_mark P (p i) (p (Suc i)) (t i) (t (Suc i))" if "n \<le> i" for i
    using run_shape [OF inv run t [OF that] pv] t [of "Suc i"] that by auto
  show ?thesis
    unfolding path_progressing_def
  proof (rule progressingI [where n = n and t = t])
    show "(t i, t (Suc i)) \<in> tg_valid (proof_graph P) (p i) (p (Suc i))" if "n \<le> i" for i
      using step [OF that] by (simp add: proof_graph_def)
    fix m
    obtain j where j: "Suc (max m n) \<le> j" "0 \<in> snd (l j)" using marks by blast
    then obtain i where i: "j = Suc i" "m \<le> i" "n \<le> i" by (cases j) auto
    with j step [OF i(3)] show "\<exists>i\<ge>m. (t i, t (Suc i)) \<in> tg_prog (proof_graph P) (p i) (p (Suc i))"
      by (intro exI [of _ i]) (auto simp: proof_graph_def trace_mark_def split: if_splits)
  qed
qed

section \<open>Language inclusion is the global trace condition\<close>

text \<open>Every path of the proof has a word, which the minterms of its vertices determine.\<close>

lemma path_word:
  assumes inv: "proof_inv B P" and pv: "\<And>i. p i \<in> set (vertices P)"
  shows "\<exists>w. \<forall>i. bdd_sat B (p i) (w i)"
proof -
  have "\<exists>s. bdd_sat B (p i) s" for i
    using pv [of i] unfolding proof_invD(7) [OF inv] by (metis code_valuation_sat imageE)
  then show ?thesis by metis
qed

lemma inclusion_iff_gtc:
  assumes inv: "proof_inv B P" and init: "initial_vertex P \<in> set (vertices P)"
  shows "twa_lang B (ProofAutomaton P) \<subseteq> twa_lang B (TraceAutomaton B P) \<longleftrightarrow>
    gtc (proof_graph P) (initial_vertex P)"
proof
  assume sub: "twa_lang B (ProofAutomaton P) \<subseteq> twa_lang B (TraceAutomaton B P)"
  show "gtc (proof_graph P) (initial_vertex P)"
  proof (rule gtcI)
    fix p assume p: "tg_path (proof_graph P) (initial_vertex P) p"
    have "p i \<in> set (vertices P)" for i
      using tg_path_edge [OF p, of i] proof_inv_successors [OF inv] by (fastforce simp: proof_graph_def)
    then obtain w where sat: "\<And>i. bdd_sat B (p i) (w i)" using path_word [OF inv] by metis
    with p have "w \<in> twa_lang B (ProofAutomaton P)" using proof_lang [OF inv init] by blast
    with sub accepted_progressing [OF inv init p sat] show "path_progressing (proof_graph P) p" by blast
  qed
next
  assume "gtc (proof_graph P) (initial_vertex P)"
  then show "twa_lang B (ProofAutomaton P) \<subseteq> twa_lang B (TraceAutomaton B P)"
    using progressing_accepted [OF inv init] proof_lang [OF inv init] gtcD by (metis subsetI)
qed

end

end
