(* ===== verification/Soundness.thy ===== *)
theory Soundness
  imports Containment
begin

text \<open>
  The C interface of the checker (soundness.c): the two global variables, and one
  definition per exported function. The theory shows that the interface builds, call by
  call, a proof graph that mirrors the calls, and what \<^verbatim>\<open>check_soundness\<close> answers for it.
\<close>

section \<open>The global state and the exported functions\<close>

text \<open>\<^verbatim>\<open>static std::shared_ptr<ProofAutomaton> proof = 0\<close> and \<^verbatim>\<open>static std::map<int, Vertex> bdd_map\<close>.\<close>

record 'b checker =
  ck_proof :: "'b cxx_proof option"
  bdd_map :: "int \<rightharpoonup> 'b"

definition idle :: "'b checker" where
  "idle = \<lparr>ck_proof = None, bdd_map = Map.empty\<rparr>"

text \<open>\<^verbatim>\<open>Int_val\<close> reads an OCaml integer as a C \<^verbatim>\<open>int\<close> of 32 bits.\<close>

definition Int_val :: "int \<Rightarrow> int" where
  "Int_val x = signed_take_bit 31 x"

definition to_size_t :: "int \<Rightarrow> nat" where
  "to_size_t x = nat (take_bit 64 x)"

definition create_aut :: "'b bdd_pkg \<Rightarrow> int \<Rightarrow> 'b checker \<Rightarrow> 'b checker result" where
  "create_aut B max_log2_states st =
     asserting ''proof==0'' (ck_proof st = None)
       (Inr (st\<lparr>ck_proof := Some (Proof_new B (to_size_t (Int_val max_log2_states)))\<rparr>))"

text \<open>\<^verbatim>\<open>assert(proof)\<close> followed by the use of \<^verbatim>\<open>proof\<close>.\<close>

definition with_proof :: "'b checker \<Rightarrow> ('b cxx_proof \<Rightarrow> 'a result) \<Rightarrow> 'a result" where
  "with_proof st k = (case ck_proof st of None \<Rightarrow> Inl (Assert_failure ''proof'') | Some P \<Rightarrow> k P)"

text \<open>\<^verbatim>\<open>assert(bdd_map.find(v) != bdd_map.end())\<close> followed by the use of \<^verbatim>\<open>bdd_map[v]\<close>.\<close>

definition with_vertex :: "'b checker \<Rightarrow> int \<Rightarrow> ('b \<Rightarrow> 'a result) \<Rightarrow> 'a result" where
  "with_vertex st v k =
     (case bdd_map st v of None \<Rightarrow> Inl (Assert_failure ''bdd_map.find(v) != bdd_map.end()'') | Some x \<Rightarrow> k x)"

definition put_proof :: "'b checker \<Rightarrow> 'b cxx_proof result \<Rightarrow> 'b checker result" where
  "put_proof st r = bindE r (\<lambda>P. Inr (st\<lparr>ck_proof := Some P\<rparr>))"

definition destroy_aut :: "'b checker \<Rightarrow> 'b checker result" where
  "destroy_aut st = with_proof st (\<lambda>_. Inr (st\<lparr>ck_proof := None, bdd_map := Map.empty\<rparr>))"

definition create_vertex :: "'b bdd_pkg \<Rightarrow> int \<Rightarrow> 'b checker \<Rightarrow> 'b checker result" where
  "create_vertex B v' st =
     with_proof st (\<lambda>P. bindE (Proof_create_vertex B P) (\<lambda>(v, P').
       let id = Int_val v' in
       asserting ''bdd_map.find(id) == bdd_map.end()'' (bdd_map st id = None)
         (Inr (st\<lparr>ck_proof := Some P', bdd_map := (bdd_map st)(id \<mapsto> v)\<rparr>))))"

definition tag_vertex :: "int \<Rightarrow> int \<Rightarrow> 'b checker \<Rightarrow> 'b checker result" where
  "tag_vertex v' t' st =
     with_proof st (\<lambda>P. with_vertex st (Int_val v') (\<lambda>v.
       put_proof st (Proof_tag_vertex P v (Int_val t'))))"

definition set_successor :: "int \<Rightarrow> int \<Rightarrow> 'b checker \<Rightarrow> 'b checker result" where
  "set_successor v1' v2' st =
     with_proof st (\<lambda>P. with_vertex st (Int_val v1') (\<lambda>v1. with_vertex st (Int_val v2') (\<lambda>v2.
       put_proof st (Proof_set_successor P v1 v2))))"

definition set_trace_pair :: "int \<Rightarrow> int \<Rightarrow> int \<Rightarrow> int \<Rightarrow> 'b checker \<Rightarrow> 'b checker result" where
  "set_trace_pair v1' v2' t1' t2' st =
     with_proof st (\<lambda>P. with_vertex st (Int_val v1') (\<lambda>v1. with_vertex st (Int_val v2') (\<lambda>v2.
       put_proof st (Proof_set_trace_pair P v1 v2 (Int_val t1') (Int_val t2')))))"

definition set_progress_pair :: "int \<Rightarrow> int \<Rightarrow> int \<Rightarrow> int \<Rightarrow> 'b checker \<Rightarrow> 'b checker result" where
  "set_progress_pair v1' v2' t1' t2' st =
     with_proof st (\<lambda>P. with_vertex st (Int_val v1') (\<lambda>v1. with_vertex st (Int_val v2') (\<lambda>v2.
       put_proof st (Proof_set_progress_pair P v1 v2 (Int_val t1') (Int_val t2')))))"

text \<open>\<^verbatim>\<open>check_soundness\<close> has no \<^verbatim>\<open>assert(proof)\<close>: without a proof it dereferences a null pointer.\<close>

definition check_soundness :: "'b bdd_pkg \<Rightarrow> ('b, 'g) spot_pkg \<Rightarrow> 'b checker \<Rightarrow> bool result" where
  "check_soundness B S st =
     (case ck_proof st of
        None \<Rightarrow> Inl Null_dereference
      | Some P \<Rightarrow>
          bindE (make_twa_graph S (TraceAutomaton B P)) (\<lambda>graph.
          bindE (make_twa_graph S (ProofAutomaton P)) (\<lambda>prf.
          Inr (graph_contains S graph prf))))"

definition set_initial_vertex :: "int \<Rightarrow> 'b checker \<Rightarrow> 'b checker result" where
  "set_initial_vertex v' st =
     with_proof st (\<lambda>P. with_vertex st (Int_val v') (\<lambda>v. put_proof st (Proof_set_initial_vertex P v)))"

section \<open>Runs of calls\<close>

datatype call =
    Create_aut int
  | Destroy_aut
  | Create_vertex int
  | Tag_vertex int int
  | Set_successor int int
  | Set_trace_pair int int int int
  | Set_progress_pair int int int int
  | Check_soundness
  | Set_initial_vertex int

definition do_call :: "'b bdd_pkg \<Rightarrow> ('b, 'g) spot_pkg \<Rightarrow> call \<Rightarrow> 'b checker \<Rightarrow> 'b checker result" where
  "do_call B S c st =
     (case c of
        Create_aut k \<Rightarrow> create_aut B k st
      | Destroy_aut \<Rightarrow> destroy_aut st
      | Create_vertex v \<Rightarrow> create_vertex B v st
      | Tag_vertex v t \<Rightarrow> tag_vertex v t st
      | Set_successor v w \<Rightarrow> set_successor v w st
      | Set_trace_pair v w t u \<Rightarrow> set_trace_pair v w t u st
      | Set_progress_pair v w t u \<Rightarrow> set_progress_pair v w t u st
      | Check_soundness \<Rightarrow> bindE (check_soundness B S st) (\<lambda>_. Inr st)
      | Set_initial_vertex v \<Rightarrow> set_initial_vertex v st)"

text \<open>
  The protocol of the interface, without its data: whether a proof is there after the calls,
  or \<open>None\<close> if a call needs a proof where there is none, or makes one where there is one.
\<close>

fun session :: "bool \<Rightarrow> call list \<Rightarrow> bool option" where
  "session there [] = Some there"
| "session there (Create_aut k # cs) = (if there then None else session True cs)"
| "session there (Destroy_aut # cs) = (if there then session False cs else None)"
| "session there (c # cs) = (if there then session True cs else None)"

text \<open>
  The state between two calls: either nothing at all, or a proof that the methods can
  produce, each of whose vertices has a number and whose numbers all stand for vertices.
\<close>

definition ck_inv :: "'b bdd_pkg \<Rightarrow> 'b checker \<Rightarrow> bool" where
  "ck_inv B st \<longleftrightarrow>
     (case ck_proof st of
        None \<Rightarrow> st = idle
      | Some P \<Rightarrow> (\<exists>k. proof_reachable B k P) \<and> ran (bdd_map st) = set (vertices P))"

section \<open>What the calls build\<close>

definition c_range :: "int \<Rightarrow> bool" where
  "c_range x \<longleftrightarrow> - 2147483648 \<le> x \<and> x < 2147483648"

lemma Int_val_id [simp]: "c_range x \<Longrightarrow> Int_val x = x"
  by (simp add: Int_val_def c_range_def signed_take_bit_int_eq_self)

text \<open>
  The abstract view of the checker after a sequence of calls: node identifiers \<open>K\<close>, their
  tags \<open>T\<close>, successors \<open>E\<close>, trace pairs \<open>V\<close> and progress pairs \<open>D\<close>, all in terms of the
  caller's numbers; \<open>f\<close> is the vertex of a node.
\<close>

record view =
  vw_log2 :: nat
  vw_init :: "int option"
  vw_nodes :: "int set"
  vw_tags :: "int \<Rightarrow> int set"
  vw_succs :: "int \<Rightarrow> int set"
  vw_pairs :: "(int \<times> int \<times> int \<times> int) set"
  vw_progs :: "(int \<times> int \<times> int \<times> int) set"

definition view_ok :: "view \<Rightarrow> bool" where
  "view_ok W \<longleftrightarrow> finite (vw_nodes W) \<and> (\<forall>k. vw_init W = Some k \<longrightarrow> k \<in> vw_nodes W) \<and>
     (\<forall>k\<in>vw_nodes W. c_range k \<and> vw_succs W k \<subseteq> vw_nodes W) \<and>
     (\<forall>i j t u. (i, j, t, u) \<in> vw_pairs W \<union> vw_progs W \<longrightarrow> i \<in> vw_nodes W \<and> j \<in> vw_nodes W)"

definition quad_image :: "(int \<Rightarrow> 'b) \<Rightarrow> (int \<times> int \<times> int \<times> int) set \<Rightarrow> 'b quad set" where
  "quad_image f Q = (\<lambda>(i, j, t, u). (f i, f j, t, u)) ` Q"

definition represents :: "'b bdd_pkg \<Rightarrow> (int \<Rightarrow> 'b) \<Rightarrow> view \<Rightarrow> 'b cxx_proof \<Rightarrow> 'b checker \<Rightarrow> bool" where
  "represents B f W P st \<longleftrightarrow> ck_proof st = Some P \<and> proof_inv B P \<and> view_ok W \<and>
     max_vertices_log2 P = vw_log2 W \<and> last_vertex P = int (card (vw_nodes W)) \<and>
     initial_vertex P = (case vw_init W of None \<Rightarrow> NO_VERTEX B | Some k \<Rightarrow> f k) \<and>
     inj_on f (vw_nodes W) \<and> set (vertices P) = f ` vw_nodes W \<and>
     (\<forall>k. bdd_map st k = (if k \<in> vw_nodes W then Some (f k) else None)) \<and>
     (\<forall>k\<in>vw_nodes W. set (at_key (tag_map P) (f k)) = vw_tags W k \<and>
        set (at_key (trans_map P) (f k)) = f ` vw_succs W k) \<and>
     trace_pairs P = quad_image f (vw_pairs W) \<and> progress_pairs P = quad_image f (vw_progs W)"

text \<open>The trace graph of a view.\<close>

definition view_graph :: "view \<Rightarrow> (int, int) tgraph" where
  "view_graph W =
     \<lparr>tg_edge = (\<lambda>i j. i \<in> vw_nodes W \<and> j \<in> vw_succs W i),
      tg_valid = (\<lambda>i j. {(t, u). (i, j, t, u) \<in> vw_pairs W}),
      tg_prog = (\<lambda>i j. {(t, u). (i, j, t, u) \<in> vw_progs W})\<rparr>"

lemma representsD:
  assumes "represents B f W P st"
  shows "ck_proof st = Some P" "proof_inv B P" "view_ok W" "inj_on f (vw_nodes W)"
    "set (vertices P) = f ` vw_nodes W"
    "k \<in> vw_nodes W \<Longrightarrow> bdd_map st k = Some (f k) \<and> f k \<in> set (vertices P) \<and> Int_val k = k"
    "k \<notin> vw_nodes W \<Longrightarrow> bdd_map st k = None"
    "k \<in> vw_nodes W \<Longrightarrow> set (at_key (tag_map P) (f k)) = vw_tags W k"
    "k \<in> vw_nodes W \<Longrightarrow> set (at_key (trans_map P) (f k)) = f ` vw_succs W k"
  using assms by (simp_all add: represents_def view_ok_def)

lemma inj_on_iff: "represents B f W P st \<Longrightarrow> i \<in> vw_nodes W \<Longrightarrow> j \<in> vw_nodes W \<Longrightarrow> f i = f j \<longleftrightarrow> i = j"
  by (meson inj_on_eq_iff representsD(4))

lemma with_simps [simp]:
  "ck_proof st = Some P \<Longrightarrow> with_proof st k = k P"
  "bdd_map st v = Some x \<Longrightarrow> with_vertex st v h = h x"
  "put_proof st (Inr P) = Inr (st\<lparr>ck_proof := Some P\<rparr>)"
  by (simp_all add: with_proof_def with_vertex_def put_proof_def)

subsection \<open>One lemma per call\<close>

lemma tag_vertex_rep:
  assumes r: "represents B f W P st" and k: "k \<in> vw_nodes W" and t: "c_range t"
  shows "\<exists>P' st'. tag_vertex k t st = Inr st' \<and>
    represents B f (W\<lparr>vw_tags := (vw_tags W)(k := insert t (vw_tags W k))\<rparr>) P' st'"
proof -
  note d = representsD [OF r]
  let ?P = "P\<lparr>max_tag := max (max_tag P) t, tag_map := (tag_map P)(f k \<mapsto> List.insert t (at_key (tag_map P) (f k)))\<rparr>"
  have op: "Proof_tag_vertex P (f k) t = Inr ?P"
    using d(6) [OF k] by (simp add: Proof_tag_vertex_def)
  have "represents B f (W\<lparr>vw_tags := (vw_tags W)(k := insert t (vw_tags W k))\<rparr>) ?P (st\<lparr>ck_proof := Some ?P\<rparr>)"
    using r tag_vertex_inv [OF d(2) op] inj_on_iff [OF r _ k] d(8) [OF k]
    by (simp add: represents_def view_ok_def)
  with op d(1) d(6) [OF k] t show ?thesis by (auto simp: tag_vertex_def)
qed

lemma set_successor_rep:
  assumes r: "represents B f W P st" and i: "i \<in> vw_nodes W" and j: "j \<in> vw_nodes W"
  shows "\<exists>P' st'. set_successor i j st = Inr st' \<and>
    represents B f (W\<lparr>vw_succs := (vw_succs W)(i := insert j (vw_succs W i))\<rparr>) P' st'"
proof -
  note d = representsD [OF r]
  let ?P = "P\<lparr>trans_map := (trans_map P)(f i \<mapsto> List.insert (f j) (at_key (trans_map P) (f i)))\<rparr>"
  have op: "Proof_set_successor P (f i) (f j) = Inr ?P"
    using d(6) [OF i] d(6) [OF j] by (simp add: Proof_set_successor_def)
  have "represents B f (W\<lparr>vw_succs := (vw_succs W)(i := insert j (vw_succs W i))\<rparr>) ?P (st\<lparr>ck_proof := Some ?P\<rparr>)"
    using r set_successor_inv [OF d(2) op] inj_on_iff [OF r _ i] d(9) [OF i] i j
    by (simp add: represents_def view_ok_def)
  with op d(1) d(6) [OF i] d(6) [OF j] show ?thesis by (auto simp: set_successor_def)
qed

lemma set_initial_vertex_rep:
  assumes r: "represents B f W P st" and k: "k \<in> vw_nodes W"
  shows "\<exists>P' st'. set_initial_vertex k st = Inr st' \<and> represents B f (W\<lparr>vw_init := Some k\<rparr>) P' st'"
proof -
  note d = representsD [OF r]
  let ?P = "P\<lparr>initial_vertex := f k\<rparr>"
  have op: "Proof_set_initial_vertex P (f k) = Inr ?P"
    using d(6) [OF k] by (simp add: Proof_set_initial_vertex_def)
  have "represents B f (W\<lparr>vw_init := Some k\<rparr>) ?P (st\<lparr>ck_proof := Some ?P\<rparr>)"
    using r set_initial_vertex_inv [OF d(2) op] k by (simp add: represents_def view_ok_def)
  with op d(1) d(6) [OF k] show ?thesis by (auto simp: set_initial_vertex_def)
qed

lemma check_pair_rep:
  assumes r: "represents B f W P st" and i: "i \<in> vw_nodes W" and j: "j \<in> vw_nodes W"
    and t: "t \<in> vw_tags W i" and u: "u \<in> vw_tags W j"
  shows "check_pair P (f i) (f j) t u = Inr P"
proof -
  note d = representsD [OF r]
  have "tag_map P (f i) \<noteq> None" "tag_map P (f j) \<noteq> None"
    using proof_invD(1) [OF d(2)] d(6) [OF i] d(6) [OF j] by auto
  then have "touch [] (f j) (touch [] (f i) (tag_map P)) = tag_map P" by (auto simp: touch_def)
  with d(6) [OF i] d(6) [OF j] d(8) [OF i] d(8) [OF j] t u show ?thesis by (simp add: check_pair_def)
qed

lemma set_trace_pair_rep:
  assumes r: "represents B f W P st" and ij: "i \<in> vw_nodes W" "j \<in> vw_nodes W"
    and tu: "t \<in> vw_tags W i" "u \<in> vw_tags W j" "c_range t" "c_range u"
  shows "\<exists>P' st'. set_trace_pair i j t u st = Inr st' \<and>
    represents B f (W\<lparr>vw_pairs := insert (i, j, t, u) (vw_pairs W)\<rparr>) P' st'"
proof -
  note d = representsD [OF r]
  let ?P = "P\<lparr>trace_pairs := insert (f i, f j, t, u) (trace_pairs P)\<rparr>"
  have op: "Proof_set_trace_pair P (f i) (f j) t u = Inr ?P"
    by (simp add: Proof_set_trace_pair_def check_pair_rep [OF r ij tu(1,2)])
  have "represents B f (W\<lparr>vw_pairs := insert (i, j, t, u) (vw_pairs W)\<rparr>) ?P (st\<lparr>ck_proof := Some ?P\<rparr>)"
    using r set_trace_pair_inv [OF d(2) op] ij by (simp add: represents_def view_ok_def quad_image_def)
  with op d(1) d(6) [OF ij(1)] d(6) [OF ij(2)] tu show ?thesis by (auto simp: set_trace_pair_def)
qed

lemma set_progress_pair_rep:
  assumes r: "represents B f W P st" and ij: "i \<in> vw_nodes W" "j \<in> vw_nodes W"
    and tu: "t \<in> vw_tags W i" "u \<in> vw_tags W j" "c_range t" "c_range u"
  shows "\<exists>P' st'. set_progress_pair i j t u st = Inr st' \<and>
    represents B f (W\<lparr>vw_progs := insert (i, j, t, u) (vw_progs W)\<rparr>) P' st'"
proof -
  note d = representsD [OF r]
  let ?P = "P\<lparr>progress_pairs := insert (f i, f j, t, u) (progress_pairs P)\<rparr>"
  have op: "Proof_set_progress_pair P (f i) (f j) t u = Inr ?P"
    by (simp add: Proof_set_progress_pair_def check_pair_rep [OF r ij tu(1,2)])
  have "represents B f (W\<lparr>vw_progs := insert (i, j, t, u) (vw_progs W)\<rparr>) ?P (st\<lparr>ck_proof := Some ?P\<rparr>)"
    using r set_progress_pair_inv [OF d(2) op] ij by (simp add: represents_def view_ok_def quad_image_def)
  with op d(1) d(6) [OF ij(1)] d(6) [OF ij(2)] tu show ?thesis by (auto simp: set_progress_pair_def)
qed

subsection \<open>Creation\<close>

definition fresh_view :: "nat \<Rightarrow> view" where
  "fresh_view k = \<lparr>vw_log2 = k, vw_init = None, vw_nodes = {}, vw_tags = (\<lambda>_. {}), vw_succs = (\<lambda>_. {}),
     vw_pairs = {}, vw_progs = {}\<rparr>"

lemma create_aut_rep:
  assumes "k < 32"
  shows "\<exists>P' st'. create_aut B (int k) idle = Inr st' \<and> represents B f (fresh_view k) P' st'"
proof -
  have "Int_val (int k) = int k" using assms by (simp add: c_range_def)
  moreover have "int k < 2 ^ 64" using assms by simp
  then have "to_size_t (int k) = k" by (simp add: to_size_t_def take_bit_int_eq_self)
  ultimately have c: "create_aut B (int k) idle = Inr (idle\<lparr>ck_proof := Some (Proof_new B k)\<rparr>)"
    by (simp add: create_aut_def idle_def)
  have "represents B f (fresh_view k) (Proof_new B k) (idle\<lparr>ck_proof := Some (Proof_new B k)\<rparr>)"
    using proof_inv_new [of B k]
    by (simp add: represents_def view_ok_def fresh_view_def idle_def quad_image_def) (simp add: Proof_new_def)
  with c show ?thesis by blast
qed

lemma quad_image_cong:
  assumes "\<And>i j t u. (i, j, t, u) \<in> Q \<Longrightarrow> i \<in> K \<and> j \<in> K" and "\<And>k. k \<in> K \<Longrightarrow> f k = g k"
  shows "quad_image f Q = quad_image g Q"
  using assms unfolding quad_image_def by (intro image_cong) fastforce+

context bdd_library
begin

lemma create_vertex_room:
  assumes inv: "proof_inv B P" and "max_vertices_log2 P < 32" and "last_vertex P + 1 < 2 ^ max_vertices_log2 P"
  shows "\<exists>v. Proof_create_vertex B P = Inr (v, install_vertex P (last_vertex P + 1) v)"
proof -
  have "last_vertex P + 1 < (2::int) ^ 31"
    using assms(2,3) power_increasing [of "max_vertices_log2 P" 31 "2::int"] by linarith
  then have "last_vertex P \<noteq> INT_MAX" by (simp add: INT_MAX_def)
  moreover have "drop_bit (max_vertices_log2 P) (last_vertex P + 1) = 0"
    using assms(3) proof_invD(8) [OF inv] by (simp add: drop_bit_eq_div div_pos_pos_trivial)
  ultimately show ?thesis using assms(2) by (auto simp: create_vertex_eq_Inr)
qed

lemma create_vertex_rep:
  assumes r: "represents B f W P st" and k: "k \<notin> vw_nodes W" "c_range k"
    and room: "vw_log2 W < 32" "int (card (vw_nodes W)) + 1 < 2 ^ vw_log2 W"
  shows "\<exists>f' P' st'. create_vertex B k st = Inr st' \<and>
    represents B f' (W\<lparr>vw_nodes := insert k (vw_nodes W), vw_tags := (vw_tags W)(k := {}),
      vw_succs := (vw_succs W)(k := {})\<rparr>) P' st'"
proof -
  note d = representsD [OF r]
  have dims: "max_vertices_log2 P = vw_log2 W" "last_vertex P = int (card (vw_nodes W))"
    using r by (auto simp: represents_def)
  obtain v where cv: "Proof_create_vertex B P = Inr (v, install_vertex P (last_vertex P + 1) v)"
    using create_vertex_room [OF d(2)] room by (auto simp: dims)
  note fresh = create_vertex_fresh [OF d(2) cv]
  let ?P = "P\<lparr>last_vertex := last_vertex P + 1, vertices := v # vertices P, tag_map := (tag_map P)(v \<mapsto> []),
      trans_map := (trans_map P)(v \<mapsto> []), vertex_names := (vertex_names P)(v \<mapsto> show_int (last_vertex P + 1))\<rparr>"
  have P': "install_vertex P (last_vertex P + 1) v = ?P" by (rule install_fresh [OF d(2) fresh(3)])
  let ?f = "f(k := v)"
  let ?W = "W\<lparr>vw_nodes := insert k (vw_nodes W), vw_tags := (vw_tags W)(k := {}), vw_succs := (vw_succs W)(k := {})\<rparr>"
  let ?st = "st\<lparr>ck_proof := Some ?P, bdd_map := (bdd_map st)(k \<mapsto> v)\<rparr>"
  have old: "?f x = f x" if "x \<in> vw_nodes W" for x using that k(1) by auto
  have fv: "f x \<noteq> v" if "x \<in> vw_nodes W" for x using d(5) fresh(3) that by auto
  have W: "view_ok ?W" using d(3) k by (auto simp: view_ok_def)
  have q: "quad_image ?f (vw_pairs W) = quad_image f (vw_pairs W)"
    "quad_image ?f (vw_progs W) = quad_image f (vw_progs W)"
    by (rule quad_image_cong [of _ "vw_nodes W"]; use d(3) old in \<open>simp add: view_ok_def\<close>)+
  have succs: "?f ` vw_succs W x = f ` vw_succs W x" if "x \<in> vw_nodes W" for x
    using d(3) that by (intro image_cong old) (auto simp: view_ok_def)
  have card: "card (insert k (vw_nodes W)) = Suc (card (vw_nodes W))"
    using d(3) k(1) by (simp add: view_ok_def)
  have init: "(case vw_init W of None \<Rightarrow> NO_VERTEX B | Some x \<Rightarrow> ?f x) =
      (case vw_init W of None \<Rightarrow> NO_VERTEX B | Some x \<Rightarrow> f x)"
    using d(3) old by (cases "vw_init W") (auto simp: view_ok_def)
  have inj: "inj_on ?f (insert k (vw_nodes W))"
    using d(4) fv k(1) by (auto simp: inj_on_def)
  have maps: "\<forall>x\<in>insert k (vw_nodes W). set (at_key (tag_map ?P) (?f x)) = vw_tags ?W x \<and>
      set (at_key (trans_map ?P) (?f x)) = ?f ` vw_succs ?W x"
  proof
    fix x assume x: "x \<in> insert k (vw_nodes W)"
    show "set (at_key (tag_map ?P) (?f x)) = vw_tags ?W x \<and> set (at_key (trans_map ?P) (?f x)) = ?f ` vw_succs ?W x"
    proof (cases "x = k")
      case False
      with x have "x \<in> vw_nodes W" by simp
      from d(8) [OF this] d(9) [OF this] fv [OF this] succs [OF this] False show ?thesis by simp
    qed simp
  qed
  have img: "set (vertices ?P) = ?f ` vw_nodes ?W"
  proof -
    have "?f ` vw_nodes W = f ` vw_nodes W" by (rule image_cong) (simp_all only: old)
    then have "?f ` insert k (vw_nodes W) = insert v (f ` vw_nodes W)" by (simp only: image_insert fun_upd_same)
    with d(5) show ?thesis by (simp del: fun_upd_apply image_insert)
  qed
  have map: "\<forall>x. bdd_map ?st x = (if x \<in> vw_nodes ?W then Some (?f x) else None)"
    using d(6,7) by auto
  have inv: "proof_inv B ?P" using create_vertex_inv [OF d(2) cv] by (simp only: P')
  have "represents B ?f ?W ?P ?st"
    unfolding represents_def
    using r W q card init inj maps img map inv by (simp add: represents_def)
  moreover have "create_vertex B k st = Inr ?st"
    using cv d(1) d(7) [OF k(1)] k(2) by (simp add: create_vertex_def P')
  ultimately show ?thesis by blast
qed

end

section \<open>What the checker answers\<close>

text \<open>The proof graph that the calls built is the graph of the view, up to the names of nodes.\<close>

lemma represents_gtc:
  assumes r: "represents B f W P st" and init: "vw_init W = Some k"
  shows "initial_vertex P = f k" "f k \<in> set (vertices P)"
    "gtc (proof_graph P) (f k) = gtc (view_graph W) k"
proof -
  note d = representsD [OF r]
  have k: "k \<in> vw_nodes W" using d(3) init by (simp add: view_ok_def)
  show "initial_vertex P = f k" using r init by (simp add: represents_def)
  show "f k \<in> set (vertices P)" using d(6) [OF k] by blast
  have sub: "vw_succs W i \<subseteq> vw_nodes W" if "i \<in> vw_nodes W" for i using d(3) that by (simp add: view_ok_def)
  have quads: "(f i, f j, t, u) \<in> quad_image f Q \<longleftrightarrow> (i, j, t, u) \<in> Q"
    if "i \<in> vw_nodes W" "j \<in> vw_nodes W" "Q \<subseteq> vw_pairs W \<union> vw_progs W" for i j t u Q
  proof
    assume "(f i, f j, t, u) \<in> quad_image f Q"
    then obtain i' j' where q: "(i', j', t, u) \<in> Q" "f i = f i'" "f j = f j'" by (auto simp: quad_image_def)
    moreover from q that(3) d(3) have "i' \<in> vw_nodes W" "j' \<in> vw_nodes W" unfolding view_ok_def by blast+
    ultimately show "(i, j, t, u) \<in> Q" using that(1,2) inj_on_iff [OF r] by metis
  qed (force simp: quad_image_def)
  have pairs: "trace_pairs P = quad_image f (vw_pairs W)" "progress_pairs P = quad_image f (vw_progs W)"
    using r by (auto simp: represents_def)
  show "gtc (proof_graph P) (f k) = gtc (view_graph W) k"
  proof (rule gtc_rename [OF d(4) k])
    fix i j
    show "j \<in> vw_nodes W" if "i \<in> vw_nodes W" "tg_edge (view_graph W) i j"
      using that sub by (auto simp: view_graph_def)
    show "tg_edge (proof_graph P) (f i) (f j) = tg_edge (view_graph W) i j"
      if "i \<in> vw_nodes W" "j \<in> vw_nodes W"
      using that d(9) inj_on_image_mem_iff [OF d(4) that(2) sub] by (simp add: proof_graph_def view_graph_def)
    show "tg_valid (proof_graph P) (f i) (f j) = tg_valid (view_graph W) i j"
      "tg_prog (proof_graph P) (f i) (f j) = tg_prog (view_graph W) i j"
      if "i \<in> vw_nodes W" "j \<in> vw_nodes W"
      using that quads [OF that, of "vw_pairs W"] quads [OF that, of "vw_progs W"]
      by (auto simp: proof_graph_def view_graph_def trace_pair_def progress_pair_def pairs)
  next
    show "w \<in> f ` vw_nodes W" if "i \<in> vw_nodes W" "tg_edge (proof_graph P) (f i) w" for i w
      using that d(9) [OF that(1)] sub [OF that(1)] by (auto simp: proof_graph_def)
  qed
qed

context spot_library
begin

lemma check_soundness_correct:
  assumes inv: "proof_inv B P" and "ck_proof st = Some P" and init: "initial_vertex P \<in> set (vertices P)"
  shows "check_soundness B S st = Inr (gtc (proof_graph P) (initial_vertex P))"
proof -
  obtain g h where "make_twa_graph S (TraceAutomaton B P) = Inr g" "make_twa_graph S (ProofAutomaton P) = Inr h"
    "graph_contains S g h = (twa_lang B (ProofAutomaton P) \<subseteq> twa_lang B (TraceAutomaton B P))"
    using contains_copies [OF trace_automaton_states(1) [OF inv] trace_automaton_finite [OF inv]
        proof_automaton_states(1) [OF inv init] proof_automaton_finite [OF inv init]] by blast
  with assms inclusion_iff_gtc [OF inv init] show ?thesis by (simp add: check_soundness_def)
qed

lemma check_soundness_rep:
  assumes r: "represents B f W P st" and init: "vw_init W = Some k"
  shows "check_soundness B S st = Inr (gtc (view_graph W) k)"
  using check_soundness_correct [OF representsD(2,1) [OF r]] represents_gtc [OF assms] by simp

end

lemma destroy_aut_rep: "represents B f W P st \<Longrightarrow> destroy_aut st = Inr idle"
  by (simp add: destroy_aut_def idle_def representsD(1))

section \<open>Runs from the start\<close>

lemmas call_defs = create_aut_def destroy_aut_def create_vertex_def tag_vertex_def set_successor_def
  set_trace_pair_def set_progress_pair_def set_initial_vertex_def check_soundness_def with_proof_def

lemma session_append: "session b (cs @ ds) = Option.bind (session b cs) (\<lambda>b. session b ds)"
  by (induction b cs rule: session.induct) auto

text \<open>A call out of order fails, \<^verbatim>\<open>check_soundness\<close> by a null pointer, the others by their assertions.\<close>

lemma call_out_of_order:
  assumes "session (ck_proof st \<noteq> None) [c] = None"
  shows "do_call B S c st = Inl (case c of Check_soundness \<Rightarrow> Null_dereference
    | Create_aut _ \<Rightarrow> Assert_failure ''proof==0'' | _ \<Rightarrow> Assert_failure ''proof'')"
  using assms by (cases c) (auto simp: do_call_def call_defs split: if_splits)

lemma proof_reachable_step: "proof_reachable B k P \<Longrightarrow> proof_step B P P' \<Longrightarrow> proof_reachable B k P'"
  by (auto simp: proof_reachable_def)

context bdd_library
begin

text \<open>A method that adds no vertex leaves the numbers right.\<close>

lemma put_proof_inv:
  assumes "ck_proof st = Some P" and "ck_inv B st" and "put_proof st r = Inr st'"
    and "\<And>P'. r = Inr P' \<Longrightarrow> proof_step B P P' \<and> vertices P' = vertices P"
  shows "ck_inv B st' \<and> ck_proof st' \<noteq> None"
proof -
  obtain P' where P': "r = Inr P'" "st' = st\<lparr>ck_proof := Some P'\<rparr>" using assms(3) by (auto simp: put_proof_def bindE_eq_Inr)
  obtain k where "proof_reachable B k P" using assms(1,2) by (auto simp: ck_inv_def)
  from proof_reachable_step [OF this] assms(4) [OF P'(1)] have "proof_reachable B k P'" by blast
  with assms(1,2) assms(4) [OF P'(1)] show ?thesis by (auto simp: ck_inv_def P'(2))
qed

lemma method_vertices:
  "Proof_tag_vertex P v t = Inr P' \<Longrightarrow> vertices P' = vertices P"
  "Proof_set_initial_vertex P v = Inr P' \<Longrightarrow> vertices P' = vertices P"
  "Proof_set_successor P v w = Inr P' \<Longrightarrow> vertices P' = vertices P"
  "Proof_set_trace_pair P v w t u = Inr P' \<Longrightarrow> vertices P' = vertices P"
  "Proof_set_progress_pair P v w t u = Inr P' \<Longrightarrow> vertices P' = vertices P"
  by (auto simp: method_defs result_cases)

lemma create_vertex_ck_inv:
  assumes "ck_inv B st" and "create_vertex B n st = Inr st'"
  shows "ck_inv B st' \<and> ck_proof st' \<noteq> None"
proof -
  obtain P v P' where P: "ck_proof st = Some P" and c: "Proof_create_vertex B P = Inr (v, P')"
    and new: "bdd_map st (Int_val n) = None" and st': "st' = st\<lparr>ck_proof := Some P', bdd_map := (bdd_map st)(Int_val n \<mapsto> v)\<rparr>"
    using assms(2) by (auto simp: create_vertex_def with_proof_def result_cases Let_def split: option.splits)
  obtain k where k: "proof_reachable B k P" and r: "ran (bdd_map st) = set (vertices P)" using P assms(1) by (auto simp: ck_inv_def)
  from proof_reachable_step [OF k proof_step.step_create_vertex [OF c]] have k': "proof_reachable B k P'" .
  note fresh = create_vertex_fresh [OF proof_reachable_inv [OF k] c]
  have "set (vertices P') = insert v (set (vertices P))"
    unfolding fresh(5) install_fresh [OF proof_reachable_inv [OF k] fresh(3)] by simp
  with k' r new show ?thesis by (auto simp: ck_inv_def st')
qed

lemma method_call_inv:
  assumes inv: "ck_inv B st" and c: "do_call B S c st = Inr st'"
    and "\<not> (\<exists>k. c = Create_aut k)" and "c \<noteq> Destroy_aut" and "\<not> (\<exists>v. c = Create_vertex v)" and "c \<noteq> Check_soundness"
  shows "ck_inv B st' \<and> ck_proof st' \<noteq> None"
proof -
  note steps = proof_step.intros(2-6) method_vertices
  show ?thesis
  proof (cases c)
    case (Tag_vertex v t)
    with c obtain P x where "ck_proof st = Some P" "put_proof st (Proof_tag_vertex P x (Int_val t)) = Inr st'"
      by (auto simp: do_call_def tag_vertex_def with_proof_def with_vertex_def split: option.splits)
    then show ?thesis by (rule put_proof_inv [OF _ inv]) (blast intro: steps)
  next
    case (Set_successor v w)
    with c obtain P x y where "ck_proof st = Some P" "put_proof st (Proof_set_successor P x y) = Inr st'"
      by (auto simp: do_call_def set_successor_def with_proof_def with_vertex_def split: option.splits)
    then show ?thesis by (rule put_proof_inv [OF _ inv]) (blast intro: steps)
  next
    case (Set_trace_pair v w t u)
    with c obtain P x y where "ck_proof st = Some P" "put_proof st (Proof_set_trace_pair P x y (Int_val t) (Int_val u)) = Inr st'"
      by (auto simp: do_call_def set_trace_pair_def with_proof_def with_vertex_def split: option.splits)
    then show ?thesis by (rule put_proof_inv [OF _ inv]) (blast intro: steps)
  next
    case (Set_progress_pair v w t u)
    with c obtain P x y where "ck_proof st = Some P" "put_proof st (Proof_set_progress_pair P x y (Int_val t) (Int_val u)) = Inr st'"
      by (auto simp: do_call_def set_progress_pair_def with_proof_def with_vertex_def split: option.splits)
    then show ?thesis by (rule put_proof_inv [OF _ inv]) (blast intro: steps)
  next
    case (Set_initial_vertex v)
    with c obtain P x where "ck_proof st = Some P" "put_proof st (Proof_set_initial_vertex P x) = Inr st'"
      by (auto simp: do_call_def set_initial_vertex_def with_proof_def with_vertex_def split: option.splits)
    then show ?thesis by (rule put_proof_inv [OF _ inv]) (blast intro: steps)
  qed (use assms(3-6) in auto)
qed

lemma do_call_inv:
  assumes inv: "ck_inv B st" and c: "do_call B S c st = Inr st'"
  shows "ck_inv B st' \<and> session (ck_proof st \<noteq> None) [c] = Some (ck_proof st' \<noteq> None)"
proof (cases "session (ck_proof st \<noteq> None) [c] = None")
  case True
  from call_out_of_order [OF this, of B S] c show ?thesis by simp
next
  case False
  show ?thesis
  proof (cases c)
    case (Create_aut k)
    then have st': "ck_proof st = None" "st' = st\<lparr>ck_proof := Some (Proof_new B (to_size_t (Int_val k)))\<rparr>"
      using c by (auto simp: do_call_def create_aut_def asserting_eq_Inr)
    moreover have "proof_reachable B j (Proof_new B j)" for j by (simp add: proof_reachable_def)
    ultimately show ?thesis using inv by (auto simp: ck_inv_def Create_aut idle_def Proof_new_def)
  next
    case Destroy_aut
    then show ?thesis using c by (auto simp: do_call_def destroy_aut_def with_proof_def ck_inv_def idle_def split: option.splits)
  next
    case (Create_vertex n)
    with c have "create_vertex B n st = Inr st'" by (simp add: do_call_def)
    from create_vertex_ck_inv [OF inv this] False show ?thesis by (auto simp: Create_vertex split: if_splits)
  next
    case Check_soundness
    with c inv False show ?thesis by (auto simp: do_call_def bindE_eq_Inr split: if_splits)
  qed (use method_call_inv [OF inv c] False in \<open>auto split: if_splits\<close>)
qed

lemma run_inv: "foldE (do_call B S) cs idle = Inr st \<Longrightarrow> ck_inv B st \<and> session False cs = Some (ck_proof st \<noteq> None)"
proof (induction cs arbitrary: st rule: rev_induct)
  case Nil
  then show ?case by (auto simp: ck_inv_def idle_def)
next
  case (snoc c cs)
  then obtain st1 where "foldE (do_call B S) cs idle = Inr st1" "do_call B S c st1 = Inr st"
    by (auto simp: foldE_append bindE_eq_Inr)
  with snoc.IH [OF this(1)] do_call_inv [of st1 S c st] show ?case by (simp add: session_append)
qed

end

end
