(* ===== verification/Samples.thy ===== *)
theory Samples
  imports Soundness
begin

text \<open>
  The smallest interesting proof object, on which the properties of the development are
  evaluated: one vertex with one tag that is its own successor and whose only trace
  progresses at every step.
\<close>

definition sample_vertex :: bdt where
  "sample_vertex = vertex_code robdd_pkg 1 1"

definition sample_proof :: "bdt cxx_proof" where
  "sample_proof =
     \<lparr>max_vertices_log2 = 1, max_tag = 1, last_vertex = 1, initial_vertex = sample_vertex,
      propositions = [bdd_ithvar robdd_pkg (prop_var robdd_pkg 0)], vertices = [sample_vertex],
      trans_map = [sample_vertex \<mapsto> [sample_vertex]], tag_map = [sample_vertex \<mapsto> [1]],
      vertex_names = [sample_vertex \<mapsto> show_int 1],
      trace_pairs = {(sample_vertex, sample_vertex, 1, 1)},
      progress_pairs = {(sample_vertex, sample_vertex, 1, 1)}\<rparr>"

text \<open>The calls that build the object.\<close>

definition sample_calls :: "bdt cxx_proof result" where
  "sample_calls =
     bindE (Proof_create_vertex robdd_pkg (Proof_new robdd_pkg 1)) (\<lambda>(v, P).
     bindE (Proof_tag_vertex P v 1) (\<lambda>P.
     bindE (Proof_set_successor P v v) (\<lambda>P.
     bindE (Proof_set_initial_vertex P v) (\<lambda>P.
     bindE (Proof_set_trace_pair P v v 1 1) (\<lambda>P.
     Proof_set_progress_pair P v v 1 1)))))"

text \<open>The caller's view of the object, and the checker that holds it.\<close>

definition sample_view :: view where
  "sample_view = \<lparr>vw_log2 = 1, vw_init = Some 0, vw_nodes = {0}, vw_tags = (\<lambda>_. {1}), vw_succs = (\<lambda>_. {0}),
     vw_pairs = {(0, 0, 1, 1)}, vw_progs = {(0, 0, 1, 1)}\<rparr>"

definition sample_checker :: "bdt checker" where
  "sample_checker = \<lparr>ck_proof = Some sample_proof, bdd_map = [0 \<mapsto> sample_vertex]\<rparr>"

text \<open>The trace automaton of the object after its initial state was asked for.\<close>

definition used_aut :: "bdt trace_aut" where
  "used_aut = \<lparr>ta_proof = sample_proof, ta_acc_set = set_buchi, state_map = [(NO_VERTEX robdd_pkg, NO_TAG) \<mapsto> 1],
     ta_heap = [1 \<mapsto> (NO_VERTEX robdd_pkg, NO_TAG)], ta_next = Suc 1\<rparr>"

lemma used_aut_get: "TraceAutomaton_get_init_state robdd_pkg (TraceAutomaton_new sample_proof) = Inr (1, used_aut)"
  by (simp add: TraceAutomaton_get_init_state_def TraceAutomaton_new_def get_state_def used_aut_def)

lemma used_aut_used: "ta_used robdd_pkg sample_proof used_aut"
  by (rule used_init [OF used_new used_aut_get])

lemma used_aut_fields [simp]:
  "ta_proof used_aut = sample_proof" "ta_acc_set used_aut = set_buchi"
  "dom (state_map used_aut) = {(NO_VERTEX robdd_pkg, NO_TAG)}" "ta_heap used_aut \<noteq> Map.empty"
  by (simp_all add: used_aut_def)

lemma sample_create:
  "Proof_create_vertex robdd_pkg (Proof_new robdd_pkg 1) =
     Inr (sample_vertex, install_vertex (Proof_new robdd_pkg 1) 1 sample_vertex)"
  by (simp add: Proof_create_vertex_def Proof_new_def INT_MAX_def drop_bit_Suc sample_vertex_def
      vertex_code_def GET_PROP_def prop_var_def Let_def)

lemma sample_calls_proof: "sample_calls = Inr sample_proof"
  unfolding sample_calls_def sample_create
  by (simp add: method_defs Proof_new_def sample_proof_def touch_def GET_PROP_def prop_var_def)

lemma sample_reachable: "proof_reachable robdd_pkg 1 sample_proof"
proof -
  obtain v P1 P2 P3 P4 P5 where
    "Proof_create_vertex robdd_pkg (Proof_new robdd_pkg 1) = Inr (v, P1)" "Proof_tag_vertex P1 v 1 = Inr P2"
    "Proof_set_successor P2 v v = Inr P3" "Proof_set_initial_vertex P3 v = Inr P4"
    "Proof_set_trace_pair P4 v v 1 1 = Inr P5" "Proof_set_progress_pair P5 v v 1 1 = Inr sample_proof"
    using sample_calls_proof unfolding sample_calls_def by (auto simp: bindE_eq_Inr)
  note steps = this(1) [THEN proof_step.intros(1) [where B = robdd_pkg]]
    this(2) [THEN proof_step.intros(2) [where B = robdd_pkg]]
    this(3) [THEN proof_step.intros(4) [where B = robdd_pkg]]
    this(4) [THEN proof_step.intros(3) [where B = robdd_pkg]]
    this(5) [THEN proof_step.intros(5) [where B = robdd_pkg]]
    this(6) [THEN proof_step.intros(6) [where B = robdd_pkg]]
  show ?thesis
    unfolding proof_reachable_def
    by (rule steps [THEN rtranclp.rtrancl_into_rtrancl [where r = "proof_step robdd_pkg", rotated]] rtranclp.rtrancl_refl)+
qed

lemma sample_inv: "proof_inv robdd_pkg sample_proof"
  by (rule robdd.proof_reachable_inv [OF sample_reachable])

lemma sample_fields [simp]:
  "initial_vertex sample_proof = sample_vertex" "vertices sample_proof = [sample_vertex]"
  "max_vertices_log2 sample_proof = 1" "last_vertex sample_proof = 1"
  "trans_map sample_proof = [sample_vertex \<mapsto> [sample_vertex]]"
  "tag_map sample_proof = [sample_vertex \<mapsto> [1]]"
  by (simp_all add: sample_proof_def)

lemma sample_gtc: "gtc (proof_graph sample_proof) sample_vertex"
proof (rule gtcI)
  fix p assume p: "tg_path (proof_graph sample_proof) sample_vertex p"
  have v: "p i = sample_vertex" for i
    using tg_path_in [OF p, of "{sample_vertex}" i] by (simp add: proof_graph_def)
  have "progressing (\<lambda>i. {(1::int, 1)}) (\<lambda>i. {(1::int, 1)})"
    by (rule progressingI [where n = 0 and t = "\<lambda>_. 1"]) auto
  then show "path_progressing (proof_graph sample_proof) p"
    by (simp add: path_progressing_def v proof_graph_def trace_pair_def progress_pair_def sample_proof_def)
qed

lemma sample_represents: "represents robdd_pkg (\<lambda>_. sample_vertex) sample_view sample_proof sample_checker"
  using sample_inv
  by (simp add: represents_def sample_view_def sample_checker_def view_ok_def c_range_def quad_image_def)
    (simp add: sample_proof_def)

end
