(* ===== verification/Checker_Properties.thy ===== *)
theory Checker_Properties
  imports Samples
begin

text \<open>
  The properties of the C++ checker, component by component: the proof object, the two
  automata, and the C interface. Each is stated over an arbitrary BDD package that satisfies
  the laws of \<open>bdd_library\<close> (and, where the check itself is run, an arbitrary automata
  library that satisfies \<open>spot_library\<close>), and evaluated on the sample proof.
\<close>

section \<open>The proof object\<close>

text \<open>
  C13: every object that the constructor and any sequence of successful method calls produce
  satisfies the class invariant, and keeps the capacity it was constructed with.
\<close>

theorem reachable_proofs_well_formed:
  assumes "bdd_library B" and "proof_reachable B k P"
  shows "proof_inv B P \<and> max_vertices_log2 P = k"
proof -
  have "proof_extends (Proof_new B k) P"
    using bdd_library.proof_steps_extend [OF assms(1)] assms(2) by (simp add: proof_reachable_def)
  moreover have "proof_inv B P" by (rule bdd_library.proof_reachable_inv [OF assms])
  ultimately show ?thesis by (simp add: proof_extends_def Proof_new_def)
qed

theorem reachable_proofs_well_formed_witness:
  "proof_inv robdd_pkg sample_proof \<and> max_vertices_log2 sample_proof = 1"
  by (rule reachable_proofs_well_formed [OF robdd.bdd_library_axioms sample_reachable])

text \<open>
  Method calls only add: no sequence of calls removes a vertex, a successor, a tag, a
  trace pair or a progress pair.
\<close>

theorem method_calls_only_add:
  assumes "bdd_library B" and "(proof_step B)\<^sup>*\<^sup>* P P'"
  shows "proof_extends P P'"
  by (rule bdd_library.proof_steps_extend [OF assms])

theorem method_calls_only_add_witness: "proof_extends (Proof_new robdd_pkg 1) sample_proof"
  using method_calls_only_add [OF robdd.bdd_library_axioms] sample_reachable
  by (simp add: proof_reachable_def)

text \<open>
  \<^verbatim>\<open>create_vertex\<close> returns a vertex that the proof did not have and that is not
  \<^verbatim>\<open>NO_VERTEX\<close>; it has no tags and no successors, its name is its number, and everything
  else about the proof stays as it was.
\<close>

theorem create_vertex_new_vertex:
  assumes "bdd_library B" and "proof_inv B P" and "Proof_create_vertex B P = Inr (v, P')"
  shows "v \<notin> set (vertices P) \<and> v \<noteq> NO_VERTEX B \<and>
    P' = P\<lparr>last_vertex := last_vertex P + 1, vertices := v # vertices P,
      tag_map := (tag_map P)(v \<mapsto> []), trans_map := (trans_map P)(v \<mapsto> []),
      vertex_names := (vertex_names P)(v \<mapsto> show_int (last_vertex P + 1))\<rparr>"
  using bdd_library.create_vertex_fresh [OF assms] bdd_library.install_fresh [OF assms(1,2)]
  by simp

theorem create_vertex_new_vertex_witness:
  "sample_vertex \<notin> set (vertices (Proof_new robdd_pkg 1)) \<and> sample_vertex \<noteq> NO_VERTEX robdd_pkg"
  using create_vertex_new_vertex [OF robdd.bdd_library_axioms proof_inv_new sample_create] by simp

text \<open>
  C25: a proof object of capacity \<open>k\<close> (up to 30, so that every number fits an \<^verbatim>\<open>int\<close>) takes
  exactly \<open>2 ^ k - 1\<close> vertices: \<^verbatim>\<open>create_vertex\<close> succeeds while there are fewer, and fails
  its assertion when there are that many.
\<close>

theorem create_vertex_capacity:
  assumes "bdd_library B" and "proof_inv B P" and "max_vertices_log2 P < 31"
  shows "Proof_create_vertex B P =
    (if length (vertices P) < 2 ^ max_vertices_log2 P - 1
     then Inr (vertex_code B (max_vertices_log2 P) (last_vertex P + 1),
       install_vertex P (last_vertex P + 1) (vertex_code B (max_vertices_log2 P) (last_vertex P + 1)))
     else Inl (Assert_failure ''(last_vertex>>max_vertices_log2) == 0''))"
proof -
  let ?k = "max_vertices_log2 P"
  note d = proof_invD [OF assms(2)]
  have inj: "inj_on (vertex_code B ?k) {1..last_vertex P}"
    by (rule inj_onI, rule bdd_library.vertex_code_inj [OF assms(1)]) (use d(9) in auto)
  have "card (set (vertices P)) = card {1..last_vertex P}"
    unfolding d(7) by (rule card_image [OF inj])
  then have len: "int (length (vertices P)) = last_vertex P"
    using distinct_card [OF d(6)] d(8) by simp
  have iff: "length (vertices P) < 2 ^ ?k - 1 \<longleftrightarrow> last_vertex P + 1 < 2 ^ ?k"
  proof -
    have "int (2 ^ ?k - 1) = 2 ^ ?k - 1" by (simp add: of_nat_diff)
    then show ?thesis using len by linarith
  qed
  have "last_vertex P < (2::int) ^ 30"
    using d(9) power_increasing [of ?k 30 "2::int"] assms(3) by linarith
  then have max: "last_vertex P \<noteq> INT_MAX" by (simp add: INT_MAX_def)
  have room: "drop_bit ?k (last_vertex P + 1) = 0 \<longleftrightarrow> last_vertex P + 1 < 2 ^ ?k"
    using d(8) by (auto simp: drop_bit_eq_div zdiv_eq_0_iff)
  have "vertex_loop B (take ?k (propositions P)) (last_vertex P + 1) (bddtrue B) = vertex_code B ?k (last_vertex P + 1)"
    using assms(2) by (simp add: proof_inv_def proof_numbering_def vertex_code_def)
  then show ?thesis
    using max room iff assms(3) by (simp add: Proof_create_vertex_def Let_def)
qed

theorem create_vertex_capacity_witness:
  "Proof_create_vertex robdd_pkg sample_proof = Inl (Assert_failure ''(last_vertex>>max_vertices_log2) == 0'')"
  using create_vertex_capacity [OF robdd.bdd_library_axioms sample_inv] by simp

text \<open>
  The vertices of a proof are pairwise disjoint, satisfiable BDDs: every vertex has a
  valuation, and no valuation satisfies two vertices, so that a letter of the automata
  determines the vertex it stands for.
\<close>

theorem vertices_are_disjoint_minterms:
  assumes "bdd_library B" and "proof_inv B P" and "v \<in> set (vertices P)"
  shows "(\<exists>s. bdd_sat B v s) \<and>
    (\<forall>s w. w \<in> set (vertices P) \<and> bdd_sat B v s \<and> bdd_sat B w s \<longrightarrow> v = w)"
proof -
  note d = proof_invD [OF assms(2)]
  obtain l where l: "l \<in> {1..last_vertex P}" "v = vertex_code B (max_vertices_log2 P) l"
    using assms(3) unfolding d(7) by blast
  have "v = w" if w: "w \<in> set (vertices P)" "bdd_sat B v s" "bdd_sat B w s" for s w
  proof -
    obtain m where m: "m \<in> {1..last_vertex P}" "w = vertex_code B (max_vertices_log2 P) m"
      using w(1) unfolding d(7) by blast
    have "l = m"
      by (rule bdd_library.vertex_code_disjoint [OF assms(1), of "max_vertices_log2 P" _ s])
        (use w l m d(9) in auto)
    with l m show ?thesis by simp
  qed
  with l(2) bdd_library.code_valuation_sat [OF assms(1)] show ?thesis by blast
qed

theorem vertices_are_disjoint_minterms_witness: "\<exists>s. bdd_sat robdd_pkg sample_vertex s"
  using vertices_are_disjoint_minterms [OF robdd.bdd_library_axioms sample_inv, of sample_vertex] by simp

text \<open>
  C32: the name of a vertex leads back to it. For every object that the constructor and any
  sequence of successful method calls produce, \<^verbatim>\<open>get_vertex_name\<close> succeeds on each vertex, and
  the vertex is the minterm of the number that its name is the decimal of; so vertices with
  the same name are the same.
\<close>

theorem vertex_name_round_trip:
  assumes "bdd_library B" and "proof_reachable B k P" and "v \<in> set (vertices P)"
  shows "\<exists>n. get_vertex_name P v = Inr n \<and> v = vertex_code B k (int (read_nat n)) \<and>
    (\<forall>w \<in> set (vertices P). get_vertex_name P w = Inr n \<longrightarrow> w = v)"
proof -
  have inv: "proof_inv B P" by (rule bdd_library.proof_reachable_inv [OF assms(1,2)])
  have "proof_extends (Proof_new B k) P"
    using bdd_library.proof_steps_extend [OF assms(1)] assms(2) by (simp add: proof_reachable_def)
  then have k: "max_vertices_log2 P = k" by (simp add: proof_extends_def Proof_new_def)
  have name: "\<exists>n. get_vertex_name P w = Inr n \<and> w = vertex_code B k (int (read_nat n))" if w: "w \<in> set (vertices P)" for w
  proof -
    obtain l where l: "l \<in> {1..last_vertex P}" "w = vertex_code B k l" using w unfolding proof_invD(7) [OF inv] k by blast
    then have "vertex_names P w = Some (show_int l)" using inv k by (simp add: proof_inv_def proof_numbering_def)
    with l show ?thesis by (simp add: get_vertex_name_def show_int_def read_show_nat)
  qed
  then show ?thesis using assms(3) by (metis sum.inject(2))
qed

theorem vertex_name_round_trip_witness:
  "\<exists>n. get_vertex_name sample_proof sample_vertex = Inr n \<and> sample_vertex = vertex_code robdd_pkg 1 (int (read_nat n))"
  using vertex_name_round_trip [OF robdd.bdd_library_axioms sample_reachable, of sample_vertex] by auto

text \<open>
  \<^verbatim>\<open>set_trace_pair\<close> and \<^verbatim>\<open>set_progress_pair\<close> succeed exactly on two vertices of the
  proof and a tag of each; they add the pair, so that the lookup finds it, and change nothing
  else. In every other case an assertion fails.
\<close>

theorem pair_setters:
  assumes "proof_inv B P"
  shows "if v1 \<in> set (vertices P) \<and> v2 \<in> set (vertices P) \<and>
       t1 \<in> set (at_key (tag_map P) v1) \<and> t2 \<in> set (at_key (tag_map P) v2)
     then Proof_set_trace_pair P v1 v2 t1 t2 = Inr (P\<lparr>trace_pairs := insert (v1, v2, t1, t2) (trace_pairs P)\<rparr>) \<and>
       Proof_set_progress_pair P v1 v2 t1 t2 = Inr (P\<lparr>progress_pairs := insert (v1, v2, t1, t2) (progress_pairs P)\<rparr>)
     else (\<exists>e. Proof_set_trace_pair P v1 v2 t1 t2 = Inl (Assert_failure e)) \<and>
       (\<exists>e. Proof_set_progress_pair P v1 v2 t1 t2 = Inl (Assert_failure e))"
proof (cases "v1 \<in> set (vertices P) \<and> v2 \<in> set (vertices P) \<and>
       t1 \<in> set (at_key (tag_map P) v1) \<and> t2 \<in> set (at_key (tag_map P) v2)")
  case True
  then have "v1 \<in> dom (tag_map P)" "v2 \<in> dom (tag_map P)" by (simp_all add: proof_invD(1) [OF assms])
  with True have "check_pair P v1 v2 t1 t2 = Inr P" by (simp add: check_pair_def)
  with True show ?thesis by (simp add: Proof_set_trace_pair_def Proof_set_progress_pair_def)
next
  case False
  then show ?thesis
    by (auto simp: Proof_set_trace_pair_def Proof_set_progress_pair_def check_pair_def asserting_def)
qed

theorem pair_setters_witness:
  "(\<exists>e. Proof_set_trace_pair sample_proof sample_vertex sample_vertex 1 2 = Inl (Assert_failure e)) \<and>
   (\<exists>e. Proof_set_progress_pair sample_proof sample_vertex sample_vertex 1 2 = Inl (Assert_failure e))"
  using pair_setters [OF sample_inv, of sample_vertex sample_vertex 1 2] by simp

section \<open>The proof automaton\<close>

text \<open>
  C23: the proof automaton accepts exactly the infinite words that spell, letter by letter, an
  infinite path of the proof from its initial vertex.
\<close>

theorem proof_automaton_accepts_paths:
  assumes "proof_inv B P" and "initial_vertex P \<in> set (vertices P)"
  shows "twa_lang B (ProofAutomaton P) =
    {w. \<exists>p. tg_path (proof_graph P) (initial_vertex P) p \<and> (\<forall>i. bdd_sat B (p i) (w i))}"
  using proof_lang [OF assms] by blast

theorem proof_automaton_accepts_paths_witness:
  "twa_lang robdd_pkg (ProofAutomaton sample_proof) =
    {w. \<exists>p. tg_path (proof_graph sample_proof) sample_vertex p \<and> (\<forall>i. bdd_sat robdd_pkg (p i) (w i))}"
  using proof_automaton_accepts_paths [OF sample_inv] by simp

text \<open>
  On the states of the proof automaton \<^verbatim>\<open>compare\<close> is a total order that is zero exactly
  on equal states, and equal states have equal hashes, as Spot requires of its states.
\<close>

theorem proof_compare_is_order:
  assumes "bdd_library B"
  shows "state_order (proof_states P) (proof_state_compare B) (proof_state_hash B)"
  by (rule bdd_library.proof_state_order [OF assms])

theorem proof_compare_is_order_witness:
  "state_order (proof_states sample_proof) (proof_state_compare robdd_pkg) (proof_state_hash robdd_pkg)"
  by (rule proof_compare_is_order [OF robdd.bdd_library_axioms])

section \<open>The trace automaton\<close>

text \<open>
  C22: the edges of the trace automaton. From its initial state it stays there on every
  letter or moves to any tag of any vertex; from a tag of a vertex it follows the trace
  pairs to the successors of the vertex, and an edge is accepting exactly if its pair is a
  progress pair. An edge to a vertex reads that vertex.
\<close>

theorem trace_automaton_edges:
  assumes "bdd_library B" and "proof_inv B P" and "v \<in> set (vertices P)"
  shows "\<exists>init es. twa_succ (TraceAutomaton B P) (twa_init (TraceAutomaton B P)) = Inr init \<and>
    twa_succ (TraceAutomaton B P) (TraceState v t) = Inr es \<and>
    set init = insert (bddtrue B, {}, twa_init (TraceAutomaton B P))
      {(c, {}, TraceState c u) |c u. c \<in> set (vertices P) \<and> u \<in> set (at_key (tag_map P) c)} \<and>
    set es = {(c, if progress_pair P v c t u then {0} else {}, TraceState c u) |c u.
      c \<in> set (at_key (trans_map P) v) \<and> trace_pair P v c t u}"
proof -
  have i: "twa_init (TraceAutomaton B P) = TraceState (NO_VERTEX B) NO_TAG"
    by (simp add: TraceAutomaton_def)
  obtain init es where e: "twa_succ (TraceAutomaton B P) (twa_init (TraceAutomaton B P)) = Inr init"
    "twa_succ (TraceAutomaton B P) (TraceState v t) = Inr es"
    using bdd_library.trace_succ [OF assms(1,2)] assms(3) unfolding i by auto
  have "set init = insert (bddtrue B, {}, twa_init (TraceAutomaton B P))
      {(c, {}, TraceState c u) |c u. c \<in> set (vertices P) \<and> u \<in> set (at_key (tag_map P) c)}"
    unfolding set_eq_iff bdd_library.initial_edges [OF assms(1,2) e(1) [unfolded i]] i by blast
  moreover have "set es = {(c, if progress_pair P v c t u then {0} else {}, TraceState c u) |c u.
      c \<in> set (at_key (trans_map P) v) \<and> trace_pair P v c t u}"
    unfolding set_eq_iff bdd_library.vertex_edges [OF assms e(2)] trace_mark_def by blast
  ultimately show ?thesis using e by blast
qed

theorem trace_automaton_edges_witness:
  "\<exists>es. twa_succ (TraceAutomaton robdd_pkg sample_proof) (TraceState sample_vertex 1) = Inr es \<and>
    set es = {(sample_vertex, {0}, TraceState sample_vertex 1)}"
proof -
  have pairs: "trace_pair sample_proof sample_vertex c 1 u \<longleftrightarrow> c = sample_vertex \<and> u = 1"
    "progress_pair sample_proof sample_vertex sample_vertex 1 1" for c u
    by (auto simp: trace_pair_def progress_pair_def sample_proof_def)
  have "sample_vertex \<in> set (vertices sample_proof)" by simp
  note edges = trace_automaton_edges [OF robdd.bdd_library_axioms sample_inv this, of 1]
  have set: "{(c, if progress_pair sample_proof sample_vertex c 1 u then {0} else {}, TraceState c u) |c u.
      c \<in> set (at_key (trans_map sample_proof) sample_vertex) \<and> trace_pair sample_proof sample_vertex c 1 u} =
      {(sample_vertex, {0::nat}, TraceState sample_vertex 1)}"
    by (simp add: pairs)
  from edges [unfolded set] show ?thesis
    by (elim exE conjE) (intro exI conjI)
qed

text \<open>
  C26: the memo table of the trace automaton is not observable: whatever states earlier
  iterations have left in it, the edges of a state are those that a new automaton gives,
  and the table only grows.
\<close>

theorem trace_memo_not_observable:
  assumes "bdd_library B" and "ta_inv A" and "ta_acc_set A = set_buchi" and "proof_inv B (ta_proof A)"
    and "TraceState v t \<in> trace_states B (ta_proof A)"
  shows "\<exists>es A'. TraceAutomaton_succ B A (TraceState v t) = Inr (es, A') \<and>
    twa_succ (TraceAutomaton B (ta_proof A)) (TraceState v t) = Inr es \<and>
    ta_inv A' \<and> ta_proof A' = ta_proof A \<and> state_map A \<subseteq>\<^sub>m state_map A'"
proof -
  have v: "initial B v t \<or> v \<in> set (vertices (ta_proof A))"
    using assms(5) by (auto simp: trace_states_def initial_def)
  show ?thesis
    using trace_succ_ok [OF assms(2-4) v] bdd_library.trace_succ [OF assms(1,4) v] by auto
qed

theorem trace_memo_not_observable_witness:
  "\<exists>es A'. TraceAutomaton_succ robdd_pkg used_aut (TraceState sample_vertex 1) = Inr (es, A') \<and>
    twa_succ (TraceAutomaton robdd_pkg sample_proof) (TraceState sample_vertex 1) = Inr es \<and> ta_inv A'"
proof -
  have "TraceState sample_vertex 1 \<in> trace_states robdd_pkg sample_proof"
    by (simp add: trace_states_def)
  then show ?thesis
    using trace_memo_not_observable [OF robdd.bdd_library_axioms, of used_aut sample_vertex 1] sample_inv
      ta_used_inv [OF used_aut_used] by auto
qed

text \<open>
  \<^verbatim>\<open>get_state\<close> hands out one object per vertex and tag: it never fails, the address it
  returns holds the requested pair, asking again returns the same address without touching
  the automaton, and a different pair gets a different address.
\<close>

theorem get_state_canonical:
  assumes "ta_inv A"
  shows "\<exists>a A'. get_state A v t = Inr (a, A') \<and> ta_inv A' \<and> deref A' a = Inr (v, t) \<and>
    get_state A' v t = Inr (a, A') \<and>
    (\<forall>w u b A''. get_state A' w u = Inr (b, A'') \<longrightarrow> (b = a \<longleftrightarrow> (w, u) = (v, t)))"
proof (rule get_state_ok [OF assms, of v t])
  fix a A' assume g: "get_state A v t = Inr (a, A')" "ta_inv A'" "ta_heap A' a = Some (v, t)"
  have same: "get_state A' v t = Inr (a, A')"
  proof -
    have "state_map A' (v, t) = Some a" using ta_invD(2) [OF g(2,3)] by blast
    with ta_invD(1) [OF g(2) this] show ?thesis by (simp add: get_state_def)
  qed
  have "b = a \<longleftrightarrow> (w, u) = (v, t)" if h: "get_state A' w u = Inr (b, A'')" for w u b A''
  proof
    assume ba: "b = a"
    show "(w, u) = (v, t)"
    proof (rule get_state_ok [OF g(2), of w u])
      fix c C assume "get_state A' w u = Inr (c, C)" "ta_heap C c = Some (w, u)" "ta_heap A' \<subseteq>\<^sub>m ta_heap C"
      with h ba g(3) show ?thesis by (auto simp: map_le_def dom_def)
    qed
  qed (use h same in simp)
  moreover have "deref A' a = Inr (v, t)" using g(3) by (simp add: deref_def)
  ultimately show ?thesis using g(1,2) same by blast
qed

theorem get_state_canonical_witness:
  "\<exists>a A'. get_state (TraceAutomaton_new sample_proof) sample_vertex 1 = Inr (a, A') \<and> deref A' a = Inr (sample_vertex, 1)"
  using get_state_canonical [OF ta_inv_new, of sample_proof sample_vertex 1] by blast

text \<open>
  C31: no leak and no double free. For every trace automaton that the constructor and any
  sequence of calls of \<^verbatim>\<open>get_init_state\<close> and of iterations over \<^verbatim>\<open>succ_iter\<close> produce, the memo
  table is finite, and the destructor, in whatever order it visits the table, never deletes
  an address that is not allocated and leaves none allocated.
\<close>

theorem destructor_frees_all_once:
  assumes "ta_used B P A"
  shows "finite (dom (state_map A)) \<and>
    (\<forall>order. distinct order \<and> set order = dom (state_map A) \<longrightarrow>
      (\<exists>A'. TraceAutomaton_delete order A = Inr A' \<and> ta_heap A' = Map.empty))"
  using ta_used_inv [OF assms] delete_all by blast

theorem destructor_frees_all_once_witness:
  "ta_heap used_aut \<noteq> Map.empty \<and>
    (\<exists>A'. TraceAutomaton_delete [(NO_VERTEX robdd_pkg, NO_TAG)] used_aut = Inr A' \<and> ta_heap A' = Map.empty)"
  using destructor_frees_all_once [OF used_aut_used] by simp

text \<open>
  \<^verbatim>\<open>compare\<close> of trace states is a total order that is zero exactly on equal states, and
  equal states have equal hashes.
\<close>

theorem trace_compare_is_order:
  assumes "bdd_library B"
  shows "state_order {s. \<exists>v t. s = TraceState v t} (trace_state_compare B) (trace_state_hash B)"
  by (rule bdd_library.trace_state_order [OF assms])

theorem trace_compare_is_order_witness:
  "state_order {s. \<exists>v t. s = TraceState v t} (trace_state_compare robdd_pkg) (trace_state_hash robdd_pkg)"
  by (rule trace_compare_is_order [OF robdd.bdd_library_axioms])

text \<open>
  The loop of a client over the trace iterator ends; it sees one edge per entry of the
  vector that \<^verbatim>\<open>first()\<close> filled, last entry first.
\<close>

theorem trace_iteration_terminates:
  "drain trace_done trace_next (trace_edge B A) it =
     Some (map (\<lambda>a. trace_edge B A (it\<lparr>state_info_vector := [a]\<rparr>)) (rev (state_info_vector it)))"
  by (rule trace_iter.drain_items)

text \<open>
  Hashing a pair or a state shifts a negative number: after the vertex has been mixed in,
  the 32-bit seed is negative for every BDD whose number is below 1640531527, and the left
  shift of the next step is undefined in C++17.
\<close>

theorem hash_shifts_negative_seed:
  assumes "0 \<le> bdd_id B v" and "bdd_id B v < 1640531527"
  shows "\<not> shl_defined (HASH_VAL 0 (hash_bdd B v)) 6"
  using first_seed_negative [OF assms] by (simp add: shl_defined_def hash_bdd_def)

theorem hash_shifts_negative_seed_witness: "\<not> shl_defined (HASH_VAL 0 (hash_bdd robdd_pkg BTrue)) 6"
  by (rule hash_shifts_negative_seed) (simp_all add: robdd_pkg_def)

text \<open>
  Printing a trace state of a vertex succeeds for every tag but \<open>0\<close>, which the proof
  object accepts as a tag and the printer takes for the absence of one.
\<close>

theorem format_state_rejects_tag_zero:
  assumes "bdd_library B" and "proof_inv B (ta_proof A)" and "v \<in> set (vertices (ta_proof A))"
  shows "TraceAutomaton_format_state B A (TraceState v t) =
    (if t = 0 then Inl (Assert_failure ''ts->vertex != NO_VERTEX && ts->tag != NO_TAG'')
     else Inr (''S'' @ the (vertex_names (ta_proof A) v) @ '',t'' @ show_int t))"
proof -
  have "vertex_names (ta_proof A) v \<noteq> None"
    using proof_invD(3) [OF assms(2)] assms(3) by auto
  with bdd_library.vertex_not_initial [OF assms, of t] show ?thesis
    by (auto simp: TraceAutomaton_format_state_def get_vertex_name_def NO_TAG_def)
qed

theorem format_state_rejects_tag_zero_witness:
  "TraceAutomaton_format_state robdd_pkg (TraceAutomaton_new sample_proof) (TraceState sample_vertex 0) =
    Inl (Assert_failure ''ts->vertex != NO_VERTEX && ts->tag != NO_TAG'')"
  using format_state_rejects_tag_zero [OF robdd.bdd_library_axioms, of "TraceAutomaton_new sample_proof" sample_vertex 0]
    sample_inv by (simp add: TraceAutomaton_new_def)

section \<open>The check\<close>

text \<open>
  C28: exploring either automaton of a well-formed proof with an initial vertex never fails an
  assertion and meets finitely many states, so that copying them into explicit graphs
  terminates.
\<close>

theorem automata_safe_and_finite:
  assumes "bdd_library B" and "proof_inv B P" and "initial_vertex P \<in> set (vertices P)"
  shows "twa_safe (ProofAutomaton P) \<and> twa_finite (ProofAutomaton P) \<and>
    twa_safe (TraceAutomaton B P) \<and> twa_finite (TraceAutomaton B P)"
  using proof_automaton_states(1) [OF assms(2,3)] proof_automaton_finite [OF assms(2,3)]
    bdd_library.trace_automaton_states(1) [OF assms(1,2)] bdd_library.trace_automaton_finite [OF assms(1,2)]
  by blast

theorem automata_safe_and_finite_witness:
  "twa_safe (TraceAutomaton robdd_pkg sample_proof) \<and> twa_finite (TraceAutomaton robdd_pkg sample_proof)"
  using automata_safe_and_finite [OF robdd.bdd_library_axioms sample_inv] by simp

text \<open>
  C5: the reduction at the heart of the checker: the language of the proof automaton is
  included in the language of the trace automaton if and only if every infinite path of the
  proof from its initial vertex is followed, from some point on, by a trace that progresses
  infinitely often.
\<close>

theorem language_inclusion_is_gtc:
  assumes "bdd_library B" and "proof_inv B P" and "initial_vertex P \<in> set (vertices P)"
  shows "twa_lang B (ProofAutomaton P) \<subseteq> twa_lang B (TraceAutomaton B P) \<longleftrightarrow>
    gtc (proof_graph P) (initial_vertex P)"
  by (rule bdd_library.inclusion_iff_gtc [OF assms])

theorem language_inclusion_is_gtc_witness:
  "twa_lang robdd_pkg (ProofAutomaton sample_proof) \<subseteq> twa_lang robdd_pkg (TraceAutomaton robdd_pkg sample_proof)"
  using language_inclusion_is_gtc [OF robdd.bdd_library_axioms sample_inv] sample_gtc by simp

text \<open>
  C4: \<^verbatim>\<open>check_soundness\<close> returns, and what it returns is the global trace condition of the
  proof that was built.
\<close>

theorem check_soundness_decides_gtc:
  assumes "spot_library B S" and "proof_inv B P" and "ck_proof st = Some P"
    and "initial_vertex P \<in> set (vertices P)"
  shows "check_soundness B S st = Inr (gtc (proof_graph P) (initial_vertex P))"
  by (rule spot_library.check_soundness_correct [OF assms])

theorem check_soundness_decides_gtc_witness:
  "check_soundness robdd_pkg exact_spot \<lparr>ck_proof = Some sample_proof, bdd_map = [0 \<mapsto> sample_vertex]\<rparr> = Inr True"
  using check_soundness_decides_gtc [OF exact.spot_library_axioms sample_inv] sample_gtc by simp

section \<open>The C interface\<close>

text \<open>
  C14: the calls of the C interface refine the operations on the caller's view of the proof:
  in a state that represents a view, each call on nodes of the view (and tags in the range
  of a C \<^verbatim>\<open>int\<close>) succeeds and leads to a state that represents the updated view.
\<close>

theorem interface_calls_refine_view:
  assumes "represents B f W P st" and "i \<in> vw_nodes W" and "j \<in> vw_nodes W"
    and "t \<in> vw_tags W i" and "u \<in> vw_tags W j" and "c_range t" and "c_range u" and "c_range n"
  shows "(\<exists>P' st'. tag_vertex i n st = Inr st' \<and>
      represents B f (W\<lparr>vw_tags := (vw_tags W)(i := insert n (vw_tags W i))\<rparr>) P' st') \<and>
    (\<exists>P' st'. set_successor i j st = Inr st' \<and>
      represents B f (W\<lparr>vw_succs := (vw_succs W)(i := insert j (vw_succs W i))\<rparr>) P' st') \<and>
    (\<exists>P' st'. set_initial_vertex i st = Inr st' \<and> represents B f (W\<lparr>vw_init := Some i\<rparr>) P' st') \<and>
    (\<exists>P' st'. set_trace_pair i j t u st = Inr st' \<and>
      represents B f (W\<lparr>vw_pairs := insert (i, j, t, u) (vw_pairs W)\<rparr>) P' st') \<and>
    (\<exists>P' st'. set_progress_pair i j t u st = Inr st' \<and>
      represents B f (W\<lparr>vw_progs := insert (i, j, t, u) (vw_progs W)\<rparr>) P' st')"
  using tag_vertex_rep [OF assms(1,2,8)] set_successor_rep [OF assms(1,2,3)]
    set_initial_vertex_rep [OF assms(1,2)] set_trace_pair_rep [OF assms(1-7)]
    set_progress_pair_rep [OF assms(1-7)] by blast

theorem interface_calls_refine_view_witness:
  "\<exists>P' st'. tag_vertex 0 7 sample_checker = Inr st' \<and>
    represents robdd_pkg (\<lambda>_. sample_vertex) (sample_view\<lparr>vw_tags := (vw_tags sample_view)(0 := {7, 1})\<rparr>) P' st'"
proof -
  have "0 \<in> vw_nodes sample_view" "1 \<in> vw_tags sample_view 0" "c_range 1" "c_range 7"
    by (simp_all add: sample_view_def c_range_def)
  from interface_calls_refine_view [OF sample_represents this(1,1,2,2,3,3,4)]
  show ?thesis by (simp add: sample_view_def)
qed

text \<open>
  C24: creating a node succeeds for every new node number in the range of a C \<^verbatim>\<open>int\<close> while
  the capacity lasts, and gives it a vertex of its own without tags and successors.
\<close>

theorem interface_creates_vertices:
  assumes "bdd_library B" and "represents B f W P st" and "k \<notin> vw_nodes W" and "c_range k"
    and "vw_log2 W < 32" and "int (card (vw_nodes W)) + 1 < 2 ^ vw_log2 W"
  shows "\<exists>f' P' st'. create_vertex B k st = Inr st' \<and>
    represents B f' (W\<lparr>vw_nodes := insert k (vw_nodes W), vw_tags := (vw_tags W)(k := {}),
      vw_succs := (vw_succs W)(k := {})\<rparr>) P' st'"
  by (rule bdd_library.create_vertex_rep [OF assms])

theorem interface_creates_vertices_witness:
  "\<exists>st st'. create_aut robdd_pkg 2 idle = Inr st \<and> create_vertex robdd_pkg 5 st = Inr st'"
proof -
  obtain P st where st: "create_aut robdd_pkg (int 2) idle = Inr st"
    "represents robdd_pkg (\<lambda>_. BTrue) (fresh_view 2) P st"
    using create_aut_rep [of 2 robdd_pkg "\<lambda>_. BTrue"] by (auto simp del: of_nat_numeral)
  have "5 \<notin> vw_nodes (fresh_view 2)" "c_range 5" "vw_log2 (fresh_view 2) < 32"
    "int (card (vw_nodes (fresh_view 2))) + 1 < 2 ^ vw_log2 (fresh_view 2)"
    by (simp_all add: fresh_view_def c_range_def)
  from interface_creates_vertices [OF robdd.bdd_library_axioms st(2) this] st(1) show ?thesis by auto
qed

text \<open>
  C33: the protocol of the interface, over all runs of calls from the start of the program. A
  run succeeds only if \<^verbatim>\<open>create_aut\<close> and \<^verbatim>\<open>destroy_aut\<close> alternate and every other call stands
  between the two; after \<^verbatim>\<open>destroy_aut\<close> nothing is left of the proof, so that one check cannot
  influence the next; in between, the proof is well-formed, and the numbers of the caller
  stand for all of its vertices and for nothing else. A call out of order fails an assertion,
  except for \<^verbatim>\<open>check_soundness\<close>, which has none and dereferences a null pointer.
\<close>

theorem interface_sessions:
  assumes "bdd_library B" and "foldE (do_call B S) cs idle = Inr st"
  shows "session False cs = Some (ck_proof st \<noteq> None) \<and>
    (ck_proof st = None \<longrightarrow> st = idle) \<and>
    (\<forall>P. ck_proof st = Some P \<longrightarrow> proof_inv B P \<and> ran (bdd_map st) = set (vertices P)) \<and>
    (session False (cs @ [c]) = None \<longrightarrow>
      do_call B S c st = Inl (case c of Check_soundness \<Rightarrow> Null_dereference
        | Create_aut _ \<Rightarrow> Assert_failure ''proof==0'' | _ \<Rightarrow> Assert_failure ''proof''))"
proof -
  from bdd_library.run_inv [OF assms] have inv: "ck_inv B st" and s: "session False cs = Some (ck_proof st \<noteq> None)" by blast+
  have "proof_inv B P \<and> ran (bdd_map st) = set (vertices P)" if "ck_proof st = Some P" for P
    using inv that bdd_library.proof_reachable_inv [OF assms(1)] by (auto simp: ck_inv_def)
  moreover have "st = idle" if "ck_proof st = None" using inv that by (simp add: ck_inv_def)
  moreover have "session (ck_proof st \<noteq> None) [c] = None" if "session False (cs @ [c]) = None"
    using that s by (simp add: session_append)
  ultimately show ?thesis using s call_out_of_order [of st c B S] by blast
qed

theorem interface_sessions_witness:
  "\<exists>st. foldE (do_call robdd_pkg exact_spot) [Create_aut 2, Destroy_aut] idle = Inr st \<and> st = idle \<and>
    do_call robdd_pkg exact_spot Check_soundness st = Inl Null_dereference"
proof -
  obtain st where st: "foldE (do_call robdd_pkg exact_spot) [Create_aut 2, Destroy_aut] idle = Inr st"
    by (simp add: do_call_def create_aut_def destroy_aut_def with_proof_def idle_def)
  from interface_sessions [OF robdd.bdd_library_axioms this, of Check_soundness] st show ?thesis by auto
qed

text \<open>
  Node numbers are cut to 32 bits on the way in: two numbers that differ by a multiple of
  \<open>2 ^ 32\<close> name the same node, and creating the second one fails an assertion.
\<close>

theorem node_numbers_collide:
  assumes "bdd_map st (Int_val k) = Some x" and "ck_proof st = Some P" and "returns (Proof_create_vertex B P)"
  shows "create_vertex B (k + n * 2 ^ 32) st = Inl (Assert_failure ''bdd_map.find(id) == bdd_map.end()'')"
proof -
  have "Int_val (k + n * 2 ^ 32) = Int_val k"
  proof -
    have "k + n * 2 ^ 32 + 2 ^ 31 = k + 2 ^ 31 + n * 2 ^ 32" by simp
    then have "(k + n * 2 ^ 32 + 2 ^ 31) mod 2 ^ 32 = (k + 2 ^ 31) mod 2 ^ 32" by (simp only: mod_mult_self1)
    then show ?thesis by (simp add: Int_val_def signed_take_bit_eq_take_bit_shift take_bit_eq_mod)
  qed
  with assms show ?thesis by (auto simp: create_vertex_def returns_def)
qed

theorem node_numbers_collide_witness:
  "\<exists>st st'. create_aut robdd_pkg 2 idle = Inr st \<and> create_vertex robdd_pkg 5 st = Inr st' \<and>
    create_vertex robdd_pkg (5 + 2 ^ 32) st' = Inl (Assert_failure ''bdd_map.find(id) == bdd_map.end()'')"
proof -
  obtain P st where st: "create_aut robdd_pkg (int 2) idle = Inr st"
    "represents robdd_pkg (\<lambda>_. BTrue) (fresh_view 2) P st"
    using create_aut_rep [of 2 robdd_pkg "\<lambda>_. BTrue"] by (auto simp del: of_nat_numeral)
  obtain f P' st' where st': "create_vertex robdd_pkg 5 st = Inr st'"
    "represents robdd_pkg f ((fresh_view 2)\<lparr>vw_nodes := {5}, vw_tags := \<lambda>_. {}, vw_succs := \<lambda>_. {}\<rparr>) P' st'"
    using robdd.create_vertex_rep [OF st(2), of 5] by (auto simp: fresh_view_def c_range_def fun_upd_idem)
  note d = representsD [OF st'(2)]
  have "returns (Proof_create_vertex robdd_pkg P')"
    using robdd.create_vertex_room [OF d(2)] st'(2) by (auto simp: represents_def fresh_view_def returns_def)
  from node_numbers_collide [OF _ d(1) this, of 5 _ 1] d(6) [of 5] st(1) st'(1) show ?thesis
    by (auto simp: fresh_view_def)
qed

end
