(* ===== verification/Ocaml_Lib.thy ===== *)
theory Ocaml_Lib
  imports Prelude "HOL-Library.Product_Lexorder"
begin

text \<open>
  The containers the OCaml side of the soundness check works on: lists (blist.ml), sets
  (treeset.ml) and maps with integer keys (treemap.ml). A map is the list of its bindings in
  increasing order of keys, which is the order in which OCaml iterates over it; a set is a
  finite set, iterated over in increasing order.
\<close>

section \<open>Lists\<close>

text \<open>\<^verbatim>\<open>Blist.find_index\<close>: the position of the first match.\<close>

fun find_index_from :: "('a \<Rightarrow> bool) \<Rightarrow> nat \<Rightarrow> 'a list \<Rightarrow> nat result" where
  "find_index_from p n [] = Inl Not_found"
| "find_index_from p n (x # xs) = (if p x then Inr n else find_index_from p (n + 1) xs)"

definition find_index :: "('a \<Rightarrow> bool) \<Rightarrow> 'a list \<Rightarrow> nat result" where
  "find_index p l = find_index_from p 0 l"

fun remove_nth :: "nat \<Rightarrow> 'a list \<Rightarrow> 'a list result" where
  "remove_nth n [] = Inl (Invalid_argument ''Blist.remove_nth'')"
| "remove_nth n (y # ys) =
     (case n of 0 \<Rightarrow> Inr ys | Suc m \<Rightarrow> bindE (remove_nth m ys) (\<lambda>zs. Inr (y # zs)))"

text \<open>\<^verbatim>\<open>mapi\<close>, and \<^verbatim>\<open>Blist.replace_nth\<close> on an index that is not negative.\<close>

fun mapi_from :: "nat \<Rightarrow> (nat \<Rightarrow> 'a \<Rightarrow> 'b) \<Rightarrow> 'a list \<Rightarrow> 'b list" where
  "mapi_from n f [] = []"
| "mapi_from n f (x # xs) = f n x # mapi_from (n + 1) f xs"

definition replace_nth :: "'a \<Rightarrow> nat \<Rightarrow> 'a list \<Rightarrow> 'a list" where
  "replace_nth z n xs = mapi_from 0 (\<lambda>m y. if n = m then z else y) xs"

text \<open>\<^verbatim>\<open>List.nth\<close>, \<^verbatim>\<open>List.map2\<close>, and \<^verbatim>\<open>for_all\<close> with a predicate that may raise.\<close>

definition list_nth :: "'a list \<Rightarrow> nat \<Rightarrow> 'a result" where
  "list_nth xs n = (if n < length xs then Inr (xs ! n) else Inl (Failure ''nth''))"

fun map2E :: "('a \<Rightarrow> 'b \<Rightarrow> 'c) \<Rightarrow> 'a list \<Rightarrow> 'b list \<Rightarrow> 'c list result" where
  "map2E f [] [] = Inr []"
| "map2E f (x # xs) (y # ys) = bindE (map2E f xs ys) (\<lambda>zs. Inr (f x y # zs))"
| "map2E f _ _ = Inl (Invalid_argument ''List.map2'')"

fun allE :: "('a \<Rightarrow> bool result) \<Rightarrow> 'a list \<Rightarrow> bool result" where
  "allE p [] = Inr True"
| "allE p (x # xs) = bindE (p x) (\<lambda>b. if b then allE p xs else Inr False)"

section \<open>Sets\<close>

definition set_fold :: "('a::linorder \<Rightarrow> 's \<Rightarrow> 's) \<Rightarrow> 'a set \<Rightarrow> 's \<Rightarrow> 's" where
  "set_fold f A a = fold f (sorted_list_of_set A) a"

definition set_iter :: "('a::linorder \<Rightarrow> 's \<Rightarrow> 's result) \<Rightarrow> 'a set \<Rightarrow> 's \<Rightarrow> 's result" where
  "set_iter f A s = foldE f (sorted_list_of_set A) s"

definition set_of_list :: "'a list \<Rightarrow> 'a set" where
  "set_of_list l = foldl (\<lambda>a b. insert b a) {} l"

definition map_to :: "('b \<Rightarrow> 's \<Rightarrow> 's) \<Rightarrow> 's \<Rightarrow> ('a::linorder \<Rightarrow> 'b) \<Rightarrow> 'a set \<Rightarrow> 's" where
  "map_to oadd oempty f A = set_fold (\<lambda>el a. oadd (f el) a) A oempty"

definition union_of_list :: "'a set list \<Rightarrow> 'a set" where
  "union_of_list l = foldl (\<lambda>a i. a \<union> i) {} l"

section \<open>Maps with integer keys\<close>

type_synonym 'a int_map = "(int \<times> 'a) list"

definition im_wf :: "'a int_map \<Rightarrow> bool" where
  "im_wf m \<longleftrightarrow> sorted_wrt (<) (map fst m)"

definition im_mem :: "int \<Rightarrow> 'a int_map \<Rightarrow> bool" where
  "im_mem k m \<longleftrightarrow> list_ex (\<lambda>(k', _). k' = k) m"

definition im_find :: "int \<Rightarrow> 'a int_map \<Rightarrow> 'a result" where
  "im_find k m = (case map_of m k of None \<Rightarrow> Inl Not_found | Some v \<Rightarrow> Inr v)"

text \<open>Adding replaces the binding of the key, or inserts a new binding at its place.\<close>

definition im_add :: "int \<Rightarrow> 'a \<Rightarrow> 'a int_map \<Rightarrow> 'a int_map" where
  "im_add k v m =
     (if im_mem k m then map (\<lambda>(k', v'). if k' = k then (k, v) else (k', v')) m
      else takeWhile (\<lambda>e. fst e < k) m @ (k, v) # dropWhile (\<lambda>e. fst e < k) m)"

definition im_remove :: "int \<Rightarrow> 'a int_map \<Rightarrow> 'a int_map" where
  "im_remove k m = filter (\<lambda>(k', _). k' \<noteq> k) m"

definition im_of_list :: "(int \<times> 'a) list \<Rightarrow> 'a int_map" where
  "im_of_list l = foldl (\<lambda>m (k, v). im_add k v m) [] l"

definition im_iter :: "(int \<Rightarrow> 'a \<Rightarrow> 's \<Rightarrow> 's result) \<Rightarrow> 'a int_map \<Rightarrow> 's \<Rightarrow> 's result" where
  "im_iter f m s = foldE (\<lambda>(k, v). f k v) m s"

definition im_exists :: "(int \<Rightarrow> 'a \<Rightarrow> bool) \<Rightarrow> 'a int_map \<Rightarrow> bool" where
  "im_exists p m \<longleftrightarrow> list_ex (\<lambda>(k, v). p k v) m"

text \<open>\<^verbatim>\<open>find_map\<close>: the first binding that satisfies a predicate, which may raise.\<close>

fun im_find_map :: "(int \<Rightarrow> 'a \<Rightarrow> bool result) \<Rightarrow> 'a int_map \<Rightarrow> (int \<times> 'a) option result" where
  "im_find_map f [] = Inr None"
| "im_find_map f ((k, v) # m) = bindE (f k v) (\<lambda>b. if b then Inr (Some (k, v)) else im_find_map f m)"

section \<open>The contract of a map\<close>

text \<open>
  What clients rely on: the lookups after an update, and an invariant of the representation
  that every operation keeps.
\<close>

locale dictionary =
  fixes empty :: 'm and add :: "'k \<Rightarrow> 'v \<Rightarrow> 'm \<Rightarrow> 'm" and remove :: "'k \<Rightarrow> 'm \<Rightarrow> 'm"
    and lookup :: "'m \<Rightarrow> 'k \<rightharpoonup> 'v" and wf_dict :: "'m \<Rightarrow> bool"
  assumes wf_empty: "wf_dict empty" and lookup_empty: "lookup empty = Map.empty"
    and wf_add: "wf_dict m \<Longrightarrow> wf_dict (add k v m)"
    and lookup_add: "wf_dict m \<Longrightarrow> lookup (add k v m) = (lookup m)(k \<mapsto> v)"
    and wf_remove: "wf_dict m \<Longrightarrow> wf_dict (remove k m)"
    and lookup_remove: "wf_dict m \<Longrightarrow> lookup (remove k m) = (lookup m)(k := None)"
begin

text \<open>Building a dictionary from a list of bindings: later bindings win.\<close>

lemma wf_lookup_of_list:
  "wf_dict m \<Longrightarrow> wf_dict (foldl (\<lambda>m (k, v). add k v m) m l) \<and>
     lookup (foldl (\<lambda>m (k, v). add k v m) m l) = lookup m ++ map_of (rev l)"
  by (induction l arbitrary: m) (auto simp: wf_add lookup_add)

lemmas of_list = wf_lookup_of_list [OF wf_empty, unfolded lookup_empty empty_map_add]

end

section \<open>Lemmas on lists\<close>

lemma find_index_from_shift:
  "find_index_from p (Suc n) xs = bindE (find_index_from p n xs) (\<lambda>i. Inr (Suc i))"
  by (induction xs arbitrary: n) auto

lemma find_index_Cons:
  "find_index p (x # xs) = (if p x then Inr 0 else bindE (find_index p xs) (\<lambda>i. Inr (Suc i)))"
  by (simp add: find_index_def find_index_from_shift)

lemma find_index_found:
  "\<exists>x\<in>set xs. p x \<Longrightarrow> \<exists>i. find_index p xs = Inr i \<and> i < length xs \<and> p (xs ! i)"
proof (induction xs)
  case (Cons x xs)
  then show ?case by (cases "p x") (auto simp: find_index_Cons)
qed simp

lemma find_index_first:
  "find_index p xs = Inr i \<longleftrightarrow> i < length xs \<and> p (xs ! i) \<and> list_all (\<lambda>x. \<not> p x) (take i xs)"
proof (induction xs arbitrary: i)
  case (Cons x xs)
  then show ?case by (cases i) (auto simp: find_index_Cons bindE_eq_Inr)
qed (simp add: find_index_def)

lemma find_index_none: "find_index p xs = Inl Not_found \<longleftrightarrow> list_all (\<lambda>x. \<not> p x) xs"
proof (induction xs)
  case (Cons x xs)
  then show ?case by (cases "find_index p xs") (auto simp: find_index_Cons)
qed (simp add: find_index_def)

lemma remove_nth_eq:
  "remove_nth i xs = (if i < length xs then Inr (take i xs @ drop (Suc i) xs)
                      else Inl (Invalid_argument ''Blist.remove_nth''))"
proof (induction xs arbitrary: i)
  case (Cons x xs)
  then show ?case by (cases i) auto
qed simp

text \<open>With distinct keys, removing the first match removes every match.\<close>

lemma remove_first_distinct:
  assumes "distinct (map f xs)" and "\<exists>x\<in>set xs. f x = a"
  shows "bindE (find_index (\<lambda>x. f x = a) xs) (\<lambda>i. remove_nth i xs) = Inr (filter (\<lambda>x. f x \<noteq> a) xs)"
  using assms
proof (induction xs)
  case (Cons y ys)
  show ?case
  proof (cases "f y = a")
    case True
    with Cons.prems(1) have "\<forall>x\<in>set ys. f x \<noteq> a" by (metis distinct.simps(2) image_eqI list.set_map list.simps(9))
    then have "filter (\<lambda>x. f x \<noteq> a) ys = ys" by (rule filter_True)
    with True show ?thesis by (simp add: find_index_Cons)
  next
    case False
    with Cons obtain i where "find_index (\<lambda>x. f x = a) ys = Inr i" "remove_nth i ys = Inr (filter (\<lambda>x. f x \<noteq> a) ys)"
      by (auto simp: bindE_eq_Inr)
    with False show ?thesis by (simp add: find_index_Cons)
  qed
qed simp

lemma mapi_from_shift: "mapi_from (Suc n) f xs = mapi_from n (\<lambda>m. f (Suc m)) xs"
  by (induction xs arbitrary: n) auto

lemma replace_nth_Cons:
  "replace_nth z 0 (x # xs) = z # xs"
  "replace_nth z (Suc n) (x # xs) = x # replace_nth z n xs"
proof -
  have "mapi_from (Suc n) (\<lambda>m y. if 0 = m then z else y) xs = xs" for n
    by (induction xs arbitrary: n) auto
  then show "replace_nth z 0 (x # xs) = z # xs" by (simp add: replace_nth_def)
qed (simp add: replace_nth_def mapi_from_shift)

lemma replace_nth_eq: "replace_nth z n xs = xs[n := z]"
proof (induction xs arbitrary: n)
  case (Cons x xs)
  then show ?case by (cases n) (simp_all add: replace_nth_Cons)
qed (simp add: replace_nth_def)

text \<open>With distinct keys, replacing the first match replaces every match.\<close>

lemma replace_first_distinct:
  assumes "distinct (map f xs)" and "\<exists>x\<in>set xs. f x = a"
  shows "bindE (find_index (\<lambda>x. f x = a) xs) (\<lambda>i. bindE (list_nth xs i) (\<lambda>y. Inr (replace_nth (g y) i xs))) =
    Inr (map (\<lambda>x. if f x = a then g x else x) xs)"
  using assms
proof (induction xs)
  case (Cons y ys)
  show ?case
  proof (cases "f y = a")
    case True
    with Cons.prems(1) have "\<forall>x\<in>set ys. f x \<noteq> a" by (metis distinct.simps(2) image_eqI list.set_map list.simps(9))
    then have "map (\<lambda>x. if f x = a then g x else x) ys = ys" by (simp add: map_idI)
    with True show ?thesis by (simp add: find_index_Cons list_nth_def replace_nth_Cons)
  next
    case False
    with Cons.prems have "\<exists>x\<in>set ys. f x = a" by auto
    with find_index_found [OF this] Cons obtain i where i: "find_index (\<lambda>x. f x = a) ys = Inr i" "i < length ys"
      "replace_nth (g (ys ! i)) i ys = map (\<lambda>x. if f x = a then g x else x) ys"
      by (auto simp: list_nth_def)
    with False show ?thesis by (simp add: find_index_Cons list_nth_def replace_nth_Cons)
  qed
qed simp

lemma allE_total: "(\<And>x. x \<in> set xs \<Longrightarrow> p x = Inr (q x)) \<Longrightarrow> allE p xs = Inr (\<forall>x\<in>set xs. q x)"
  by (induction xs) auto

lemma map2E_zip: "length xs = length ys \<Longrightarrow> map2E f xs ys = Inr (map (\<lambda>(x, y). f x y) (zip xs ys))"
  by (induction xs ys rule: list_induct2) auto

section \<open>Lemmas on sets\<close>

lemma fold_insert_image: "fold (\<lambda>el a. insert (f el) a) xs A = f ` set xs \<union> A"
  by (induction xs arbitrary: A) auto

lemma map_to_image: "finite A \<Longrightarrow> map_to insert {} f A = f ` A"
  by (simp add: map_to_def set_fold_def fold_insert_image)

lemma set_of_list_set [simp]: "set_of_list l = set l"
proof -
  have "foldl (\<lambda>a b. insert b a) A l = set l \<union> A" for A by (induction l arbitrary: A) auto
  then show ?thesis by (simp add: set_of_list_def)
qed

lemma set_fold_collect:
  assumes "finite A" and "\<And>x a. x \<in> A \<Longrightarrow> f x a = a \<union> g x"
  shows "set_fold f A a = a \<union> (\<Union>x\<in>A. g x)"
proof -
  have "fold f xs a = a \<union> (\<Union>x\<in>set xs. g x)" if "set xs \<subseteq> A" for xs a
    using that by (induction xs arbitrary: a) (auto simp: assms(2))
  then show ?thesis using assms(1) by (simp add: set_fold_def)
qed

text \<open>The double fold that composes two sets of pairs.\<close>

lemma fold_pairs_relcomp:
  fixes t1 :: "('a::linorder \<times> 'b::linorder) set" and t2 :: "('b \<times> 'c::linorder) set"
  assumes f: "finite t1" "finite t2"
  shows "set_fold (\<lambda>(x, y) a. set_fold (\<lambda>(w, z) b. if y = w then insert (x, z) b else b) t2 a) t1 {} = t1 O t2"
proof -
  have inner: "set_fold (\<lambda>(w, z) b. if y = w then insert (x, z) b else b) t2 a = a \<union> {(x, z) |z. (y, z) \<in> t2}"
    for x :: 'a and y a
    by (subst set_fold_collect [where g = "\<lambda>(w, z). if y = w then {(x, z)} else {}"]) (use f in \<open>auto split: if_splits\<close>)
  show ?thesis
    by (subst set_fold_collect [where g = "\<lambda>(x, y). {(x, z) |z. (y, z) \<in> t2}"])
      (use f in \<open>auto simp: inner\<close>)
qed

section \<open>Lemmas on maps\<close>

lemma im_wf_distinct: "im_wf m \<Longrightarrow> distinct (map fst m)"
  by (simp add: im_wf_def strict_sorted_iff)

lemma im_mem_iff: "im_mem k m \<longleftrightarrow> k \<in> fst ` set m"
  by (force simp: im_mem_def list_ex_iff)

lemma im_mem_map_of: "im_mem k m \<longleftrightarrow> (\<exists>v. map_of m k = Some v)"
  by (metis im_mem_iff map_of_eq_None_iff not_None_eq)

lemma im_add_keys: "im_mem k m \<Longrightarrow> map fst (im_add k v m) = map fst m"
  by (auto simp: im_add_def)

lemma im_add_lookup: "map_of (im_add k v m) = (map_of m)(k \<mapsto> v)"
proof (cases "im_mem k m")
  case True
  have "map_of (map (\<lambda>(k', v'). if k' = k then (k, v) else (k', v')) m) =
      (if k \<in> fst ` set m then (map_of m)(k \<mapsto> v) else map_of m)"
    by (induction m) (auto simp: fun_eq_iff)
  with True show ?thesis by (simp add: im_add_def im_mem_iff)
next
  case False
  then have "map_of m k = None" by (simp add: im_mem_map_of)
  then have n: "map_of (takeWhile (\<lambda>e. fst e < k) m) k = None"
    by (auto simp: map_of_eq_None_iff dest!: set_takeWhileD)
  let ?l = "takeWhile (\<lambda>e. fst e < k) m" and ?r = "dropWhile (\<lambda>e. fst e < k) m"
  have "map_of m x = (case map_of ?l x of None \<Rightarrow> map_of ?r x | Some y \<Rightarrow> Some y)" for x
    using map_of_append [of ?l ?r] by (simp only: takeWhile_dropWhile_id map_add_def)
  with False n show ?thesis by (auto simp: im_add_def fun_eq_iff map_add_def split: option.splits)
qed

lemma im_add_wf: "im_wf m \<Longrightarrow> im_wf (im_add k v m)"
proof (induction m)
  case (Cons e m)
  obtain k' v' where e: "e = (k', v')" by (cases e)
  from Cons have wf: "im_wf m" "\<forall>x\<in>set m. k' < fst x" by (auto simp: im_wf_def e)
  consider "im_mem k (e # m)" | "\<not> im_mem k (e # m)" "k' < k" | "\<not> im_mem k (e # m)" "k < k'"
    by (fastforce simp: im_mem_iff e)
  then show ?case
  proof cases
    case 1
    then show ?thesis using Cons.prems by (simp add: im_wf_def im_add_keys)
  next
    case 2
    then have "im_add k v (e # m) = e # im_add k v m" by (simp add: im_add_def im_mem_iff e)
    moreover have "\<forall>x\<in>set (im_add k v m). k' < fst x"
      using wf 2 by (auto simp: im_add_def dest: set_takeWhileD set_dropWhileD)
    ultimately show ?thesis using Cons.IH [OF wf(1)] by (simp add: im_wf_def e)
  next
    case 3
    then have "im_add k v (e # m) = (k, v) # e # m" by (simp add: im_add_def e)
    with 3 Cons.prems show ?thesis by (auto simp: im_wf_def e)
  qed
qed (simp add: im_add_def im_mem_def im_wf_def)

lemma im_remove_wf: "im_wf m \<Longrightarrow> im_wf (im_remove k m)"
  unfolding im_wf_def im_remove_def sorted_wrt_map by (rule sorted_wrt_filter)

lemma im_remove_lookup: "map_of (im_remove k m) = (map_of m)(k := None)"
  by (induction m) (auto simp: im_remove_def)

lemma im_remove_keys: "map fst (im_remove k m) = filter (\<lambda>k'. k' \<noteq> k) (map fst m)"
  by (induction m) (auto simp: im_remove_def)

lemma im_remove_length: "im_mem k m \<Longrightarrow> length (im_remove k m) < length m"
proof -
  assume "im_mem k m"
  then obtain v where "(k, v) \<in> set m" by (auto simp: im_mem_iff)
  then show ?thesis unfolding im_remove_def by (rule length_filter_less) simp
qed

interpretation int_map_dict: dictionary "[]" im_add im_remove map_of im_wf
  by unfold_locales (simp_all add: im_add_wf im_add_lookup im_remove_wf im_remove_lookup, simp add: im_wf_def)

lemma im_of_list_wf: "im_wf (im_of_list l)" and im_of_list_lookup: "map_of (im_of_list l) = map_of (rev l)"
  using int_map_dict.of_list [of l] by (simp_all add: im_of_list_def)

lemma im_iter_keys:
  assumes "im_iter f m s = Inr s'" and "map fst s = map fst m"
    and "\<And>k v s s'. im_mem k s \<Longrightarrow> f k v s = Inr s' \<Longrightarrow> map fst s' = map fst s"
  shows "map fst s' = map fst m"
  using assms(1) unfolding im_iter_def
proof (rule foldE_invariant [where I = "\<lambda>s. map fst s = map fst m"])
  fix x s s' assume "x \<in> set m" and s: "map fst s = map fst m" "(case x of (k, v) \<Rightarrow> f k v) s = Inr s'"
  then have "im_mem (fst x) s" by (metis im_mem_iff imageI list.set_map)
  from assms(3) [OF this] s show "map fst s' = map fst m" by (auto split: prod.splits)
qed (rule assms(2))

text \<open>Iterating over a map while replacing each visited binding maps the bindings.\<close>

lemma im_iter_update:
  assumes d: "distinct (map fst m)"
    and f: "\<And>k v s. (k, v) \<in> set m \<Longrightarrow> f k v s = Inr (if c v then im_add k (g v) s else s)"
    and id: "\<And>k v. (k, v) \<in> set m \<Longrightarrow> \<not> c v \<Longrightarrow> g v = v"
  shows "im_iter f m m = Inr (map (\<lambda>(k, v). (k, g v)) m)"
proof -
  have "foldE (\<lambda>(k, v). f k v) zs (map (\<lambda>(k, v). (k, g v)) ys @ zs) = Inr (map (\<lambda>(k, v). (k, g v)) m)"
    if "m = ys @ zs" for ys zs
    using that
  proof (induction zs arbitrary: ys)
    case (Cons z zs)
    obtain k v where z: "z = (k, v)" by (cases z)
    have kv: "(k, v) \<in> set m" using Cons.prems z by simp
    let ?g = "map (\<lambda>(k, v). (k, g v))"
    have notin: "k \<notin> fst ` set ys" "k \<notin> fst ` set zs" using d Cons.prems z by auto
    have rep: "map (\<lambda>(k', v'). if k' = k then (k, w) else (k', v')) xs = xs" if "k \<notin> fst ` set xs" for w and xs :: "(int \<times> 'a) list"
      using that by (induction xs) auto
    have "k \<notin> fst ` set (?g ys)" using notin(1) by (auto simp: image_iff)
    from rep [OF this, of "g v"] rep [OF notin(2), of "g v"]
    have "im_add k (g v) (?g ys @ (k, v) # zs) = ?g (ys @ [(k, v)]) @ zs"
      unfolding im_add_def im_mem_iff map_append by (simp del: map_map)
    then have "f k v (?g ys @ (k, v) # zs) = Inr (?g (ys @ [(k, v)]) @ zs)"
      using f [OF kv] id [OF kv] by simp
    then show ?case using Cons.IH [of "ys @ [(k, v)]"] Cons.prems by (simp add: z)
  qed simp
  from this [of "[]" m] show ?thesis by (simp add: im_iter_def)
qed

lemma im_find_map_total:
  "(\<And>k v. (k, v) \<in> set m \<Longrightarrow> f k v = Inr (p k v)) \<Longrightarrow> im_find_map f m = Inr (find (\<lambda>(k, v). p k v) m)"
  by (induction f m rule: im_find_map.induct) auto

lemma im_find_map_mem: "im_find_map f m = Inr (Some (k, v)) \<Longrightarrow> (k, v) \<in> set m \<and> f k v = Inr True"
  by (induction f m rule: im_find_map.induct) (auto simp: bindE_eq_Inr split: if_splits)

end
