(* ===== verification/Soundcheck.thy ===== *)
theory Soundcheck
  imports Ocaml_Lib Soundness "HOL-Library.Char_ord" "HOL-Library.List_Lexorder"
begin

text \<open>
  The OCaml driver of the soundness check (soundcheck.ml): abstract proofs, their validation
  and minimisation, the sequence of calls that hands one to the C++ checker, and the cached
  check that the prover calls. The theory holds the definitions and the facts about
  validation and minimisation; the driver's correctness is in the next theory.
\<close>

section \<open>Variables\<close>

text \<open>
  Tags and node names are hash-consed strings (varManager.ml): a string with the number that
  \<^verbatim>\<open>to_int\<close> returns and \<^verbatim>\<open>compare\<close> compares. The order below is by number and, to be an
  order on all values of the type, then by string; hash-consing gives different strings
  different numbers.
\<close>

datatype var = Var (hc_tag: int) (hc_node: string)

definition to_int :: "var \<Rightarrow> int" where
  "to_int x = hc_tag x"

instantiation var :: linorder
begin

definition less_eq_var :: "var \<Rightarrow> var \<Rightarrow> bool" where
  "x \<le> y \<longleftrightarrow> (hc_tag x, hc_node x) \<le> (hc_tag y, hc_node y)"

definition less_var :: "var \<Rightarrow> var \<Rightarrow> bool" where
  "x < y \<longleftrightarrow> (hc_tag x, hc_node x) < (hc_tag y, hc_node y)"

instance
  by standard (auto simp: less_eq_var_def less_var_def intro: var.expand)

end

section \<open>Abstract proofs\<close>

type_synonym pairs = "(int \<times> int) set"
type_synonym abstract_node = "int set \<times> (int \<times> pairs \<times> pairs) list"
type_synonym abs_proof = "abstract_node int_map"

definition compose :: "pairs \<Rightarrow> pairs \<Rightarrow> pairs" where
  "compose t1 t2 =
     set_fold (\<lambda>(x, y) a. set_fold (\<lambda>(w, z) b. if y = w then insert (x, z) b else b) t2 a) t1 {}"

definition get_tags :: "abstract_node \<Rightarrow> int set" where
  "get_tags n = fst n"

definition get_subg :: "abstract_node \<Rightarrow> (int \<times> pairs \<times> pairs) list" where
  "get_subg n = snd n"

definition is_leaf :: "abstract_node \<Rightarrow> bool" where
  "is_leaf n \<longleftrightarrow> get_subg n = []"

definition in_children :: "int \<Rightarrow> abstract_node \<Rightarrow> bool" where
  "in_children child n \<longleftrightarrow> list_ex (\<lambda>(i, _, _). i = child) (get_subg n)"

definition index_of_child :: "int \<Rightarrow> abstract_node \<Rightarrow> nat result" where
  "index_of_child child n = find_index (\<lambda>(i, _, _). i = child) (snd n)"

definition to_ints :: "var set \<Rightarrow> int set" where
  "to_ints vs = map_to insert {} to_int vs"

definition mk_abs_node ::
  "var set \<Rightarrow> int list \<Rightarrow> ((var \<times> var) set \<times> (var \<times> var) set) list \<Rightarrow> abstract_node result" where
  "mk_abs_node tags succs tps_pair =
     (let tags = to_ints tags;
          ints = map_to insert {} (\<lambda>(t, u). (to_int t, to_int u))
      in bindE (map2E (\<lambda>i (tps, tps'). (i, ints tps, ints tps')) succs tps_pair)
           (\<lambda>subg. Inr (tags, subg)))"

definition build_proof ::
  "(int \<times> int list \<times> (int \<times> (int \<times> int) list \<times> (int \<times> int) list) list) list \<Rightarrow> abs_proof" where
  "build_proof nodes =
     im_of_list (map (\<lambda>(id, tags, premises).
       (id, (set_of_list tags,
             map (\<lambda>(target, allpairs, progpairs). (target, set_of_list allpairs, set_of_list progpairs)) premises)))
       nodes)"

definition is_single_node :: "int \<Rightarrow> abstract_node \<Rightarrow> bool" where
  "is_single_node idx n = (case get_subg n of [(idx', _, _)] \<Rightarrow> idx' \<noteq> idx | _ \<Rightarrow> False)"

definition fathers_grandchild :: "abs_proof \<Rightarrow> int \<Rightarrow> abstract_node \<Rightarrow> bool result" where
  "fathers_grandchild prf idx n =
     (case get_subg n of
        [(grandchild, _, _)] \<Rightarrow>
          if idx = grandchild then Inl (Invalid_argument ''fathers_grandchild1'')
          else Inr (im_exists (\<lambda>idx' par_node. in_children idx par_node \<and> in_children grandchild par_node) prf)
      | _ \<Rightarrow> Inl (Invalid_argument ''fathers_grandchild2''))"

section \<open>Minimisation\<close>

text \<open>
  The reference cell \<^verbatim>\<open>prf\<close> is the state that the functions below pass on. \<^verbatim>\<open>Int.Map.iter\<close>
  runs over the map that the cell held when the iteration started.
\<close>

definition dead_process_node :: "int \<Rightarrow> int \<Rightarrow> abstract_node \<Rightarrow> abs_proof \<Rightarrow> abs_proof result" where
  "dead_process_node child par_idx n prf =
     (if \<not> in_children child n then Inr prf
      else bindE
        (case n of (tags, subg) \<Rightarrow>
           (case subg of
              [_] \<Rightarrow> Inr (tags, [])
            | _ \<Rightarrow> bindE (index_of_child child n) (\<lambda>i.
                bindE (remove_nth i subg) (\<lambda>subg'. Inr (tags, subg')))))
        (\<lambda>newparent. Inr (im_add par_idx newparent prf)))"

definition remove_dead_node :: "int \<Rightarrow> abs_proof \<Rightarrow> abs_proof result" where
  "remove_dead_node idx prf =
     (let prf' = im_remove idx prf in im_iter (\<lambda>p n. dead_process_node idx p n) prf' prf')"

definition dead_candidate :: "abs_proof \<Rightarrow> (int \<times> abstract_node) option result" where
  "dead_candidate prf = im_find_map (\<lambda>idx n. Inr (idx \<noteq> 0 \<and> is_leaf n)) prf"

definition fuse_process_node ::
  "int \<Rightarrow> int \<Rightarrow> pairs \<Rightarrow> pairs \<Rightarrow> int \<Rightarrow> abstract_node \<Rightarrow> abs_proof \<Rightarrow> abs_proof result" where
  "fuse_process_node child grand_child tv tp par_idx n prf =
     (if \<not> in_children child n then Inr prf
      else case n of (par_tags, par_subg) \<Rightarrow>
        bindE (index_of_child child n) (\<lambda>pos.
        bindE (list_nth par_subg pos) (\<lambda>(_, par_tv, par_tp).
        let newsubg = replace_nth
              (grand_child, compose par_tv tv,
               union_of_list [compose par_tp tp, compose par_tv tp, compose par_tp tv])
              pos par_subg
        in Inr (im_add par_idx (par_tags, newsubg) prf))))"

definition fuse_node :: "int \<Rightarrow> abstract_node \<Rightarrow> abs_proof \<Rightarrow> abs_proof result" where
  "fuse_node idx n prf =
     (case n of
        (tags, [(child, tv, tp)]) \<Rightarrow>
          bindE (im_iter (\<lambda>p n. fuse_process_node idx child tv tp p n) prf prf)
            (\<lambda>prf'. Inr (im_remove idx prf'))
      | _ \<Rightarrow> Inl (Invalid_argument ''fuse_node''))"

text \<open>The predicate \<^verbatim>\<open>p\<close> of \<^verbatim>\<open>fuse_single_nodes\<close>, with the short-circuit of \<^verbatim>\<open>&&\<close>.\<close>

definition fuse_candidate :: "int \<Rightarrow> abs_proof \<Rightarrow> (int \<times> abstract_node) option result" where
  "fuse_candidate init prf =
     im_find_map (\<lambda>idx n.
       if idx = init then Inr False
       else if \<not> is_single_node idx n then Inr False
       else bindE (fathers_grandchild prf idx n) (\<lambda>b. Inr (\<not> b))) prf"

subsection \<open>The loops end\<close>

lemma bindE_cong [fundef_cong]:
  "r = r' \<Longrightarrow> (\<And>x. r' = Inr x \<Longrightarrow> k x = k' x) \<Longrightarrow> bindE r k = bindE r' k'"
  by (cases r') auto

lemma dead_process_keys:
  "im_mem p prf \<Longrightarrow> dead_process_node c p n prf = Inr prf' \<Longrightarrow> map fst prf' = map fst prf"
  by (auto simp: dead_process_node_def bindE_eq_Inr im_add_keys split: if_splits)

lemma fuse_process_keys:
  "im_mem p prf \<Longrightarrow> fuse_process_node c g tv tp p n prf = Inr prf' \<Longrightarrow> map fst prf' = map fst prf"
  by (auto simp: fuse_process_node_def bindE_eq_Inr im_add_keys Let_def split: if_splits prod.splits)

lemma remove_dead_node_keys:
  "remove_dead_node idx prf = Inr prf' \<Longrightarrow> map fst prf' = map fst (im_remove idx prf)"
  unfolding remove_dead_node_def Let_def by (erule im_iter_keys) (auto intro: dead_process_keys)

lemma fuse_node_keys:
  assumes "fuse_node idx n prf = Inr prf'"
  shows "map fst prf' = map fst (im_remove idx prf)"
proof -
  obtain c g tv tp prf1 where "im_iter (\<lambda>p n. fuse_process_node idx g tv tp p n) prf prf = Inr prf1"
    and prf': "prf' = im_remove idx prf1"
    using assms by (auto simp: fuse_node_def bindE_eq_Inr split: prod.splits list.splits)
  then have "map fst prf1 = map fst prf" by (elim im_iter_keys) (auto intro: fuse_process_keys)
  then show ?thesis by (simp add: prf' im_remove_keys)
qed

lemma im_remove_shorter:
  assumes "im_find_map f prf = Inr (Some (idx, n))" and "map fst prf' = map fst (im_remove idx prf)"
  shows "length prf' < length prf"
proof -
  have "im_mem idx prf" using im_find_map_mem [OF assms(1)] by (force simp: im_mem_iff)
  with assms(2) im_remove_length show ?thesis by (metis length_map)
qed

function remove_dead_nodes :: "abs_proof \<Rightarrow> abs_proof result" where
  "remove_dead_nodes prf =
     bindE (dead_candidate prf) (\<lambda>r. case r of
        Some (idx, n) \<Rightarrow> bindE (remove_dead_node idx prf) remove_dead_nodes
      | None \<Rightarrow> Inr prf)"
  by pat_completeness auto
termination
  by (relation "measure length")
    (auto simp: dead_candidate_def intro: im_remove_shorter dest: remove_dead_node_keys)

function fuse_single_nodes :: "abs_proof \<Rightarrow> int \<Rightarrow> abs_proof result" where
  "fuse_single_nodes prf init =
     bindE (fuse_candidate init prf) (\<lambda>r. case r of
        Some (idx, n) \<Rightarrow> bindE (fuse_node idx n prf) (\<lambda>prf'. fuse_single_nodes prf' init)
      | None \<Rightarrow> Inr prf)"
  by pat_completeness auto
termination
  by (relation "measure (length \<circ> fst)")
    (auto simp: fuse_candidate_def intro: im_remove_shorter dest: fuse_node_keys)

declare remove_dead_nodes.simps [simp del] fuse_single_nodes.simps [simp del]

definition minimize_abs_proof :: "abs_proof \<Rightarrow> int \<Rightarrow> abs_proof result" where
  "minimize_abs_proof prf init = bindE (remove_dead_nodes prf) (\<lambda>prf'. fuse_single_nodes prf' init)"

section \<open>Validation\<close>

text \<open>The messages printed before a \<^verbatim>\<open>false\<close> are not modelled.\<close>

definition projectl :: "pairs \<Rightarrow> int set" where
  "projectl tps = map_to insert {} fst tps"

definition projectr :: "pairs \<Rightarrow> int set" where
  "projectr tps = map_to insert {} snd tps"

definition valid_premise :: "abs_proof \<Rightarrow> abstract_node \<Rightarrow> int \<times> pairs \<times> pairs \<Rightarrow> bool result" where
  "valid_premise prf n = (\<lambda>(i, tv, tp).
     if \<not> im_mem i prf then Inr False
     else if \<not> tp \<subseteq> tv then Inr False
     else if \<not> projectl tv \<subseteq> get_tags n then Inr False
     else bindE (im_find i prf) (\<lambda>m. if \<not> projectr tv \<subseteq> get_tags m then Inr False else Inr True))"

definition valid :: "abs_proof \<Rightarrow> int \<Rightarrow> bool result" where
  "valid prf init =
     (if \<not> im_mem init prf then Inr False
      else allE (\<lambda>(n_idx, n). allE (valid_premise prf n) (get_subg n)) prf)"

section \<open>The drivers\<close>

text \<open>
  The first \<^verbatim>\<open>check_proof\<close> of the file, which the second one shadows: it hands a proof to
  the C interface. \<open>ceil_log\<close> stands for \<^verbatim>\<open>int_of_float (ceil (log (float_of_int size) /. log 2.0))\<close>,
  whose value depends on the rounding of the floating-point library.
\<close>

definition create_tags :: "int \<Rightarrow> abstract_node \<Rightarrow> 'b checker \<Rightarrow> 'b checker result" where
  "create_tags i n = set_iter (tag_vertex i) (get_tags n)"

definition create_succs :: "int \<Rightarrow> abstract_node \<Rightarrow> 'b checker \<Rightarrow> 'b checker result" where
  "create_succs i n = foldE (\<lambda>(j, _, _). set_successor i j) (snd n)"

definition do_tag_transitions :: "int \<Rightarrow> int \<times> pairs \<times> pairs \<Rightarrow> 'b checker \<Rightarrow> 'b checker result" where
  "do_tag_transitions i = (\<lambda>(j, tvs, tps) st.
     bindE (set_iter (\<lambda>(k, m). set_trace_pair i j k m) tvs st)
       (set_iter (\<lambda>(k, m). set_progress_pair i j k m) tps))"

definition create_trace_pairs :: "int \<Rightarrow> abstract_node \<Rightarrow> 'b checker \<Rightarrow> 'b checker result" where
  "create_trace_pairs i n = foldE (do_tag_transitions i) (snd n)"

definition mc_check_proof ::
  "'b bdd_pkg \<Rightarrow> ('b, 'g) spot_pkg \<Rightarrow> (nat \<Rightarrow> int) \<Rightarrow> int \<Rightarrow> abs_proof \<Rightarrow> 'b checker \<Rightarrow> (bool \<times> 'b checker) result" where
  "mc_check_proof B S ceil_log init p st =
     (let size = length p; log2size = 1 + ceil_log size in
      bindE (create_aut B log2size st) (\<lambda>st.
      bindE (im_iter (\<lambda>i _. create_vertex B i) p st) (\<lambda>st.
      bindE (im_iter create_tags p st) (\<lambda>st.
      bindE (im_iter create_succs p st) (\<lambda>st.
      bindE (set_initial_vertex init st) (\<lambda>st.
      bindE (im_iter create_trace_pairs p st) (\<lambda>st.
      bindE (check_soundness B S st) (\<lambda>retval.
      bindE (destroy_aut st) (\<lambda>st.
      Inr (retval, st))))))))))"

text \<open>
  The exported \<^verbatim>\<open>check_proof\<close>. The hash table \<^verbatim>\<open>ccache\<close> is the list of its bindings, the
  newest first. It compares keys structurally, as trees: \<open>same\<close> is that comparison. Equal
  trees have equal bindings; maps with equal bindings that were built in different orders
  may be different trees.
\<close>

type_synonym cache = "(abs_proof \<times> bool) list"

definition cache_find :: "(abs_proof \<Rightarrow> abs_proof \<Rightarrow> bool) \<Rightarrow> abs_proof \<Rightarrow> cache \<Rightarrow> bool option" where
  "cache_find same key c = map_option snd (find (\<lambda>(k, _). same k key) c)"

definition check_proof ::
  "'b bdd_pkg \<Rightarrow> ('b, 'g) spot_pkg \<Rightarrow> (nat \<Rightarrow> int) \<Rightarrow> (abs_proof \<Rightarrow> abs_proof \<Rightarrow> bool) \<Rightarrow>
   int \<Rightarrow> abs_proof \<Rightarrow> cache \<times> 'b checker \<Rightarrow> (bool \<times> cache \<times> 'b checker) result" where
  "check_proof B S ceil_log same init prf s =
     (case s of (ccache, st) \<Rightarrow>
      if prf = [] then Inr (True, ccache, st)
      else bindE (valid prf init) (\<lambda>ok. asserting ''valid prf init'' ok
        (bindE (minimize_abs_proof prf init) (\<lambda>aprf.
         if aprf = [] then Inr (True, ccache, st)
         else bindE (valid aprf init) (\<lambda>ok. asserting ''valid aprf init'' ok
           (case cache_find same aprf ccache of
              Some r \<Rightarrow> Inr (r, ccache, st)
            | None \<Rightarrow> bindE (mc_check_proof B S ceil_log init aprf st)
                (\<lambda>(r, st). Inr (r, (aprf, r) # ccache, st))))))))"

section \<open>What an abstract proof means\<close>

text \<open>Pairs of variables as pairs of their numbers.\<close>

definition ints :: "(var \<times> var) set \<Rightarrow> pairs" where
  "ints R = (\<lambda>(t, u). (to_int t, to_int u)) ` R"

definition abs_graph :: "abs_proof \<Rightarrow> (int, int) tgraph" where
  "abs_graph p =
     \<lparr>tg_edge = (\<lambda>i j. \<exists>n tv tp. map_of p i = Some n \<and> (j, tv, tp) \<in> set (snd n)),
      tg_valid = (\<lambda>i j. {tu. \<exists>n tv tp. map_of p i = Some n \<and> (j, tv, tp) \<in> set (snd n) \<and> tu \<in> tv}),
      tg_prog = (\<lambda>i j. {tu. \<exists>n tv tp. map_of p i = Some n \<and> (j, tv, tp) \<in> set (snd n) \<and> tu \<in> tp})\<rparr>"

text \<open>
  The representation invariant: keys in order, finite sets, and no two premises of a node
  that are the same node.
\<close>

definition node_ok :: "abstract_node \<Rightarrow> bool" where
  "node_ok n \<longleftrightarrow> finite (fst n) \<and> distinct (map fst (snd n)) \<and>
     (\<forall>(j, tv, tp) \<in> set (snd n). finite tv \<and> finite tp)"

definition abs_ok :: "abs_proof \<Rightarrow> bool" where
  "abs_ok p \<longleftrightarrow> im_wf p \<and> (\<forall>(i, n) \<in> set p. node_ok n)"

text \<open>What \<^verbatim>\<open>valid\<close> checks of the premises.\<close>

definition premise_ok :: "abs_proof \<Rightarrow> abstract_node \<Rightarrow> int \<times> pairs \<times> pairs \<Rightarrow> bool" where
  "premise_ok p n e = (case e of (j, tv, tp) \<Rightarrow>
     tp \<subseteq> tv \<and> fst ` tv \<subseteq> fst n \<and> (\<exists>m. map_of p j = Some m \<and> snd ` tv \<subseteq> fst m))"

definition abs_closed :: "abs_proof \<Rightarrow> bool" where
  "abs_closed p \<longleftrightarrow> (\<forall>(i, n) \<in> set p. \<forall>e \<in> set (snd n). premise_ok p n e)"

lemma ints_map_to: "finite R \<Longrightarrow> map_to insert {} (\<lambda>(t, u). (to_int t, to_int u)) R = ints R"
  by (simp add: map_to_image ints_def)

lemma ints_proj: "fst ` ints R = to_int ` fst ` R" "snd ` ints R = to_int ` snd ` R"
  by (force simp: ints_def)+

lemmas node_simps = get_tags_def get_subg_def is_leaf_def in_children_def

lemma abs_okD:
  assumes "abs_ok p" and "map_of p i = Some n"
  shows "finite (fst n)" "distinct (map fst (snd n))" "(j, tv, tp) \<in> set (snd n) \<Longrightarrow> finite tv \<and> finite tp"
proof -
  have "node_ok n" using assms(1) map_of_SomeD [OF assms(2)] unfolding abs_ok_def by blast
  then show "finite (fst n)" "distinct (map fst (snd n))" "(j, tv, tp) \<in> set (snd n) \<Longrightarrow> finite tv \<and> finite tp"
    unfolding node_ok_def by blast+
qed

lemma abs_closedD:
  assumes "abs_closed p" and "map_of p i = Some n" and "(j, tv, tp) \<in> set (snd n)"
  shows "tp \<subseteq> tv" "fst ` tv \<subseteq> fst n" "\<exists>m. map_of p j = Some m \<and> snd ` tv \<subseteq> fst m"
proof -
  have "premise_ok p n (j, tv, tp)"
    using assms(1,3) map_of_SomeD [OF assms(2)] unfolding abs_closed_def by blast
  then show "tp \<subseteq> tv" "fst ` tv \<subseteq> fst n" "\<exists>m. map_of p j = Some m \<and> snd ` tv \<subseteq> fst m"
    unfolding premise_ok_def by blast+
qed

lemma abs_ok_lookup: "abs_ok p \<Longrightarrow> map_of p i = Some n \<longleftrightarrow> (i, n) \<in> set p"
  by (simp add: abs_ok_def im_wf_distinct)

lemma same_entry:
  assumes "distinct (map fst xs)" and "(j, a) \<in> set xs" and "(j, b) \<in> set xs"
  shows "a = b"
  using assms by (metis eq_key_imp_eq_value)

lemma abs_graph_entry:
  assumes ok: "abs_ok p" and n: "map_of p i = Some n" and e: "(j, tv, tp) \<in> set (snd n)"
  shows "tg_edge (abs_graph p) i j" "tg_valid (abs_graph p) i j = tv" "tg_prog (abs_graph p) i j = tp"
proof -
  have u: "tv' = tv \<and> tp' = tp" if "(j, tv', tp') \<in> set (snd n)" for tv' tp'
    using same_entry [OF abs_okD(2) [OF ok n] that e] by simp
  show "tg_edge (abs_graph p) i j"
    unfolding abs_graph_def tgraph.simps using n e by blast
  have "{tu. \<exists>n tv tp. map_of p i = Some n \<and> (j, tv, tp) \<in> set (snd n) \<and> tu \<in> tv} = tv"
    "{tu. \<exists>n tv tp. map_of p i = Some n \<and> (j, tv, tp) \<in> set (snd n) \<and> tu \<in> tp} = tp"
    unfolding n option.inject using e u by blast+
  then show "tg_valid (abs_graph p) i j = tv" "tg_prog (abs_graph p) i j = tp"
    unfolding abs_graph_def tgraph.simps by blast+
qed

lemma abs_graph_edgeE:
  assumes "tg_edge (abs_graph p) i j"
  obtains n tv tp where "map_of p i = Some n" "(j, tv, tp) \<in> set (snd n)"
  using assms unfolding abs_graph_def tgraph.simps by blast

lemma compose_relcomp: "finite t1 \<Longrightarrow> finite t2 \<Longrightarrow> compose t1 t2 = t1 O t2"
  unfolding compose_def by (rule fold_pairs_relcomp)

lemma valid_iff:
  assumes ok: "abs_ok p"
  shows "valid p init = Inr (im_mem init p \<and> abs_closed p)"
proof -
  have premise: "valid_premise p n e = Inr (premise_ok p n e)" if n: "(i, n) \<in> set p" "e \<in> set (snd n)" for i n e
  proof -
    obtain j tv tp where e: "e = (j, tv, tp)" by (cases e)
    have "finite tv" using ok n by (auto simp: abs_ok_def node_ok_def e)
    then show ?thesis
      by (cases "map_of p j")
        (auto simp: valid_premise_def premise_ok_def im_mem_map_of im_find_def projectl_def projectr_def
          map_to_image get_tags_def e)
  qed
  have "allE (valid_premise p n) (get_subg n) = Inr (\<forall>e\<in>set (snd n). premise_ok p n e)" if "(i, n) \<in> set p" for i n
    using allE_total [of "snd n" "valid_premise p n" "premise_ok p n"] premise [OF that] by (simp add: get_subg_def)
  then have "allE (\<lambda>(n_idx, n). allE (valid_premise p n) (get_subg n)) p = Inr (abs_closed p)"
    by (subst allE_total [where q = "\<lambda>(i, n). \<forall>e\<in>set (snd n). premise_ok p n e"]) (auto simp: abs_closed_def)
  then show ?thesis by (simp add: valid_def)
qed

end
