(* ===== verification/Minimise.thy ===== *)
theory Minimise
  imports Soundcheck
begin

text \<open>
  The minimisation of abstract proofs (soundcheck.ml, \<^verbatim>\<open>remove_dead_nodes\<close> and
  \<^verbatim>\<open>fuse_single_nodes\<close>) keeps an abstract proof well-formed and its global trace condition
  unchanged. Each step of the loops is first shown equal to a map over the bindings.
\<close>

section \<open>Removing a leaf\<close>

definition drop_child :: "int \<Rightarrow> abstract_node \<Rightarrow> abstract_node" where
  "drop_child x n = (fst n, filter (\<lambda>e. fst e \<noteq> x) (snd n))"

definition without_leaf :: "int \<Rightarrow> abs_proof \<Rightarrow> abs_proof" where
  "without_leaf x p = map (\<lambda>(k, n). (k, drop_child x n)) (im_remove x p)"

lemma child_test: "(\<lambda>(i, _, _). i = c) = (\<lambda>e. fst e = c)"
  by (simp add: case_prod_unfold)

lemma in_children_iff: "in_children c n \<longleftrightarrow> c \<in> fst ` set (snd n)"
  unfolding in_children_def get_subg_def child_test list_ex_iff image_iff by metis

lemma dead_process_ok:
  assumes "node_ok n"
  shows "dead_process_node c k n s = Inr (if in_children c n then im_add k (drop_child c n) s else s)"
proof (cases "in_children c n")
  case True
  obtain tags subg where n: "n = (tags, subg)" by (cases n)
  have d: "distinct (map fst subg)" and c: "\<exists>e\<in>set subg. fst e = c"
    using assms True by (auto simp: node_ok_def n in_children_iff)
  obtain i where i: "find_index (\<lambda>e. fst e = c) subg = Inr i" "remove_nth i subg = Inr (filter (\<lambda>e. fst e \<noteq> c) subg)"
    using remove_first_distinct [OF d c] unfolding bindE_eq_Inr by blast
  show ?thesis
  proof (cases "\<exists>e. subg = [e]")
    case single: True
    then obtain e where "subg = [e]" by blast
    with True c show ?thesis by (simp add: dead_process_node_def n drop_child_def)
  next
    case False
    then have "(case subg of [_] \<Rightarrow> Inr (tags, []) | _ \<Rightarrow> r) = r" for r :: "abstract_node result"
      by (cases subg; cases "tl subg") auto
    moreover have "index_of_child c n = Inr i" using i(1) by (simp add: index_of_child_def n child_test)
    ultimately show ?thesis using True i(2) by (simp add: dead_process_node_def n drop_child_def)
  qed
qed (simp add: dead_process_node_def)

lemma drop_child_id: "\<not> in_children c n \<Longrightarrow> drop_child c n = n"
proof -
  assume "\<not> in_children c n"
  then have "\<forall>e\<in>set (snd n). fst e \<noteq> c" unfolding in_children_iff by blast
  then have "filter (\<lambda>e. fst e \<noteq> c) (snd n) = snd n" by (rule filter_True)
  then show ?thesis by (simp only: drop_child_def prod.collapse)
qed

lemma remove_dead_node_eq:
  assumes ok: "abs_ok p"
  shows "remove_dead_node x p = Inr (without_leaf x p)"
  unfolding remove_dead_node_def Let_def without_leaf_def
proof (rule im_iter_update)
  have wf: "im_wf (im_remove x p)" using ok by (simp add: abs_ok_def im_remove_wf)
  then show "distinct (map fst (im_remove x p))" by (rule im_wf_distinct)
  fix k n assume "(k, n) \<in> set (im_remove x p)"
  then have "node_ok n" using ok by (auto simp: im_remove_def abs_ok_def)
  then show "dead_process_node x k n s = Inr (if in_children x n then im_add k (drop_child x n) s else s)" for s
    by (rule dead_process_ok)
qed (rule drop_child_id)

lemma without_leaf_lookup:
  "map_of (without_leaf x p) i = (if i = x then None else map_option (drop_child x) (map_of p i))"
  by (simp add: without_leaf_def map_of_map im_remove_lookup)

lemma drop_child_simps [simp]: "fst (drop_child x n) = fst n" "e \<in> set (snd (drop_child x n)) \<longleftrightarrow> e \<in> set (snd n) \<and> fst e \<noteq> x"
  by (auto simp: drop_child_def)

lemma map_keys_wf: "im_wf (map (\<lambda>(k, n). (k, g n)) m) \<longleftrightarrow> im_wf m"
  by (simp add: im_wf_def comp_def case_prod_unfold)

lemma without_leaf_ok:
  assumes "abs_ok p"
  shows "abs_ok (without_leaf x p)"
proof -
  have "im_wf (without_leaf x p)"
    using assms by (simp add: without_leaf_def map_keys_wf im_remove_wf abs_ok_def)
  moreover have "node_ok (drop_child x n)" if "node_ok n" for n
    using that by (auto simp: node_ok_def drop_child_def distinct_map inj_on_def)
  ultimately show ?thesis
    using assms by (auto simp: abs_ok_def without_leaf_def im_remove_def)
qed

lemma abs_closedI:
  assumes ok: "abs_ok p"
    and "\<And>i n j tv tp. map_of p i = Some n \<Longrightarrow> (j, tv, tp) \<in> set (snd n) \<Longrightarrow>
      tp \<subseteq> tv \<and> fst ` tv \<subseteq> fst n \<and> (\<exists>m. map_of p j = Some m \<and> snd ` tv \<subseteq> fst m)"
  shows "abs_closed p"
proof -
  have "premise_ok p n e" if "(i, n) \<in> set p" "e \<in> set (snd n)" for i n e
    using assms(2) [of i n "fst e" "fst (snd e)" "snd (snd e)"] that abs_ok_lookup [OF ok, of i n]
    by (simp add: premise_ok_def case_prod_unfold)
  then show ?thesis by (auto simp only: abs_closed_def split: prod.split)
qed

lemma without_leaf_closed:
  assumes ok: "abs_ok p" and cl: "abs_closed p"
  shows "abs_closed (without_leaf x p)"
proof (rule abs_closedI [OF without_leaf_ok [OF ok]])
  fix i n' j tv tp
  assume n': "map_of (without_leaf x p) i = Some n'" and e: "(j, tv, tp) \<in> set (snd n')"
  then obtain n where n: "map_of p i = Some n" "n' = drop_child x n"
    by (auto simp: without_leaf_lookup split: if_splits)
  with e have e': "(j, tv, tp) \<in> set (snd n)" "j \<noteq> x" by auto
  note c = abs_closedD [OF cl n(1) e'(1)]
  from c(3) obtain m where "map_of p j = Some m" "snd ` tv \<subseteq> fst m" by blast
  with e'(2) have m: "map_of (without_leaf x p) j = Some (drop_child x m)" "snd ` tv \<subseteq> fst (drop_child x m)"
    by (simp_all add: without_leaf_lookup)
  have "fst ` tv \<subseteq> fst n'" using c(2) n(2) by (simp only: drop_child_simps)
  with c(1) m show "tp \<subseteq> tv \<and> fst ` tv \<subseteq> fst n' \<and>
      (\<exists>m. map_of (without_leaf x p) j = Some m \<and> snd ` tv \<subseteq> fst m)"
    by (intro conjI exI)
qed

lemma without_leaf_graph:
  assumes ok: "abs_ok p" and leaf: "map_of p x = Some n" "is_leaf n"
  shows "tg_edge (abs_graph (without_leaf x p)) i j \<longleftrightarrow> tg_edge (abs_graph p) i j \<and> j \<noteq> x"
    and "tg_edge (abs_graph p) i j \<Longrightarrow> j \<noteq> x \<Longrightarrow>
      tg_valid (abs_graph (without_leaf x p)) i j = tg_valid (abs_graph p) i j \<and>
      tg_prog (abs_graph (without_leaf x p)) i j = tg_prog (abs_graph p) i j"
    and "\<not> tg_edge (abs_graph p) x j"
proof -
  have empty: "snd n = []" using leaf(2) by (simp add: node_simps)
  show "\<not> tg_edge (abs_graph p) x j"
  proof
    assume "tg_edge (abs_graph p) x j"
    then show False using leaf(1) empty by (elim abs_graph_edgeE) simp
  qed
  have entry: "map_of (without_leaf x p) i = Some (drop_child x m) \<and> (j, tv, tp) \<in> set (snd (drop_child x m))"
    if e: "map_of p i = Some m" "(j, tv, tp) \<in> set (snd m)" "j \<noteq> x" for m tv tp
  proof -
    have "i \<noteq> x" using e(1,2) leaf(1) empty by auto
    with e show ?thesis by (simp add: without_leaf_lookup)
  qed
  note ok' = without_leaf_ok [OF ok, of x]
  show "tg_edge (abs_graph (without_leaf x p)) i j \<longleftrightarrow> tg_edge (abs_graph p) i j \<and> j \<noteq> x"
  proof
    assume "tg_edge (abs_graph p) i j \<and> j \<noteq> x"
    then obtain m tv tp where "map_of p i = Some m" "(j, tv, tp) \<in> set (snd m)" "j \<noteq> x"
      by (elim conjE abs_graph_edgeE) (rule that)
    from entry [OF this] show "tg_edge (abs_graph (without_leaf x p)) i j"
      by (elim conjE) (rule abs_graph_entry(1) [OF ok'])
  next
    assume "tg_edge (abs_graph (without_leaf x p)) i j"
    then obtain m tv tp where m: "map_of (without_leaf x p) i = Some m" "(j, tv, tp) \<in> set (snd m)"
      by (rule abs_graph_edgeE)
    then obtain m' where m': "map_of p i = Some m'" "m = drop_child x m'"
      unfolding without_leaf_lookup by (cases "i = x") auto
    with m(2) have "(j, tv, tp) \<in> set (snd m')" "j \<noteq> x" by simp_all
    with abs_graph_entry(1) [OF ok m'(1) this(1)] show "tg_edge (abs_graph p) i j \<and> j \<noteq> x" by blast
  qed
  assume "tg_edge (abs_graph p) i j" and j: "j \<noteq> x"
  then obtain m tv tp where m: "map_of p i = Some m" "(j, tv, tp) \<in> set (snd m)"
    by (elim abs_graph_edgeE) (rule that)
  note e = entry [OF m j]
  show "tg_valid (abs_graph (without_leaf x p)) i j = tg_valid (abs_graph p) i j \<and>
      tg_prog (abs_graph (without_leaf x p)) i j = tg_prog (abs_graph p) i j"
    using abs_graph_entry [OF ok m] abs_graph_entry [OF ok' e [THEN conjunct1] e [THEN conjunct2]] by simp
qed

lemma without_leaf_gtc:
  assumes "abs_ok p" and "map_of p x = Some n" "is_leaf n"
  shows "gtc (abs_graph (without_leaf x p)) k = gtc (abs_graph p) k"
  by (rule gtc_remove_sink [of _ x]) (use without_leaf_graph [OF assms] in auto)

lemma without_leaf_path:
  assumes "abs_ok p" and "map_of p x = Some n" "is_leaf n"
  shows "tg_path (abs_graph (without_leaf x p)) k w \<longleftrightarrow> tg_path (abs_graph p) k w"
proof -
  have "w (Suc i) \<noteq> x" if "tg_path (abs_graph p) k w" for i
    using tg_path_avoids_sinks [OF that] without_leaf_graph(3) [OF assms] by blast
  then show ?thesis by (auto simp: tg_path_def without_leaf_graph(1) [OF assms])
qed

section \<open>Removing every dead node\<close>

definition no_dead_nodes :: "abs_proof \<Rightarrow> bool" where
  "no_dead_nodes p \<longleftrightarrow> (\<forall>(i, n) \<in> set p. i = 0 \<or> \<not> is_leaf n)"

lemma dead_candidate_eq: "dead_candidate p = Inr (find (\<lambda>(i, n). i \<noteq> 0 \<and> is_leaf n) p)"
  unfolding dead_candidate_def by (rule im_find_map_total) simp

text \<open>The properties that the steps of both loops keep, for every start node of a set.\<close>

definition min_rel :: "abs_proof \<Rightarrow> abs_proof \<Rightarrow> int set \<Rightarrow> bool" where
  "min_rel p p' K \<longleftrightarrow> abs_ok p' \<and> abs_closed p' \<and>
     (\<forall>k\<in>K. gtc (abs_graph p') k = gtc (abs_graph p) k) \<and>
     (\<forall>i n'. map_of p' i = Some n' \<longrightarrow> (\<exists>n. map_of p i = Some n \<and> fst n = fst n'))"

lemma min_relD:
  assumes "min_rel p p' K"
  shows "abs_ok p'" "abs_closed p'" "k \<in> K \<Longrightarrow> gtc (abs_graph p') k = gtc (abs_graph p) k"
    "map_of p' i = Some n' \<Longrightarrow> \<exists>n. map_of p i = Some n \<and> fst n = fst n'"
  using assms unfolding min_rel_def by blast+

lemma min_rel_refl: "abs_ok p \<Longrightarrow> abs_closed p \<Longrightarrow> min_rel p p K"
  by (simp add: min_rel_def)

lemma min_rel_trans:
  assumes a: "min_rel p p' K" and b: "min_rel p' p'' K"
  shows "min_rel p p'' K"
  unfolding min_rel_def
proof (intro conjI ballI allI impI)
  show "gtc (abs_graph p'') k = gtc (abs_graph p) k" if "k \<in> K" for k
    using min_relD(3) [OF a that] min_relD(3) [OF b that] by simp
  show "\<exists>n. map_of p i = Some n \<and> fst n = fst n'" if "map_of p'' i = Some n'" for i n'
    using min_relD(4) [OF b that] min_relD(4) [OF a] by metis
qed (use min_relD(1,2) [OF b] in auto)

lemma min_rel_mono: "min_rel p p' K \<Longrightarrow> L \<subseteq> K \<Longrightarrow> min_rel p p' L"
  unfolding min_rel_def by blast

lemma without_leaf_min_rel:
  assumes "abs_ok p" "abs_closed p" "map_of p x = Some n" "is_leaf n"
  shows "min_rel p (without_leaf x p) UNIV"
  using without_leaf_ok [OF assms(1)] without_leaf_closed [OF assms(1,2)] without_leaf_gtc [OF assms(1,3,4)]
  unfolding min_rel_def by (auto simp: without_leaf_lookup drop_child_def split: if_splits)

lemma remove_dead_nodes_ok:
  assumes "abs_ok p" and "abs_closed p"
  shows "\<exists>p'. remove_dead_nodes p = Inr p' \<and> min_rel p p' UNIV \<and> no_dead_nodes p' \<and>
    (im_mem 0 p \<longrightarrow> im_mem 0 p') \<and> (\<forall>k w. tg_path (abs_graph p') k w \<longleftrightarrow> tg_path (abs_graph p) k w)"
  using assms
proof (induction p rule: length_induct)
  case (1 p)
  show ?case
  proof (cases "find (\<lambda>(i, n). i \<noteq> 0 \<and> is_leaf n) p")
    case None
    then have "no_dead_nodes p" by (auto simp: no_dead_nodes_def find_None_iff)
    moreover have "remove_dead_nodes p = Inr p"
      using None by (simp add: remove_dead_nodes.simps dead_candidate_eq)
    ultimately show ?thesis using min_rel_refl 1 by auto
  next
    case (Some e)
    obtain x n where e: "e = (x, n)" by (cases e)
    with Some have "(x, n) \<in> set p" and x: "x \<noteq> 0" "is_leaf n"
      by (auto simp: find_Some_iff in_set_conv_nth)
    then have n: "map_of p x = Some n" using 1 by (simp add: abs_ok_lookup)
    have "length (without_leaf x p) < length p"
      using im_remove_length [of x p] n by (simp add: without_leaf_def im_mem_map_of)
    note step = without_leaf_min_rel [OF 1(2,3) n x(2)]
    from 1(1) \<open>length _ < _\<close> min_relD(1,2) [OF step] obtain p' where
      p': "remove_dead_nodes (without_leaf x p) = Inr p'" "min_rel (without_leaf x p) p' UNIV" "no_dead_nodes p'"
        "im_mem 0 (without_leaf x p) \<longrightarrow> im_mem 0 p'"
        "\<And>k w. tg_path (abs_graph p') k w \<longleftrightarrow> tg_path (abs_graph (without_leaf x p)) k w"
      by blast
    have "remove_dead_nodes p = Inr p'"
      using Some p'(1) by (subst remove_dead_nodes.simps) (simp add: dead_candidate_eq e remove_dead_node_eq [OF 1(2)])
    moreover have "im_mem 0 p \<longrightarrow> im_mem 0 (without_leaf x p)"
      using x(1) by (auto simp: im_mem_map_of without_leaf_lookup drop_child_def)
    moreover have "tg_path (abs_graph p') k w \<longleftrightarrow> tg_path (abs_graph p) k w" for k w
      unfolding p'(5) by (rule without_leaf_path [OF 1(2) n x(2)])
    ultimately show ?thesis using p'(3,4) min_rel_trans [OF step p'(2)] by blast
  qed
qed

section \<open>Fusing a node with its only child\<close>

text \<open>What \<^verbatim>\<open>process_node\<close> makes of a premise of a parent: premises that are \<open>x\<close> go to \<open>c\<close>.\<close>

definition redirect :: "int \<Rightarrow> int \<Rightarrow> pairs \<Rightarrow> pairs \<Rightarrow> int \<times> pairs \<times> pairs \<Rightarrow> int \<times> pairs \<times> pairs" where
  "redirect x c tv tp e =
     (if fst e = x then (c, fst (snd e) O tv, block_pairs (fst (snd e)) (snd (snd e)) tv tp) else e)"

definition redirect_node :: "int \<Rightarrow> int \<Rightarrow> pairs \<Rightarrow> pairs \<Rightarrow> abstract_node \<Rightarrow> abstract_node" where
  "redirect_node x c tv tp n = (fst n, map (redirect x c tv tp) (snd n))"

definition fuse_at :: "int \<Rightarrow> int \<Rightarrow> pairs \<Rightarrow> pairs \<Rightarrow> abs_proof \<Rightarrow> abs_proof" where
  "fuse_at x c tv tp p = im_remove x (map (\<lambda>(k, n). (k, redirect_node x c tv tp n)) p)"

lemma union_of_three: "union_of_list [a, b, c] = a \<union> b \<union> c"
  by (simp add: union_of_list_def)

lemma fused_entry:
  assumes "finite a" "finite b" "finite tv" "finite tp"
  shows "(c, compose a tv, union_of_list [compose b tp, compose a tp, compose b tv]) =
    (c, a O tv, block_pairs a b tv tp)"
  using assms by (simp add: compose_relcomp union_of_three block_pairs_def)

lemma fuse_process_ok:
  assumes ok: "node_ok n" and fin: "finite tv" "finite tp"
  shows "fuse_process_node x c tv tp k n s =
    Inr (if in_children x n then im_add k (redirect_node x c tv tp n) s else s)"
proof (cases "in_children x n")
  case True
  obtain tags subg where n: "n = (tags, subg)" by (cases n)
  have d: "distinct (map fst subg)" and x: "\<exists>e\<in>set subg. fst e = x"
    using ok True by (auto simp: node_ok_def n in_children_iff)
  let ?g = "\<lambda>e. (c, compose (fst (snd e)) tv,
      union_of_list [compose (snd (snd e)) tp, compose (fst (snd e)) tp, compose (snd (snd e)) tv])"
  obtain i where i: "find_index (\<lambda>e. fst e = x) subg = Inr i" "i < length subg"
    using find_index_found [OF x] by blast
  have "replace_nth (?g (subg ! i)) i subg = map (\<lambda>e. if fst e = x then ?g e else e) subg"
    using replace_first_distinct [OF d x, of ?g] by (simp add: i list_nth_def)
  also have "\<dots> = map (redirect x c tv tp) subg"
  proof (rule map_cong [OF refl])
    fix e assume "e \<in> set subg"
    then have "finite (fst (snd e))" "finite (snd (snd e))"
      using ok by (auto simp: node_ok_def n)
    then show "(if fst e = x then ?g e else e) = redirect x c tv tp e"
      using fin by (simp only: fused_entry redirect_def)
  qed
  finally have "replace_nth (?g (subg ! i)) i subg = snd (redirect_node x c tv tp n)"
    by (simp add: redirect_node_def n)
  moreover have "index_of_child x n = Inr i" using i(1) by (simp add: index_of_child_def n child_test)
  ultimately show ?thesis
    using True i(2) by (simp add: fuse_process_node_def n list_nth_def case_prod_unfold redirect_node_def)
qed (simp add: fuse_process_node_def)

lemma redirect_id:
  assumes "\<not> in_children x n"
  shows "redirect_node x c tv tp n = n"
proof -
  have "\<forall>e\<in>set (snd n). fst e \<noteq> x" using assms unfolding in_children_iff by blast
  then have "map (redirect x c tv tp) (snd n) = snd n" by (intro map_idI) (simp add: redirect_def)
  then show ?thesis by (simp only: redirect_node_def prod.collapse)
qed

lemma fuse_node_eq:
  assumes ok: "abs_ok p" and fin: "finite tv" "finite tp"
  shows "fuse_node x (tags, [(c, tv, tp)]) p = Inr (fuse_at x c tv tp p)"
proof -
  have "im_iter (\<lambda>k n. fuse_process_node x c tv tp k n) p p =
      Inr (map (\<lambda>(k, n). (k, redirect_node x c tv tp n)) p)"
  proof (rule im_iter_update)
    show "distinct (map fst p)" using ok by (simp add: abs_ok_def im_wf_distinct)
    fix k n assume "(k, n) \<in> set p"
    then have "node_ok n" using ok unfolding abs_ok_def by blast
    then show "fuse_process_node x c tv tp k n s =
        Inr (if in_children x n then im_add k (redirect_node x c tv tp n) s else s)" for s
      using fin by (rule fuse_process_ok)
  qed (rule redirect_id)
  then show ?thesis by (simp add: fuse_node_def fuse_at_def)
qed

lemma fuse_at_lookup:
  "map_of (fuse_at x c tv tp p) i = (if i = x then None else map_option (redirect_node x c tv tp) (map_of p i))"
  by (simp add: fuse_at_def map_of_map im_remove_lookup)

lemma redirect_node_tags [simp]: "fst (redirect_node x c tv tp n) = fst n"
  by (simp add: redirect_node_def)

text \<open>The situation in which a node is fused.\<close>

definition fusable :: "abs_proof \<Rightarrow> int \<Rightarrow> abstract_node \<Rightarrow> int \<Rightarrow> pairs \<Rightarrow> pairs \<Rightarrow> bool" where
  "fusable p x n c tv tp \<longleftrightarrow> abs_ok p \<and> abs_closed p \<and> map_of p x = Some n \<and> snd n = [(c, tv, tp)] \<and> c \<noteq> x \<and>
     (\<forall>i m. map_of p i = Some m \<longrightarrow> \<not> (in_children x m \<and> in_children c m))"

lemma fusableD:
  assumes "fusable p x n c tv tp"
  shows "abs_ok p" "abs_closed p" "map_of p x = Some n" "snd n = [(c, tv, tp)]" "c \<noteq> x"
    "map_of p i = Some m \<Longrightarrow> (x, a, b) \<in> set (snd m) \<Longrightarrow> (c, a', b') \<notin> set (snd m)"
    "(c, tv, tp) \<in> set (snd n)" "finite tv" "finite tp" "tp \<subseteq> tv"
proof -
  show ok: "abs_ok p" and cl: "abs_closed p" and n: "map_of p x = Some n" and e: "snd n = [(c, tv, tp)]" and "c \<noteq> x"
    using assms by (simp_all add: fusable_def)
  show "(c, a', b') \<notin> set (snd m)" if "map_of p i = Some m" "(x, a, b) \<in> set (snd m)"
  proof
    assume "(c, a', b') \<in> set (snd m)"
    then have "in_children c m" "in_children x m" using that(2) by (force simp: in_children_iff)+
    with assms that(1) show False unfolding fusable_def by blast
  qed
  show mem: "(c, tv, tp) \<in> set (snd n)" by (simp add: e)
  show "finite tv" "finite tp" using abs_okD(3) [OF ok n mem] by blast+
  show "tp \<subseteq> tv" by (rule abs_closedD(1) [OF cl n mem])
qed

lemma redirect_entries:
  "(j, a, b) \<in> set (snd (redirect_node x c tv tp m)) \<longleftrightarrow>
     (j \<noteq> x \<and> (j, a, b) \<in> set (snd m)) \<or>
     (j = c \<and> (\<exists>v w. (x, v, w) \<in> set (snd m) \<and> a = v O tv \<and> b = block_pairs v w tv tp))" if "c \<noteq> x"
proof -
  have "(j, a, b) \<in> redirect x c tv tp ` E \<longleftrightarrow> (j \<noteq> x \<and> (j, a, b) \<in> E) \<or>
     (j = c \<and> (\<exists>v w. (x, v, w) \<in> E \<and> a = v O tv \<and> b = block_pairs v w tv tp))" for E
  proof
    assume "(j, a, b) \<in> redirect x c tv tp ` E"
    then obtain i v w where e: "(i, v, w) \<in> E" "(j, a, b) = redirect x c tv tp (i, v, w)" by auto
    then show "(j \<noteq> x \<and> (j, a, b) \<in> E) \<or>
        (j = c \<and> (\<exists>v w. (x, v, w) \<in> E \<and> a = v O tv \<and> b = block_pairs v w tv tp))"
      by (cases "i = x") (auto simp: redirect_def)
  next
    assume "(j \<noteq> x \<and> (j, a, b) \<in> E) \<or>
        (j = c \<and> (\<exists>v w. (x, v, w) \<in> E \<and> a = v O tv \<and> b = block_pairs v w tv tp))"
    then show "(j, a, b) \<in> redirect x c tv tp ` E"
    proof (elim disjE conjE exE)
      assume "j \<noteq> x" "(j, a, b) \<in> E"
      then show ?thesis by (intro image_eqI [of _ _ "(j, a, b)"]) (simp_all add: redirect_def)
    next
      fix v w assume "j = c" "(x, v, w) \<in> E" "a = v O tv" "b = block_pairs v w tv tp"
      then show ?thesis by (intro image_eqI [of _ _ "(x, v, w)"]) (simp_all add: redirect_def)
    qed
  qed
  from this [of "set (snd m)"] show ?thesis by (simp only: redirect_node_def snd_conv set_map)
qed

lemma redirect_node_ok:
  assumes f: "fusable p x n c tv tp" and m: "map_of p i = Some m"
  shows "node_ok (redirect_node x c tv tp m)"
  unfolding node_ok_def
proof (intro conjI)
  note d = fusableD [OF f]
  note o = abs_okD [OF d(1) m]
  show "finite (fst (redirect_node x c tv tp m))" using o(1) by simp
  have key: "fst (redirect x c tv tp e) = (if fst e = x then c else fst e)" for e by (simp add: redirect_def)
  show "distinct (map fst (snd (redirect_node x c tv tp m)))"
  proof (cases "in_children x m")
    case True
    then obtain v w where "(x, v, w) \<in> set (snd m)" by (auto simp: in_children_iff)
    from d(6) [OF m this] have "c \<notin> fst ` set (snd m)" by auto
    then have "inj_on (\<lambda>k. if k = x then c else k) (fst ` set (snd m))" by (auto simp: inj_on_def)
    with o(2) have "distinct (map (\<lambda>k. if k = x then c else k) (map fst (snd m)))" by (simp add: distinct_map comp_inj_on)
    then show ?thesis by (simp add: redirect_node_def key comp_def)
  next
    case False
    with o(2) show ?thesis by (simp add: redirect_id)
  qed
  show "\<forall>(j, a, b)\<in>set (snd (redirect_node x c tv tp m)). finite a \<and> finite b"
  proof (intro ballI)
    fix e assume e: "e \<in> set (snd (redirect_node x c tv tp m))"
    obtain j a b where jab: "e = (j, a, b)" by (cases e)
    from e jab have "(j, a, b) \<in> set (snd (redirect_node x c tv tp m))" by simp
    then have "finite a \<and> finite b"
      unfolding redirect_entries [OF d(5)]
      using o(3) d(8,9) by (elim disjE conjE exE) (auto simp: block_pairs_def dest!: o(3) intro!: finite_relcomp)
    then show "case e of (j, a, b) \<Rightarrow> finite a \<and> finite b" by (simp add: jab)
  qed
qed

lemma fuse_at_ok:
  assumes f: "fusable p x n c tv tp"
  shows "abs_ok (fuse_at x c tv tp p)"
proof -
  note d = fusableD [OF f]
  have wf: "im_wf (fuse_at x c tv tp p)"
    using d(1) by (simp add: fuse_at_def im_remove_wf map_keys_wf abs_ok_def)
  have "node_ok m'" if "(i, m') \<in> set (fuse_at x c tv tp p)" for i m'
  proof -
    from that wf have "map_of (fuse_at x c tv tp p) i = Some m'" by (simp add: im_wf_distinct)
    then obtain m where "map_of p i = Some m" "m' = redirect_node x c tv tp m"
      unfolding fuse_at_lookup by (cases "i = x") auto
    with redirect_node_ok [OF f] show ?thesis by blast
  qed
  with wf show ?thesis unfolding abs_ok_def by blast
qed

lemma fuse_at_closed:
  assumes f: "fusable p x n c tv tp"
  shows "abs_closed (fuse_at x c tv tp p)"
proof (rule abs_closedI [OF fuse_at_ok [OF f]])
  note d = fusableD [OF f]
  fix i m' j a b
  assume m': "map_of (fuse_at x c tv tp p) i = Some m'" and e: "(j, a, b) \<in> set (snd m')"
  then obtain m where m: "map_of p i = Some m" "m' = redirect_node x c tv tp m"
    unfolding fuse_at_lookup by (cases "i = x") auto
  have target: "\<exists>m. map_of (fuse_at x c tv tp p) j = Some m \<and> X \<subseteq> fst m"
    if t: "\<exists>m. map_of p j = Some m \<and> Y \<subseteq> fst m" "j \<noteq> x" "X \<subseteq> Y" for j X Y
  proof -
    from t(1) obtain k where "map_of p j = Some k" "Y \<subseteq> fst k" by blast
    with t(2,3) have "map_of (fuse_at x c tv tp p) j = Some (redirect_node x c tv tp k)"
      "X \<subseteq> fst (redirect_node x c tv tp k)"
      by (simp_all add: fuse_at_lookup)
    then show ?thesis by blast
  qed
  from e [unfolded m(2) redirect_entries [OF d(5)]]
  show "b \<subseteq> a \<and> fst ` a \<subseteq> fst m' \<and> (\<exists>m. map_of (fuse_at x c tv tp p) j = Some m \<and> snd ` a \<subseteq> fst m)"
  proof (elim disjE conjE exE)
    assume "j \<noteq> x" "(j, a, b) \<in> set (snd m)"
    with abs_closedD [OF d(2) m(1) this(2)] target [of j "snd ` a" "snd ` a"] m(2) show ?thesis by simp
  next
    fix v w assume h: "j = c" "(x, v, w) \<in> set (snd m)" "a = v O tv" "b = block_pairs v w tv tp"
    note old = abs_closedD [OF d(2) m(1) h(2)] and single = abs_closedD [OF d(2,3,7)]
    have "b \<subseteq> a" using old(1) single(1) by (auto simp: h(3,4) block_pairs_def)
    moreover have "fst ` a \<subseteq> fst m'" using old(2) by (force simp: h(3) m(2))
    moreover have "snd ` a \<subseteq> snd ` tv" by (force simp: h(3))
    with target [OF single(3) d(5)] have "\<exists>m. map_of (fuse_at x c tv tp p) j = Some m \<and> snd ` a \<subseteq> fst m"
      by (simp only: h(1))
    ultimately show ?thesis by blast
  qed
qed

lemma fuse_at_graph:
  assumes f: "fusable p x n c tv tp"
  shows "fused (abs_graph p) (abs_graph (fuse_at x c tv tp p)) x c"
proof -
  note d = fusableD [OF f]
  let ?G = "abs_graph p" and ?G' = "abs_graph (fuse_at x c tv tp p)"
  note ok' = fuse_at_ok [OF f] and single = abs_graph_entry [OF d(1,3,7)]
  have only: "tg_edge ?G x w \<longleftrightarrow> w = c" for w
  proof
    assume "tg_edge ?G x w"
    then obtain m a b where "map_of p x = Some m" "(w, a, b) \<in> set (snd m)" by (rule abs_graph_edgeE)
    with d(3,4) show "w = c" by simp
  qed (use single(1) in simp)
  have nofather: "\<not> tg_edge ?G v c" if "tg_edge ?G v x" for v
  proof
    assume "tg_edge ?G v c"
    then obtain m a b where "map_of p v = Some m" "(c, a, b) \<in> set (snd m)" by (rule abs_graph_edgeE)
    moreover from that obtain m' a' b' where "map_of p v = Some m'" "(x, a', b') \<in> set (snd m')" by (rule abs_graph_edgeE)
    ultimately show False using d(6) by simp
  qed
  have keep: "tg_edge ?G' v w \<and> tg_valid ?G' v w = tg_valid ?G v w \<and> tg_prog ?G' v w = tg_prog ?G v w"
    if e: "tg_edge ?G v w" and vw: "v \<noteq> x" "w \<noteq> x" for v w
  proof -
    from e obtain m a b where m: "map_of p v = Some m" "(w, a, b) \<in> set (snd m)" by (rule abs_graph_edgeE)
    have "map_of (fuse_at x c tv tp p) v = Some (redirect_node x c tv tp m)"
      "(w, a, b) \<in> set (snd (redirect_node x c tv tp m))"
      using m vw by (simp_all add: fuse_at_lookup redirect_entries [OF d(5)])
    from abs_graph_entry [OF ok' this] abs_graph_entry [OF d(1) m] show ?thesis by simp
  qed
  have new: "tg_edge ?G' v c \<and> tg_valid ?G' v c = tg_valid ?G v x O tg_valid ?G x c \<and>
      tg_prog ?G' v c = block_pairs (tg_valid ?G v x) (tg_prog ?G v x) (tg_valid ?G x c) (tg_prog ?G x c)"
    if e: "tg_edge ?G v x" for v
  proof -
    from e obtain m a b where m: "map_of p v = Some m" "(x, a, b) \<in> set (snd m)" by (rule abs_graph_edgeE)
    have "v \<noteq> x" using e only [of x] d(5) by auto
    then have "map_of (fuse_at x c tv tp p) v = Some (redirect_node x c tv tp m)"
      "(c, a O tv, block_pairs a b tv tp) \<in> set (snd (redirect_node x c tv tp m))"
      using m by (auto simp: fuse_at_lookup redirect_entries [OF d(5)])
    from abs_graph_entry [OF ok' this] abs_graph_entry [OF d(1) m] single show ?thesis by simp
  qed
  have old: "v \<noteq> x \<and> w \<noteq> x \<and> (tg_edge ?G v w \<or> tg_edge ?G v x \<and> w = c)" if e: "tg_edge ?G' v w" for v w
  proof -
    from e obtain m' a b where m': "map_of (fuse_at x c tv tp p) v = Some m'" "(w, a, b) \<in> set (snd m')"
      by (rule abs_graph_edgeE)
    then obtain m where m: "v \<noteq> x" "map_of p v = Some m" "m' = redirect_node x c tv tp m"
      unfolding fuse_at_lookup by (cases "v = x") auto
    from m'(2) [unfolded m(3) redirect_entries [OF d(5)]] show ?thesis
      using abs_graph_entry(1) [OF d(1) m(2)] m(1) d(5) by (elim disjE conjE exE) simp_all
  qed
  show ?thesis
    unfolding fused_def using d(5) only nofather keep new old by (intro conjI allI) blast+
qed

lemma fuse_at_min_rel:
  assumes f: "fusable p x n c tv tp"
  shows "min_rel p (fuse_at x c tv tp p) (- {x})"
  unfolding min_rel_def
proof (intro conjI ballI allI impI)
  note d = fusableD [OF f]
  show "abs_ok (fuse_at x c tv tp p)" "abs_closed (fuse_at x c tv tp p)"
    by (rule fuse_at_ok [OF f], rule fuse_at_closed [OF f])
  show "gtc (abs_graph (fuse_at x c tv tp p)) k = gtc (abs_graph p) k" if "k \<in> - {x}" for k
  proof (rule gtc_fuse [OF fuse_at_graph [OF f]])
    show "k \<noteq> x" using that by simp
    fix v w assume "tg_edge (abs_graph p) v w"
    then obtain m a b where m: "map_of p v = Some m" "(w, a, b) \<in> set (snd m)" by (rule abs_graph_edgeE)
    from abs_graph_entry(2,3) [OF d(1) m] abs_closedD(1) [OF d(2) m]
    show "tg_prog (abs_graph p) v w \<subseteq> tg_valid (abs_graph p) v w" by simp
  qed
  show "\<exists>n. map_of p i = Some n \<and> fst n = fst n'" if "map_of (fuse_at x c tv tp p) i = Some n'" for i n'
  proof -
    from that obtain m where "map_of p i = Some m" "n' = redirect_node x c tv tp m"
      unfolding fuse_at_lookup by (cases "i = x") auto
    then show ?thesis by simp
  qed
qed

section \<open>Fusing every single node\<close>

text \<open>The predicate of the search: it never raises.\<close>

definition can_fuse :: "int \<Rightarrow> abs_proof \<Rightarrow> int \<Rightarrow> abstract_node \<Rightarrow> bool" where
  "can_fuse init p idx n \<longleftrightarrow> idx \<noteq> init \<and>
     (\<exists>c tv tp. snd n = [(c, tv, tp)] \<and> c \<noteq> idx \<and> \<not> im_exists (\<lambda>_ m. in_children idx m \<and> in_children c m) p)"

lemma is_single_iff: "is_single_node idx n \<longleftrightarrow> (\<exists>c tv tp. snd n = [(c, tv, tp)] \<and> c \<noteq> idx)"
  by (auto simp: is_single_node_def get_subg_def split: list.splits)

lemma fuse_candidate_eq: "fuse_candidate init p = Inr (find (\<lambda>(i, n). can_fuse init p i n) p)"
  unfolding fuse_candidate_def
proof (rule im_find_map_total)
  fix k n
  show "(if k = init then Inr False else if \<not> is_single_node k n then Inr False
      else bindE (fathers_grandchild p k n) (\<lambda>b. Inr (\<not> b))) = Inr (can_fuse init p k n)"
  proof (cases "is_single_node k n")
    case True
    then obtain c tv tp where "snd n = [(c, tv, tp)]" "c \<noteq> k" unfolding is_single_iff by blast
    with True show ?thesis by (simp add: fathers_grandchild_def can_fuse_def get_subg_def)
  next
    case False
    then have "\<not> can_fuse init p k n" unfolding is_single_iff can_fuse_def by blast
    with False show ?thesis by simp
  qed
qed

lemma can_fuse_fusable:
  assumes "abs_ok p" "abs_closed p" "map_of p x = Some n" "can_fuse init p x n"
  obtains c tv tp where "fusable p x n c tv tp"
proof -
  from assms(4) obtain c tv tp where n: "snd n = [(c, tv, tp)]" "c \<noteq> x"
    "\<not> im_exists (\<lambda>_ m. in_children x m \<and> in_children c m) p"
    unfolding can_fuse_def by blast
  have "\<not> (in_children x m \<and> in_children c m)" if "map_of p i = Some m" for i m
    using n(3) map_of_SomeD [OF that] unfolding im_exists_def list_ex_iff by blast
  with assms n show ?thesis by (intro that [of c tv tp]) (simp add: fusable_def)
qed

lemma fuse_single_nodes_ok:
  assumes "abs_ok p" and "abs_closed p"
  shows "\<exists>p'. fuse_single_nodes p init = Inr p' \<and> min_rel p p' {init} \<and>
    (im_mem init p \<longrightarrow> im_mem init p') \<and> (\<forall>(i, n) \<in> set p'. \<not> can_fuse init p' i n)"
  using assms
proof (induction p rule: length_induct)
  case (1 p)
  show ?case
  proof (cases "find (\<lambda>(i, n). can_fuse init p i n) p")
    case None
    then have none: "\<forall>(i, n) \<in> set p. \<not> can_fuse init p i n"
      unfolding find_None_iff by (auto simp only: split: prod.splits)
    have "fuse_single_nodes p init = Inr p"
      using None by (subst fuse_single_nodes.simps) (simp add: fuse_candidate_eq)
    with none min_rel_refl [OF 1(2,3)] show ?thesis by (intro exI [of _ p] conjI impI)
  next
    case (Some e)
    obtain x n where e: "e = (x, n)" by (cases e)
    with Some have mem: "(x, n) \<in> set p" and x: "can_fuse init p x n"
      by (auto simp: find_Some_iff in_set_conv_nth)
    have n: "map_of p x = Some n" using mem abs_ok_lookup [OF 1(2)] by blast
    obtain c tv tp where f: "fusable p x n c tv tp" by (rule can_fuse_fusable [OF 1(2,3) n x])
    note d = fusableD [OF f]
    let ?p = "fuse_at x c tv tp p"
    have init: "init \<noteq> x" using x unfolding can_fuse_def by blast
    have "im_mem x p" using n by (auto simp: im_mem_map_of)
    from im_remove_length [OF this] have less: "length ?p < length p"
      by (simp add: fuse_at_def im_remove_def filter_map comp_def case_prod_unfold)
    have step: "min_rel p ?p {init}" by (rule min_rel_mono [OF fuse_at_min_rel [OF f]]) (use init in simp)
    from 1(1) less min_relD(1,2) [OF step] obtain p' where
      p': "fuse_single_nodes ?p init = Inr p'" "min_rel ?p p' {init}" "im_mem init ?p \<longrightarrow> im_mem init p'"
        "\<forall>(i, n) \<in> set p'. \<not> can_fuse init p' i n"
      by blast
    have "(fst n, [(c, tv, tp)]) = n" using d(4) by (simp add: prod_eq_iff)
    with fuse_node_eq [OF d(1,8,9), of x "fst n" c] have "fuse_node x n p = Inr ?p" by (simp only:)
    then have "fuse_single_nodes p init = Inr p'"
      using Some p'(1) by (subst fuse_single_nodes.simps) (simp add: fuse_candidate_eq e)
    moreover have "im_mem init p \<longrightarrow> im_mem init ?p"
      using init by (simp only: im_mem_map_of fuse_at_lookup if_False map_option_eq_Some) blast
    ultimately show ?thesis using p'(3,4) min_rel_trans [OF step p'(2)] by blast
  qed
qed

section \<open>The minimisation\<close>

lemma minimize_ok:
  assumes "abs_ok p" and "abs_closed p"
  shows "\<exists>p'. minimize_abs_proof p init = Inr p' \<and> min_rel p p' {init} \<and>
    (im_mem init p \<and> (init = 0 \<or> (\<exists>w. tg_path (abs_graph p) init w)) \<longrightarrow> im_mem init p')"
proof -
  obtain q where q: "remove_dead_nodes p = Inr q" "min_rel p q UNIV" "im_mem 0 p \<longrightarrow> im_mem 0 q"
    "\<And>k w. tg_path (abs_graph q) k w \<longleftrightarrow> tg_path (abs_graph p) k w"
    using remove_dead_nodes_ok [OF assms] by blast
  obtain p' where p': "fuse_single_nodes q init = Inr p'" "min_rel q p' {init}" "im_mem init q \<longrightarrow> im_mem init p'"
    using fuse_single_nodes_ok [OF min_relD(1,2) [OF q(2)]] by blast
  have "im_mem init q" if "tg_path (abs_graph p) init w" for w
  proof -
    from that have "tg_path (abs_graph q) init w" by (simp only: q(4))
    from tg_path_edge [OF this, of 0] tg_path_start [OF this] have "tg_edge (abs_graph q) init (w 1)" by simp
    then show ?thesis unfolding im_mem_map_of by (elim abs_graph_edgeE) blast
  qed
  then have "im_mem init p \<and> (init = 0 \<or> (\<exists>w. tg_path (abs_graph p) init w)) \<longrightarrow> im_mem init p'"
    using q(3) p'(3) by blast
  moreover have "min_rel p p' {init}" using min_rel_trans [OF min_rel_mono [OF q(2)] p'(2)] by blast
  ultimately show ?thesis using q(1) p'(1) by (simp add: minimize_abs_proof_def)
qed

end
