(* ===== verification/Driver.thy ===== *)
theory Driver
  imports Minimise
begin

text \<open>
  The driver hands an abstract proof to the C++ checker call by call (soundcheck.ml,
  the two functions \<^verbatim>\<open>check_proof\<close>). The theory follows the caller's view through the
  driver's loops and concludes what the check answers.
\<close>

section \<open>Loops over the interface\<close>

text \<open>
  A loop of calls, each of which refines an update of the view under a condition on the view
  that the updates keep.
\<close>

lemma rep_loop:
  assumes "represents B f W P st" and "Q W"
    and "\<And>x W P st. x \<in> set xs \<Longrightarrow> Q W \<Longrightarrow> represents B f W P st \<Longrightarrow>
      \<exists>P' st'. g x st = Inr st' \<and> represents B f (upd x W) P' st'"
    and "\<And>x W. x \<in> set xs \<Longrightarrow> Q W \<Longrightarrow> Q (upd x W)"
  shows "\<exists>P' st'. foldE g xs st = Inr st' \<and> represents B f (fold upd xs W) P' st'"
  using assms
proof (induction xs arbitrary: W P st)
  case (Cons x xs)
  obtain P1 st1 where "g x st = Inr st1" "represents B f (upd x W) P1 st1"
    using Cons.prems(3) [of x W P st] Cons.prems(1,2) by auto
  with Cons.IH [of "upd x W" P1 st1] Cons.prems show ?case by simp
qed auto

definition add_tags :: "int \<Rightarrow> int set \<Rightarrow> view \<Rightarrow> view" where
  "add_tags i T W = W\<lparr>vw_tags := (vw_tags W)(i := T \<union> vw_tags W i)\<rparr>"

definition add_succs :: "int \<Rightarrow> int set \<Rightarrow> view \<Rightarrow> view" where
  "add_succs i J W = W\<lparr>vw_succs := (vw_succs W)(i := J \<union> vw_succs W i)\<rparr>"

definition add_pairs ::
  "(int \<times> int \<times> int \<times> int) set \<Rightarrow> (int \<times> int \<times> int \<times> int) set \<Rightarrow> view \<Rightarrow> view" where
  "add_pairs X Y W = W\<lparr>vw_pairs := X \<union> vw_pairs W, vw_progs := Y \<union> vw_progs W\<rparr>"

lemmas add_defs = add_tags_def add_succs_def add_pairs_def

lemma fold_add_tags: "fold (\<lambda>t. add_tags i {t}) ts W = add_tags i (set ts) W"
  by (induction ts arbitrary: W) (simp_all add: add_tags_def Un_ac)

lemma fold_add_succs: "fold (\<lambda>e. add_succs i {fst e}) es W = add_succs i (fst ` set es) W"
  by (induction es arbitrary: W) (simp_all add: add_succs_def Un_ac)

lemma fold_add_pairs: "fold (\<lambda>x. add_pairs (g x) (h x)) xs W = add_pairs (\<Union>x\<in>set xs. g x) (\<Union>x\<in>set xs. h x) W"
  by (induction xs arbitrary: W) (simp_all add: add_pairs_def Un_ac)

text \<open>The condition on views: the nodes of the proof, with at least given tags.\<close>

definition view_has :: "int set \<Rightarrow> (int \<Rightarrow> int set) \<Rightarrow> view \<Rightarrow> bool" where
  "view_has K T W \<longleftrightarrow> vw_nodes W = K \<and> (\<forall>k. T k \<subseteq> vw_tags W k)"

lemma view_has_add:
  "view_has K T W \<Longrightarrow> view_has K T (add_tags i S W)"
  "view_has K T W \<Longrightarrow> view_has K T (add_succs i J W)"
  "view_has K T W \<Longrightarrow> view_has K T (add_pairs X Y W)"
  by (auto simp: view_has_def add_defs)

subsection \<open>Tags and successors\<close>

lemma create_tags_rep:
  assumes r: "represents B f W P st" and k: "i \<in> vw_nodes W"
    and t: "finite (get_tags n)" "\<And>t. t \<in> get_tags n \<Longrightarrow> c_range t"
  shows "\<exists>P' st'. create_tags i n st = Inr st' \<and> represents B f (add_tags i (get_tags n) W) P' st'"
proof -
  have "\<exists>P' st'. foldE (tag_vertex i) (sorted_list_of_set (get_tags n)) st = Inr st' \<and>
      represents B f (fold (\<lambda>t. add_tags i {t}) (sorted_list_of_set (get_tags n)) W) P' st'"
  proof (rule rep_loop [OF r, where Q = "view_has (vw_nodes W) (\<lambda>_. {})"])
    fix x W' P st
    assume "x \<in> set (sorted_list_of_set (get_tags n))" "view_has (vw_nodes W) (\<lambda>_. {}) W'" "represents B f W' P st"
    with k t show "\<exists>P' st'. tag_vertex i x st = Inr st' \<and> represents B f (add_tags i {x} W') P' st'"
      using tag_vertex_rep [of B f W' P st i x] by (simp add: view_has_def add_tags_def)
  qed (simp_all add: view_has_add, simp add: view_has_def)
  with t(1) show ?thesis by (simp add: create_tags_def set_iter_def fold_add_tags)
qed

lemma create_succs_rep:
  assumes r: "represents B f W P st" and k: "i \<in> vw_nodes W" and s: "fst ` set (snd n) \<subseteq> vw_nodes W"
  shows "\<exists>P' st'. create_succs i n st = Inr st' \<and> represents B f (add_succs i (fst ` set (snd n)) W) P' st'"
proof -
  have "\<exists>P' st'. foldE (\<lambda>e. set_successor i (fst e)) (snd n) st = Inr st' \<and>
      represents B f (fold (\<lambda>e. add_succs i {fst e}) (snd n) W) P' st'"
  proof (rule rep_loop [OF r, where Q = "view_has (vw_nodes W) (\<lambda>_. {})"])
    fix e W' P st
    assume "e \<in> set (snd n)" "view_has (vw_nodes W) (\<lambda>_. {}) W'" "represents B f W' P st"
    with k s show "\<exists>P' st'. set_successor i (fst e) st = Inr st' \<and> represents B f (add_succs i {fst e} W') P' st'"
      using set_successor_rep [of B f W' P st i "fst e"] by (auto simp: view_has_def add_succs_def)
  qed (simp_all add: view_has_add, simp add: view_has_def)
  then show ?thesis by (simp add: create_succs_def fold_add_succs case_prod_unfold)
qed

subsection \<open>Pairs\<close>

definition quads :: "int \<Rightarrow> int \<Rightarrow> pairs \<Rightarrow> (int \<times> int \<times> int \<times> int) set" where
  "quads i j R = (\<lambda>(t, u). (i, j, t, u)) ` R"

definition edge_ok :: "(int \<Rightarrow> int set) \<Rightarrow> int \<Rightarrow> int \<times> pairs \<times> pairs \<Rightarrow> bool" where
  "edge_ok T i e \<longleftrightarrow> finite (fst (snd e)) \<and> snd (snd e) \<subseteq> fst (snd e) \<and>
     (\<forall>t u. (t, u) \<in> fst (snd e) \<longrightarrow> t \<in> T i \<and> u \<in> T (fst e) \<and> c_range t \<and> c_range u)"

lemma quads_UN: "(\<Union>x\<in>R. {(i, j, x)}) = quads i j R"
  by (auto simp: quads_def image_def)

lemma pair_loops:
  assumes r: "represents B f W P st" and W: "view_has K T W" and k: "i \<in> K" "j \<in> K"
    and R: "finite R" "\<And>t u. (t, u) \<in> R \<Longrightarrow> t \<in> T i \<and> u \<in> T j \<and> c_range t \<and> c_range u"
  shows "\<exists>P' st'. set_iter (\<lambda>(k, m). set_trace_pair i j k m) R st = Inr st' \<and>
      represents B f (add_pairs (quads i j R) {} W) P' st'"
    and "\<exists>P' st'. set_iter (\<lambda>(k, m). set_progress_pair i j k m) R st = Inr st' \<and>
      represents B f (add_pairs {} (quads i j R) W) P' st'"
proof -
  have tags: "t \<in> vw_tags W' i" "u \<in> vw_tags W' j" "i \<in> vw_nodes W'" "j \<in> vw_nodes W'" "c_range t" "c_range u"
    if "view_has K T W'" "(t, u) \<in> R" for W' t u
    using that R(2) [OF that(2)] k unfolding view_has_def by auto
  have "\<exists>P' st'. foldE (\<lambda>x. set_trace_pair i j (fst x) (snd x)) (sorted_list_of_set R) st = Inr st' \<and>
      represents B f (fold (\<lambda>x. add_pairs {(i, j, fst x, snd x)} {}) (sorted_list_of_set R) W) P' st'"
  proof (rule rep_loop [where Q = "view_has K T", OF r W])
    fix x W' P st
    assume x: "x \<in> set (sorted_list_of_set R)" and W': "view_has K T W'" and r': "represents B f W' P st"
    from x R(1) have "(fst x, snd x) \<in> R" by simp
    note t = tags [OF W' this]
    show "\<exists>P' st'. set_trace_pair i j (fst x) (snd x) st = Inr st' \<and>
        represents B f (add_pairs {(i, j, fst x, snd x)} {} W') P' st'"
      using set_trace_pair_rep [OF r' t(3,4,1,2,5,6)] by (simp add: add_pairs_def)
  qed (rule view_has_add)
  with R(1) show "\<exists>P' st'. set_iter (\<lambda>(k, m). set_trace_pair i j k m) R st = Inr st' \<and>
      represents B f (add_pairs (quads i j R) {} W) P' st'"
    by (simp add: set_iter_def fold_add_pairs quads_UN case_prod_unfold)
  have "\<exists>P' st'. foldE (\<lambda>x. set_progress_pair i j (fst x) (snd x)) (sorted_list_of_set R) st = Inr st' \<and>
      represents B f (fold (\<lambda>x. add_pairs {} {(i, j, fst x, snd x)}) (sorted_list_of_set R) W) P' st'"
  proof (rule rep_loop [where Q = "view_has K T", OF r W])
    fix x W' P st
    assume x: "x \<in> set (sorted_list_of_set R)" and W': "view_has K T W'" and r': "represents B f W' P st"
    from x R(1) have "(fst x, snd x) \<in> R" by simp
    note t = tags [OF W' this]
    show "\<exists>P' st'. set_progress_pair i j (fst x) (snd x) st = Inr st' \<and>
        represents B f (add_pairs {} {(i, j, fst x, snd x)} W') P' st'"
      using set_progress_pair_rep [OF r' t(3,4,1,2,5,6)] by (simp add: add_pairs_def)
  qed (rule view_has_add)
  with R(1) show "\<exists>P' st'. set_iter (\<lambda>(k, m). set_progress_pair i j k m) R st = Inr st' \<and>
      represents B f (add_pairs {} (quads i j R) W) P' st'"
    by (simp add: set_iter_def fold_add_pairs quads_UN case_prod_unfold)
qed

lemma do_tag_transitions_rep:
  assumes r: "represents B f W P st" and W: "view_has K T W" and k: "i \<in> K" "fst e \<in> K" and e: "edge_ok T i e"
  shows "\<exists>P' st'. do_tag_transitions i e st = Inr st' \<and>
    represents B f (add_pairs (quads i (fst e) (fst (snd e))) (quads i (fst e) (snd (snd e))) W) P' st'"
proof -
  have tv: "finite (fst (snd e))" "\<And>t u. (t, u) \<in> fst (snd e) \<Longrightarrow> t \<in> T i \<and> u \<in> T (fst e) \<and> c_range t \<and> c_range u"
    and sub: "snd (snd e) \<subseteq> fst (snd e)"
    using e unfolding edge_ok_def by blast+
  have tp: "finite (snd (snd e))" "\<And>t u. (t, u) \<in> snd (snd e) \<Longrightarrow> t \<in> T i \<and> u \<in> T (fst e) \<and> c_range t \<and> c_range u"
    using tv sub finite_subset by blast+
  obtain P1 st1 where 1: "set_iter (\<lambda>(k, m). set_trace_pair i (fst e) k m) (fst (snd e)) st = Inr st1"
    "represents B f (add_pairs (quads i (fst e) (fst (snd e))) {} W) P1 st1"
    using pair_loops(1) [OF r W k tv] by blast
  obtain P2 st2 where 2: "set_iter (\<lambda>(k, m). set_progress_pair i (fst e) k m) (snd (snd e)) st1 = Inr st2"
    "represents B f (add_pairs {} (quads i (fst e) (snd (snd e))) (add_pairs (quads i (fst e) (fst (snd e))) {} W)) P2 st2"
    using pair_loops(2) [OF 1(2) view_has_add(3) [OF W] k tp] by blast
  from 1(1) 2(1) have "do_tag_transitions i e st = Inr st2"
    by (simp add: do_tag_transitions_def case_prod_unfold)
  with 2(2) show ?thesis by (auto simp: add_pairs_def)
qed

lemma create_trace_pairs_rep:
  assumes r: "represents B f W P st" and W: "view_has K T W" and i: "i \<in> K"
    and n: "\<And>e. e \<in> set (snd n) \<Longrightarrow> fst e \<in> K \<and> edge_ok T i e"
  shows "\<exists>P' st'. create_trace_pairs i n st = Inr st' \<and>
    represents B f (add_pairs (\<Union>e\<in>set (snd n). quads i (fst e) (fst (snd e)))
      (\<Union>e\<in>set (snd n). quads i (fst e) (snd (snd e))) W) P' st'"
proof -
  have "\<exists>P' st'. foldE (do_tag_transitions i) (snd n) st = Inr st' \<and>
      represents B f (fold (\<lambda>e. add_pairs (quads i (fst e) (fst (snd e))) (quads i (fst e) (snd (snd e)))) (snd n) W) P' st'"
  proof (rule rep_loop [where Q = "view_has K T", OF r W])
    fix e W' P st
    assume e: "e \<in> set (snd n)" and W': "view_has K T W'" and r': "represents B f W' P st"
    from n [OF e] do_tag_transitions_rep [OF r' W' i]
    show "\<exists>P' st'. do_tag_transitions i e st = Inr st' \<and>
        represents B f (add_pairs (quads i (fst e) (fst (snd e))) (quads i (fst e) (snd (snd e))) W') P' st'"
      by blast
  qed (rule view_has_add)
  then show ?thesis by (simp add: create_trace_pairs_def fold_add_pairs)
qed

section \<open>The whole sequence of calls\<close>

text \<open>The views between the phases of the driver.\<close>

definition nodes_view :: "nat \<Rightarrow> int set \<Rightarrow> view" where
  "nodes_view k K = (fresh_view k)\<lparr>vw_nodes := K\<rparr>"

definition node_tags :: "abs_proof \<Rightarrow> int \<Rightarrow> int set" where
  "node_tags p i = (case map_of p i of None \<Rightarrow> {} | Some n \<Rightarrow> fst n)"

text \<open>Node numbers and tags fit a C \<^verbatim>\<open>int\<close>.\<close>

definition abs_in_range :: "abs_proof \<Rightarrow> bool" where
  "abs_in_range p \<longleftrightarrow> (\<forall>(i, n) \<in> set p. c_range i \<and> (\<forall>t \<in> fst n. c_range t))"

text \<open>
  What the driver needs of the floating-point logarithm of its size: not below the exact
  one, and small enough for a 32-bit shift.
\<close>

definition log_ok :: "(nat \<Rightarrow> int) \<Rightarrow> nat \<Rightarrow> bool" where
  "log_ok ceil_log n \<longleftrightarrow> 0 \<le> ceil_log n \<and> ceil_log n < 31 \<and> int n \<le> 2 ^ nat (ceil_log n)"

lemma fold_node_updates:
  assumes "distinct (map fst p)"
  shows "fold (\<lambda>(i, n). add_tags i (fst n)) p W = W\<lparr>vw_tags := \<lambda>i. node_tags p i \<union> vw_tags W i\<rparr>"
    and "fold (\<lambda>(i, n). add_succs i (fst ` set (snd n))) p W =
      W\<lparr>vw_succs := \<lambda>i. (case map_of p i of None \<Rightarrow> {} | Some n \<Rightarrow> fst ` set (snd n)) \<union> vw_succs W i\<rparr>"
  using assms
proof (induction p arbitrary: W)
  case Nil
  { case 1 then show ?case by (simp add: node_tags_def) }
  { case 2 then show ?case by simp }
next
  case (Cons e p)
  obtain i n where e: "e = (i, n)" by (cases e)
  { case 1
    then have i: "map_of p i = None" and d: "distinct (map fst p)" by (auto simp: e map_of_eq_None_iff)
    show ?case
      by (simp add: e Cons.IH(1) [OF d]) (simp add: add_tags_def,
        rule arg_cong [where f = "\<lambda>T. W\<lparr>vw_tags := T\<rparr>"], auto simp: fun_eq_iff node_tags_def i) }
  { case 2
    then have i: "map_of p i = None" and d: "distinct (map fst p)" by (auto simp: e map_of_eq_None_iff)
    show ?case
      by (simp add: e Cons.IH(2) [OF d]) (simp add: add_succs_def,
        rule arg_cong [where f = "\<lambda>T. W\<lparr>vw_succs := T\<rparr>"], auto simp: fun_eq_iff i) }
qed

context bdd_library
begin

lemma create_vertices_rep:
  assumes r: "represents B f (nodes_view k {}) P st" and d: "distinct (map fst p)"
    and c: "\<And>i. i \<in> fst ` set p \<Longrightarrow> c_range i" and k: "k < 32" "int (length p) < 2 ^ k"
  shows "\<exists>f' P' st'. im_iter (\<lambda>i _. create_vertex B i) p st = Inr st' \<and>
    represents B f' (nodes_view k (fst ` set p)) P' st'"
proof -
  have "\<exists>s'. foldE (\<lambda>(i, _). create_vertex B i) p st = Inr s' \<and>
      (\<exists>f P. represents B f (nodes_view k (fst ` set p)) P s')"
  proof (rule foldE_total [where I = "\<lambda>ys s. \<exists>f P. represents B f (nodes_view k (fst ` set ys)) P s"])
    show "\<exists>f P. represents B f (nodes_view k (fst ` set [])) P st" using r by auto
    fix ys y zs s
    assume p: "p = ys @ y # zs" and "\<exists>f P. represents B f (nodes_view k (fst ` set ys)) P s"
    then obtain f P where r: "represents B f (nodes_view k (fst ` set ys)) P s" by blast
    have "fst y \<notin> fst ` set ys" using d p by auto
    moreover have "c_range (fst y)" using c p by simp
    moreover have "card (fst ` set ys) + 1 \<le> length p"
      using card_length [of "map fst ys"] p by simp
    then have "int (card (fst ` set ys)) + 1 < 2 ^ k" using k(2) by linarith
    ultimately obtain f' P' s' where "create_vertex B (fst y) s = Inr s'"
      "represents B f' (nodes_view k (insert (fst y) (fst ` set ys))) P' s'"
      using create_vertex_rep [OF r, of "fst y"] k(1)
      by (auto simp: nodes_view_def fresh_view_def fun_upd_idem)
    then show "\<exists>s'. (case y of (i, _) \<Rightarrow> create_vertex B i) s = Inr s' \<and>
        (\<exists>f P. represents B f (nodes_view k (fst ` set (ys @ [y]))) P s')"
      by (auto simp: case_prod_unfold)
  qed
  then show ?thesis by (auto simp: im_iter_def)
qed

end

lemma all_tags_rep:
  assumes r: "represents B f W P st" and W: "vw_nodes W = fst ` set p"
    and ok: "abs_ok p" and range: "abs_in_range p"
  shows "\<exists>P' st'. im_iter create_tags p st = Inr st' \<and>
    represents B f (W\<lparr>vw_tags := \<lambda>i. node_tags p i \<union> vw_tags W i\<rparr>) P' st'"
proof -
  have "\<exists>P' st'. foldE (\<lambda>x. create_tags (fst x) (snd x)) p st = Inr st' \<and>
      represents B f (fold (\<lambda>x. add_tags (fst x) (fst (snd x))) p W) P' st'"
  proof (rule rep_loop [where Q = "view_has (fst ` set p) (\<lambda>_. {})", OF r])
    fix x W' P st
    assume x: "x \<in> set p" and W': "view_has (fst ` set p) (\<lambda>_. {}) W'" and r': "represents B f W' P st"
    have "(fst x, snd x) \<in> set p" using x by simp
    then have "finite (get_tags (snd x))" "\<And>t. t \<in> get_tags (snd x) \<Longrightarrow> c_range t"
      using ok range unfolding abs_ok_def node_ok_def abs_in_range_def get_tags_def by blast+
    moreover have "fst x \<in> vw_nodes W'" using W' x by (simp add: view_has_def)
    ultimately show "\<exists>P' st'. create_tags (fst x) (snd x) st = Inr st' \<and>
        represents B f (add_tags (fst x) (fst (snd x)) W') P' st'"
      using create_tags_rep [OF r'] by (simp add: get_tags_def)
  qed (simp_all add: view_has_add, simp add: view_has_def W)
  then show ?thesis
    using fold_node_updates(1) [of p W] ok by (simp add: im_iter_def case_prod_unfold abs_ok_def im_wf_distinct)
qed

lemma all_succs_rep:
  assumes r: "represents B f W P st" and W: "vw_nodes W = fst ` set p"
    and ok: "abs_ok p" and cl: "abs_closed p"
  shows "\<exists>P' st'. im_iter create_succs p st = Inr st' \<and>
    represents B f (W\<lparr>vw_succs := \<lambda>i. (case map_of p i of None \<Rightarrow> {} | Some n \<Rightarrow> fst ` set (snd n)) \<union> vw_succs W i\<rparr>) P' st'"
proof -
  have "\<exists>P' st'. foldE (\<lambda>x. create_succs (fst x) (snd x)) p st = Inr st' \<and>
      represents B f (fold (\<lambda>x. add_succs (fst x) (fst ` set (snd (snd x)))) p W) P' st'"
  proof (rule rep_loop [where Q = "view_has (fst ` set p) (\<lambda>_. {})", OF r])
    fix x W' P st
    assume x: "x \<in> set p" and W': "view_has (fst ` set p) (\<lambda>_. {}) W'" and r': "represents B f W' P st"
    have n: "map_of p (fst x) = Some (snd x)" using abs_ok_lookup [OF ok] x by simp
    have "fst e \<in> fst ` set p" if "e \<in> set (snd (snd x))" for e
      using abs_closedD(3) [OF cl n, of "fst e" "fst (snd e)" "snd (snd e)"] that
      by (auto dest!: map_of_SomeD intro: image_eqI [rotated])
    then have "fst ` set (snd (snd x)) \<subseteq> vw_nodes W'" "fst x \<in> vw_nodes W'"
      using W' x by (auto simp: view_has_def)
    from create_succs_rep [OF r' this(2,1)]
    show "\<exists>P' st'. create_succs (fst x) (snd x) st = Inr st' \<and>
        represents B f (add_succs (fst x) (fst ` set (snd (snd x))) W') P' st'" .
  qed (simp_all add: view_has_add, simp add: view_has_def W)
  then show ?thesis
    using fold_node_updates(2) [of p W] ok by (simp add: im_iter_def case_prod_unfold abs_ok_def im_wf_distinct)
qed

lemma all_pairs_rep:
  assumes r: "represents B f W P st" and W: "view_has (fst ` set p) (node_tags p) W"
    and ok: "abs_ok p" and cl: "abs_closed p" and range: "abs_in_range p"
  shows "\<exists>P' st'. im_iter create_trace_pairs p st = Inr st' \<and>
    represents B f (add_pairs (\<Union>x\<in>set p. \<Union>e\<in>set (snd (snd x)). quads (fst x) (fst e) (fst (snd e)))
      (\<Union>x\<in>set p. \<Union>e\<in>set (snd (snd x)). quads (fst x) (fst e) (snd (snd e))) W) P' st'"
proof -
  have "\<exists>P' st'. foldE (\<lambda>x. create_trace_pairs (fst x) (snd x)) p st = Inr st' \<and>
      represents B f (fold (\<lambda>x. add_pairs (\<Union>e\<in>set (snd (snd x)). quads (fst x) (fst e) (fst (snd e)))
        (\<Union>e\<in>set (snd (snd x)). quads (fst x) (fst e) (snd (snd e)))) p W) P' st'"
  proof (rule rep_loop [where Q = "view_has (fst ` set p) (node_tags p)", OF r W])
    fix x W' P st
    assume x: "x \<in> set p" and W': "view_has (fst ` set p) (node_tags p) W'" and r': "represents B f W' P st"
    have n: "map_of p (fst x) = Some (snd x)" using abs_ok_lookup [OF ok] x by simp
    have edge: "fst e \<in> fst ` set p \<and> edge_ok (node_tags p) (fst x) e" if e: "e \<in> set (snd (snd x))" for e
    proof -
      have e': "(fst e, fst (snd e), snd (snd e)) \<in> set (snd (snd x))" using e by simp
      note c = abs_closedD [OF cl n e']
      from c(3) obtain m where m: "map_of p (fst e) = Some m" "snd ` fst (snd e) \<subseteq> fst m" by blast
      have tags: "c_range t" if "map_of p i = Some q" "t \<in> fst q" for i q t
        using range map_of_SomeD [OF that(1)] that(2) unfolding abs_in_range_def by blast
      have "t \<in> node_tags p (fst x) \<and> u \<in> node_tags p (fst e) \<and> c_range t \<and> c_range u" if "(t, u) \<in> fst (snd e)" for t u
      proof -
        have "t \<in> fst (snd x)" "u \<in> fst m" using c(2) m(2) that by force+
        with tags [OF n] tags [OF m(1)] n m(1) show ?thesis by (simp add: node_tags_def)
      qed
      moreover have "fst e \<in> fst ` set p" using map_of_SomeD [OF m(1)] by (rule image_eqI [rotated]) simp
      ultimately show ?thesis using abs_okD(3) [OF ok n e'] c(1) unfolding edge_ok_def by blast
    qed
    show "\<exists>P' st'. create_trace_pairs (fst x) (snd x) st = Inr st' \<and>
        represents B f (add_pairs (\<Union>e\<in>set (snd (snd x)). quads (fst x) (fst e) (fst (snd e)))
        (\<Union>e\<in>set (snd (snd x)). quads (fst x) (fst e) (snd (snd e))) W') P' st'"
      by (rule create_trace_pairs_rep [OF r' W' imageI [OF x]]) (rule edge)
  qed (rule view_has_add)
  then show ?thesis by (simp add: im_iter_def case_prod_unfold fold_add_pairs)
qed

section \<open>What the check answers\<close>

definition proof_view :: "nat \<Rightarrow> int \<Rightarrow> abs_proof \<Rightarrow> view" where
  "proof_view k init p =
     \<lparr>vw_log2 = k, vw_init = Some init, vw_nodes = fst ` set p, vw_tags = node_tags p,
      vw_succs = (\<lambda>i. case map_of p i of None \<Rightarrow> {} | Some n \<Rightarrow> fst ` set (snd n)),
      vw_pairs = (\<Union>x\<in>set p. \<Union>e\<in>set (snd (snd x)). quads (fst x) (fst e) (fst (snd e))),
      vw_progs = (\<Union>x\<in>set p. \<Union>e\<in>set (snd (snd x)). quads (fst x) (fst e) (snd (snd e)))\<rparr>"

lemma quads_mem:
  assumes "abs_ok p"
  shows "(i, j, t, u) \<in> (\<Union>x\<in>set p. \<Union>e\<in>set (snd (snd x)). quads (fst x) (fst e) (sel (snd e))) \<longleftrightarrow>
    (\<exists>n tv tp. map_of p i = Some n \<and> (j, tv, tp) \<in> set (snd n) \<and> (t, u) \<in> sel (tv, tp))"
proof -
  have q: "(i, j, t, u) \<in> quads i' j' R \<longleftrightarrow> i' = i \<and> j' = j \<and> (t, u) \<in> R" for i' j' R
    by (auto simp: quads_def)
  show ?thesis
    unfolding abs_ok_lookup [OF assms] UN_iff q
  proof
    assume "\<exists>x\<in>set p. \<exists>e\<in>set (snd (snd x)). fst x = i \<and> fst e = j \<and> (t, u) \<in> sel (snd e)"
    then obtain x e where "x \<in> set p" "e \<in> set (snd (snd x))" "fst x = i" "fst e = j" "(t, u) \<in> sel (snd e)" by blast
    then have "(i, snd x) \<in> set p" "(j, fst (snd e), snd (snd e)) \<in> set (snd (snd x))"
      "(t, u) \<in> sel (fst (snd e), snd (snd e))" by auto
    then show "\<exists>n tv tp. (i, n) \<in> set p \<and> (j, tv, tp) \<in> set (snd n) \<and> (t, u) \<in> sel (tv, tp)" by blast
  next
    assume "\<exists>n tv tp. (i, n) \<in> set p \<and> (j, tv, tp) \<in> set (snd n) \<and> (t, u) \<in> sel (tv, tp)"
    then obtain n tv tp where "(i, n) \<in> set p" "(j, tv, tp) \<in> set (snd n)" "(t, u) \<in> sel (tv, tp)" by blast
    then show "\<exists>x\<in>set p. \<exists>e\<in>set (snd (snd x)). fst x = i \<and> fst e = j \<and> (t, u) \<in> sel (snd e)"
      by (intro bexI [of _ "(i, n)"] bexI [of _ "(j, tv, tp)"]) simp_all
  qed
qed

lemma proof_view_graph:
  assumes ok: "abs_ok p"
  shows "view_graph (proof_view k init p) = abs_graph p"
proof -
  have "i \<in> fst ` set p \<and> j \<in> (case map_of p i of None \<Rightarrow> {} | Some n \<Rightarrow> fst ` set (snd n)) \<longleftrightarrow>
      (\<exists>n tv tp. map_of p i = Some n \<and> (j, tv, tp) \<in> set (snd n))" for i j
  proof (cases "map_of p i")
    case (Some n)
    then have "i \<in> fst ` set p" by (metis im_mem_iff im_mem_map_of)
    with Some show ?thesis by force
  qed simp
  then show ?thesis
    using quads_mem [OF ok, of _ _ _ _ fst] quads_mem [OF ok, of _ _ _ _ snd]
    unfolding view_graph_def abs_graph_def proof_view_def view.simps by auto
qed

lemma log_size:
  assumes "log_ok ceil_log n"
  obtains k where "int k = 1 + ceil_log n" "k < 32" "int n < 2 ^ k"
proof
  show k: "int (nat (1 + ceil_log n)) = 1 + ceil_log n" using assms by (simp add: log_ok_def)
  show "nat (1 + ceil_log n) < 32" using assms by (simp add: log_ok_def nat_less_iff)
  have "nat (1 + ceil_log n) = Suc (nat (ceil_log n))" using assms by (simp add: log_ok_def Suc_nat_eq_nat_zadd1)
  then have "(2::int) ^ nat (1 + ceil_log n) = 2 * 2 ^ nat (ceil_log n)" by simp
  moreover have "int n \<le> 2 ^ nat (ceil_log n)" "(0::int) < 2 ^ nat (ceil_log n)" using assms by (simp_all add: log_ok_def)
  ultimately show "int n < 2 ^ nat (1 + ceil_log n)" by linarith
qed

context bdd_library
begin

lemma driver_calls:
  assumes ok: "abs_ok p" and cl: "abs_closed p" and range: "abs_in_range p"
    and init: "im_mem init p" and log: "log_ok ceil_log (length p)"
  shows "\<exists>k f P st0 st1 st2 st3 st4 st5.
    create_aut B (1 + ceil_log (length p)) idle = Inr st0 \<and> im_iter (\<lambda>i _. create_vertex B i) p st0 = Inr st1 \<and>
    im_iter create_tags p st1 = Inr st2 \<and> im_iter create_succs p st2 = Inr st3 \<and>
    set_initial_vertex init st3 = Inr st4 \<and> im_iter create_trace_pairs p st4 = Inr st5 \<and>
    represents B f (proof_view k init p) P st5"
proof -
  obtain k where k: "int k = 1 + ceil_log (length p)" "k < 32" "int (length p) < 2 ^ k" by (rule log_size [OF log])
  have d: "distinct (map fst p)" using ok by (simp add: abs_ok_def im_wf_distinct)
  have c: "c_range i" if "i \<in> fst ` set p" for i using range that by (auto simp: abs_in_range_def)
  obtain f0 P0 st0 where 0: "create_aut B (1 + ceil_log (length p)) idle = Inr st0" "represents B f0 (nodes_view k {}) P0 st0"
    using create_aut_rep [OF k(2), of B "\<lambda>_. bddtrue B"] unfolding k(1) by (auto simp: nodes_view_def fresh_view_def)
  obtain f P1 st1 where 1: "im_iter (\<lambda>i _. create_vertex B i) p st0 = Inr st1"
    "represents B f (nodes_view k (fst ` set p)) P1 st1"
    using create_vertices_rep [OF 0(2) d c k(2,3)] by blast
  let ?W2 = "(nodes_view k (fst ` set p))\<lparr>vw_tags := \<lambda>i. node_tags p i \<union> vw_tags (nodes_view k (fst ` set p)) i\<rparr>"
  obtain P2 st2 where 2: "im_iter create_tags p st1 = Inr st2" "represents B f ?W2 P2 st2"
    using all_tags_rep [OF 1(2) _ ok range] by (auto simp: nodes_view_def)
  let ?W3 = "?W2\<lparr>vw_succs := \<lambda>i. (case map_of p i of None \<Rightarrow> {} | Some n \<Rightarrow> fst ` set (snd n)) \<union> vw_succs ?W2 i\<rparr>"
  obtain P3 st3 where 3: "im_iter create_succs p st2 = Inr st3" "represents B f ?W3 P3 st3"
    using all_succs_rep [OF 2(2) _ ok cl] by (auto simp: nodes_view_def)
  obtain P4 st4 where 4: "set_initial_vertex init st3 = Inr st4" "represents B f (?W3\<lparr>vw_init := Some init\<rparr>) P4 st4"
    using set_initial_vertex_rep [OF 3(2), of init] init by (auto simp: nodes_view_def im_mem_iff)
  have "view_has (fst ` set p) (node_tags p) (?W3\<lparr>vw_init := Some init\<rparr>)"
    by (simp add: view_has_def nodes_view_def)
  from all_pairs_rep [OF 4(2) this ok cl range] obtain P5 st5 where
    5: "im_iter create_trace_pairs p st4 = Inr st5" "represents B f (proof_view k init p) P5 st5"
    by (auto simp: add_pairs_def nodes_view_def fresh_view_def proof_view_def)
  from 0(1) 1(1) 2(1) 3(1) 4(1) 5 show ?thesis by blast
qed

end

context spot_library
begin

lemma mc_check_proof_ok:
  assumes "abs_ok p" and "abs_closed p" and "abs_in_range p" and "im_mem init p" and "log_ok ceil_log (length p)"
  shows "mc_check_proof B S ceil_log init p idle = Inr (gtc (abs_graph p) init, idle)"
proof -
  obtain k f P st0 st1 st2 st3 st4 st5 where calls:
    "create_aut B (1 + ceil_log (length p)) idle = Inr st0" "im_iter (\<lambda>i _. create_vertex B i) p st0 = Inr st1"
    "im_iter create_tags p st1 = Inr st2" "im_iter create_succs p st2 = Inr st3"
    "set_initial_vertex init st3 = Inr st4" "im_iter create_trace_pairs p st4 = Inr st5"
    and r: "represents B f (proof_view k init p) P st5"
    using driver_calls [OF assms] by blast
  have "vw_init (proof_view k init p) = Some init" by (simp add: proof_view_def)
  from check_soundness_rep [OF r this] have "check_soundness B S st5 = Inr (gtc (abs_graph p) init)"
    by (simp only: proof_view_graph [OF assms(1)])
  with calls destroy_aut_rep [OF r] show ?thesis by (simp add: mc_check_proof_def Let_def)
qed

end

section \<open>The cached check\<close>

text \<open>What the cache has to hold for one start node.\<close>

definition cache_ok :: "int \<Rightarrow> cache \<Rightarrow> bool" where
  "cache_ok init c \<longleftrightarrow> (\<forall>(key, r) \<in> set c. r = gtc (abs_graph key) init)"

lemma min_rel_range: "min_rel p p' K \<Longrightarrow> abs_in_range p \<Longrightarrow> abs_in_range p'"
proof -
  assume m: "min_rel p p' K" and r: "abs_in_range p"
  have "c_range i \<and> (\<forall>t\<in>fst n'. c_range t)" if "(i, n') \<in> set p'" for i n'
  proof -
    from that min_relD(1) [OF m] have "map_of p' i = Some n'" by (simp only: abs_ok_lookup)
    from min_relD(4) [OF m this] obtain n where "map_of p i = Some n" "fst n = fst n'" by blast
    with map_of_SomeD [OF this(1)] r show ?thesis unfolding abs_in_range_def by auto
  qed
  then show ?thesis unfolding abs_in_range_def by blast
qed

lemma min_rel_length:
  assumes m: "min_rel p p' K" and ok: "abs_ok p"
  shows "length p' \<le> length p"
proof -
  have "fst ` set p' \<subseteq> fst ` set p"
  proof
    fix i assume "i \<in> fst ` set p'"
    then have "im_mem i p'" by (simp add: im_mem_iff)
    then obtain n' where "map_of p' i = Some n'" unfolding im_mem_map_of by blast
    from min_relD(4) [OF m this] have "im_mem i p" unfolding im_mem_map_of by blast
    then show "i \<in> fst ` set p" by (simp add: im_mem_iff)
  qed
  then have "card (set (map fst p')) \<le> card (set (map fst p))" by (simp add: card_mono)
  moreover have "distinct (map fst p')" "distinct (map fst p)"
    using ok min_relD(1) [OF m] by (simp_all add: abs_ok_def im_wf_distinct)
  ultimately show ?thesis by (metis distinct_card length_map)
qed

lemma cache_find_ok:
  assumes "\<And>a b. same a b \<Longrightarrow> a = b" and "cache_ok init c" and "cache_find same key c = Some r"
  shows "r = gtc (abs_graph key) init"
proof -
  obtain e where e: "find (\<lambda>(k, _). same k key) c = Some e" "r = snd e"
    using assms(3) by (auto simp: cache_find_def)
  from e(1) have "e \<in> set c" "same (fst e) key" by (auto simp: find_Some_iff in_set_conv_nth)
  with assms(1,2) e(2) show ?thesis unfolding cache_ok_def by (auto simp: case_prod_unfold)
qed

context spot_library
begin

lemma check_proof_ok:
  assumes ok: "abs_ok prf" and cl: "abs_closed prf" and init: "im_mem init prf" and range: "abs_in_range prf"
    and log: "\<And>n. 0 < n \<Longrightarrow> n \<le> length prf \<Longrightarrow> log_ok ceil_log n"
    and same: "\<And>a b. same a b \<Longrightarrow> a = b" and cache: "cache_ok init c"
    and live: "init = 0 \<or> (\<exists>w. tg_path (abs_graph prf) init w)"
  shows "\<exists>c'. check_proof B S ceil_log same init prf (c, idle) = Inr (gtc (abs_graph prf) init, c', idle) \<and>
    cache_ok init c'"
proof -
  obtain aprf where a: "minimize_abs_proof prf init = Inr aprf" "min_rel prf aprf {init}" "im_mem init aprf"
    using minimize_ok [OF ok cl, of init] init live by blast
  have ne: "prf \<noteq> []" "aprf \<noteq> []" using init a(3) by (auto simp: im_mem_iff)
  have g: "gtc (abs_graph aprf) init = gtc (abs_graph prf) init" using min_relD(3) [OF a(2)] by simp
  have "log_ok ceil_log (length aprf)" using log ne(2) min_rel_length [OF a(2) ok] by simp
  note mc = mc_check_proof_ok [OF min_relD(1,2) [OF a(2)] min_rel_range [OF a(2) range] a(3) this]
  have v: "valid prf init = Inr True" "valid aprf init = Inr True"
    using ok cl init a(3) min_relD(1,2) [OF a(2)] by (simp_all add: valid_iff)
  show ?thesis
  proof (cases "cache_find same aprf c")
    case None
    moreover have "cache_ok init ((aprf, gtc (abs_graph prf) init) # c)" using cache g by (simp add: cache_ok_def)
    ultimately show ?thesis using ne v a(1) mc g by (simp add: check_proof_def)
  next
    case (Some r)
    with cache_find_ok [OF same cache Some] ne v a(1) g cache show ?thesis by (simp add: check_proof_def)
  qed
qed

end

end
