(* ===== verification/Checkproof.thy ===== *)
theory Checkproof
  imports Driver
begin

text \<open>
  The stand-alone checker (checkproof.ml): the abstract proof that \<^verbatim>\<open>mk_prf\<close> builds from the
  parsed lines of its input. The parser itself and the loop over standard input are not
  modelled.
\<close>

section \<open>Definitions\<close>

text \<open>A line \<^verbatim>\<open>src -> dest : {prog}, {nonprog}\<close>.\<close>

type_synonym line = "var \<times> var \<times> (var \<times> var) set \<times> (var \<times> var) set"
type_synonym node_entry = "var set \<times> int list \<times> ((var \<times> var) set \<times> (var \<times> var) set) list"

text \<open>\<^verbatim>\<open>Int.Map.update\<close>.\<close>

definition im_update :: "int \<Rightarrow> ('a option \<Rightarrow> 'a option) \<Rightarrow> 'a int_map \<Rightarrow> 'a int_map" where
  "im_update k f m = (case f (map_of m k) of None \<Rightarrow> im_remove k m | Some v \<Rightarrow> im_add k v m)"

definition add_entry :: "line \<Rightarrow> node_entry int_map \<Rightarrow> node_entry int_map result" where
  "add_entry ln nodemap = (case ln of (src, dest, prog, nonprog) \<Rightarrow>
     let src = to_int src;
         dest = to_int dest;
         all = nonprog \<union> prog;
         src_tags = map_to insert {} fst all;
         dest_tags = map_to insert {} snd all
     in asserting ''not (List.mem dest premises)''
          (case map_of nodemap src of None \<Rightarrow> True | Some (_, premises, _) \<Rightarrow> dest \<notin> set premises)
          (let nodemap = im_update src (\<lambda>r. case r of
                 None \<Rightarrow> Some (src_tags, [dest], [(all, prog)])
               | Some (tags, premises, tps) \<Rightarrow> Some (src_tags \<union> tags, dest # premises, (all, prog) # tps)) nodemap;
               nodemap = im_update dest (\<lambda>r. case r of
                 None \<Rightarrow> Some (dest_tags, [], [])
               | Some (tags, premises, tps) \<Rightarrow> Some (dest_tags \<union> tags, premises, tps)) nodemap
           in Inr nodemap))"

definition mk_prf :: "line list \<Rightarrow> (abs_proof \<times> int) result" where
  "mk_prf lns =
     bindE (foldE add_entry lns []) (\<lambda>nodemap.
     bindE (mapE (\<lambda>(k, (tags, premises, tps)). bindE (mk_abs_node tags premises tps) (\<lambda>n. Inr (k, n))) nodemap) (\<lambda>prf.
     let init = (case lns of [] \<Rightarrow> 0 | (src, _, _, _) # _ \<Rightarrow> to_int src)
     in Inr (prf, init)))"

section \<open>What the lines say\<close>

definition ln_src :: "line \<Rightarrow> int" where
  "ln_src l = to_int (fst l)"

definition ln_dst :: "line \<Rightarrow> int" where
  "ln_dst l = to_int (fst (snd l))"

definition ln_prog :: "line \<Rightarrow> (var \<times> var) set" where
  "ln_prog l = fst (snd (snd l))"

definition ln_all :: "line \<Rightarrow> (var \<times> var) set" where
  "ln_all l = snd (snd (snd l)) \<union> fst (snd (snd l))"

lemmas ln_defs = ln_src_def ln_dst_def ln_prog_def ln_all_def

definition lines_finite :: "line list \<Rightarrow> bool" where
  "lines_finite lns \<longleftrightarrow> (\<forall>l\<in>set lns. finite (ln_all l))"

text \<open>The trace graph that the lines describe.\<close>

definition lines_graph :: "line list \<Rightarrow> (int, int) tgraph" where
  "lines_graph lns =
     \<lparr>tg_edge = (\<lambda>i j. \<exists>l\<in>set lns. ln_src l = i \<and> ln_dst l = j),
      tg_valid = (\<lambda>i j. \<Union>l\<in>{l \<in> set lns. ln_src l = i \<and> ln_dst l = j}. ints (ln_all l)),
      tg_prog = (\<lambda>i j. \<Union>l\<in>{l \<in> set lns. ln_src l = i \<and> ln_dst l = j}. ints (ln_prog l))\<rparr>"

text \<open>The entry of a node after the lines have been read.\<close>

definition entry_tags :: "line list \<Rightarrow> int \<Rightarrow> var set" where
  "entry_tags lns i = (\<Union>l\<in>{l \<in> set lns. ln_src l = i}. fst ` ln_all l) \<union> (\<Union>l\<in>{l \<in> set lns. ln_dst l = i}. snd ` ln_all l)"

definition entry :: "line list \<Rightarrow> int \<Rightarrow> node_entry option" where
  "entry lns i =
     (if \<exists>l\<in>set lns. ln_src l = i \<or> ln_dst l = i
      then Some (entry_tags lns i, rev (map ln_dst (filter (\<lambda>l. ln_src l = i) lns)),
        rev (map (\<lambda>l. (ln_all l, ln_prog l)) (filter (\<lambda>l. ln_src l = i) lns)))
      else None)"

section \<open>Reading the lines\<close>

lemma im_update_wf: "im_wf m \<Longrightarrow> im_wf (im_update k f m)"
  by (simp add: im_update_def im_add_wf im_remove_wf split: option.split)

lemma im_update_lookup: "map_of (im_update k f m) = (map_of m)(k := f (map_of m k))"
  by (auto simp: im_update_def im_add_lookup im_remove_lookup split: option.split)

lemma entry_premises:
  "entry lns i = Some (tags, ps, tps) \<Longrightarrow> j \<in> set ps \<longleftrightarrow> (i, j) \<in> (\<lambda>l. (ln_src l, ln_dst l)) ` set lns"
proof -
  assume "entry lns i = Some (tags, ps, tps)"
  then have "ps = rev (map ln_dst (filter (\<lambda>l. ln_src l = i) lns))"
    unfolding entry_def by (simp split: if_splits)
  then have "set ps = ln_dst ` {l \<in> set lns. ln_src l = i}" by (simp only: set_rev set_map set_filter)
  then show ?thesis by blast
qed

lemma entry_tags_snoc:
  "entry_tags (lns @ [l]) i = (if ln_src l = i then fst ` ln_all l else {}) \<union>
     (if ln_dst l = i then snd ` ln_all l else {}) \<union> entry_tags lns i"
  by (auto simp: entry_tags_def)

lemma add_entry_step:
  assumes wf: "im_wf m" and m: "\<And>i. map_of m i = entry lns i" and fin: "finite (ln_all l)"
    and new: "(ln_src l, ln_dst l) \<notin> (\<lambda>l. (ln_src l, ln_dst l)) ` set lns"
  shows "\<exists>m'. add_entry l m = Inr m' \<and> im_wf m' \<and> (\<forall>i. map_of m' i = entry (lns @ [l]) i)"
proof -
  obtain src dest prog nonprog where l: "l = (src, dest, prog, nonprog)" by (cases l)
  let ?s = "ln_src l" and ?d = "ln_dst l" and ?all = "ln_all l" and ?prog = "ln_prog l"
  let ?f = "\<lambda>r. case r of None \<Rightarrow> Some (fst ` ?all, [?d], [(?all, ?prog)])
       | Some (tags, premises, tps) \<Rightarrow> Some (fst ` ?all \<union> tags, ?d # premises, (?all, ?prog) # tps)"
  let ?g = "\<lambda>r. case r of None \<Rightarrow> Some (snd ` ?all, [], [])
       | Some (tags, premises, tps) \<Rightarrow> Some (snd ` ?all \<union> tags, premises, tps)"
  let ?m = "im_update ?d ?g (im_update ?s ?f m)"
  have guard: "case map_of m ?s of None \<Rightarrow> True | Some (_, premises, _) \<Rightarrow> ?d \<notin> set premises"
    using new entry_premises [of lns ?s] by (auto simp only: m split: option.split prod.split)
  have "add_entry l m = Inr ?m"
    using guard fin unfolding add_entry_def l Let_def prod.case ln_defs fst_conv snd_conv
    by (simp only: map_to_image asserting_True)
  moreover have "map_of ?m i = entry (lns @ [l]) i" for i
  proof -
    have "map_of ?m i = (let r = (if i = ?s then ?f (entry lns i) else entry lns i) in if i = ?d then ?g r else r)"
      by (simp add: im_update_lookup m Let_def)
    also have "\<dots> = entry (lns @ [l]) i"
      by (auto simp: entry_def entry_tags_snoc Let_def, auto simp: entry_tags_def)
    finally show ?thesis .
  qed
  ultimately show ?thesis using wf im_update_wf by blast
qed

lemma add_entries_ok:
  assumes "distinct (map (\<lambda>l. (ln_src l, ln_dst l)) lns)" and "lines_finite lns"
  shows "\<exists>m. foldE add_entry lns [] = Inr m \<and> im_wf m \<and> (\<forall>i. map_of m i = entry lns i)"
proof (rule foldE_total [where I = "\<lambda>ys m. im_wf m \<and> (\<forall>i. map_of m i = entry ys i)"])
  show "im_wf [] \<and> (\<forall>i. map_of [] i = entry [] i)" by (simp add: im_wf_def entry_def)
  fix ys y zs m
  assume l: "lns = ys @ y # zs" and I: "im_wf m \<and> (\<forall>i. map_of m i = entry ys i)"
  have "(ln_src y, ln_dst y) \<notin> (\<lambda>l. (ln_src l, ln_dst l)) ` set ys" "finite (ln_all y)"
    using assms by (auto simp: l lines_finite_def)
  from add_entry_step [OF _ _ this(2,1)] I
  show "\<exists>m'. add_entry y m = Inr m' \<and> im_wf m' \<and> (\<forall>i. map_of m' i = entry (ys @ [y]) i)" by blast
qed

section \<open>The abstract proof of the lines\<close>

definition line_premise :: "line \<Rightarrow> int \<times> pairs \<times> pairs" where
  "line_premise l = (ln_dst l, ints (ln_all l), ints (ln_prog l))"

definition line_node :: "line list \<Rightarrow> int \<Rightarrow> abstract_node" where
  "line_node lns i = (to_int ` entry_tags lns i, rev (map line_premise (filter (\<lambda>l. ln_src l = i) lns)))"

lemma lines_finiteD:
  assumes "lines_finite lns" and "l \<in> set lns"
  shows "finite (ln_all l)" "finite (ln_prog l)"
proof -
  show f: "finite (ln_all l)" using assms unfolding lines_finite_def by blast
  then show "finite (ln_prog l)" by (simp add: ln_all_def ln_prog_def)
qed

lemma entry_tags_finite: "lines_finite lns \<Longrightarrow> finite (entry_tags lns i)"
  unfolding entry_tags_def by (intro finite_UnI finite_UN_I finite_imageI) (auto dest: lines_finiteD)

lemma mk_abs_node_entry:
  assumes fin: "lines_finite lns" and e: "entry lns i = Some (tags, ps, tps)"
  shows "mk_abs_node tags ps tps = Inr (line_node lns i)"
proof -
  let ?ls = "filter (\<lambda>l. ln_src l = i) lns"
  have t: "tags = entry_tags lns i" and ps: "ps = rev (map ln_dst ?ls)"
    and tps: "tps = rev (map (\<lambda>l. (ln_all l, ln_prog l)) ?ls)"
    using e unfolding entry_def by (simp_all split: if_splits)
  have zip: "zip ps tps = rev (map (\<lambda>l. (ln_dst l, ln_all l, ln_prog l)) ?ls)"
    unfolding ps tps by (simp add: zip_rev zip_map_map zip_same_conv_map)
  have "map (\<lambda>(j, a, b). (j, map_to insert {} (\<lambda>(t, u). (to_int t, to_int u)) a,
      map_to insert {} (\<lambda>(t, u). (to_int t, to_int u)) b)) (zip ps tps) = rev (map line_premise ?ls)"
    unfolding zip rev_map [symmetric] map_map comp_def prod.case
    by (rule arg_cong [where f = rev], rule map_cong [OF refl])
      (use lines_finiteD [OF fin] in \<open>simp add: ints_map_to line_premise_def\<close>)
  moreover have "length ps = length tps" by (simp add: ps tps)
  ultimately show ?thesis
    using entry_tags_finite [OF fin]
    by (simp add: mk_abs_node_def Let_def map2E_zip t to_ints_def map_to_image line_node_def case_prod_unfold)
qed

lemma mk_prf_ok:
  assumes d: "distinct (map (\<lambda>l. (ln_src l, ln_dst l)) lns)" and fin: "lines_finite lns"
  shows "\<exists>prf. mk_prf lns = Inr (prf, if lns = [] then 0 else ln_src (hd lns)) \<and> im_wf prf \<and>
    (\<forall>i. map_of prf i = (if \<exists>l\<in>set lns. ln_src l = i \<or> ln_dst l = i then Some (line_node lns i) else None))"
proof -
  obtain m where m: "foldE add_entry lns [] = Inr m" "im_wf m" "\<And>i. map_of m i = entry lns i"
    using add_entries_ok [OF assms] by blast
  let ?q = "map (\<lambda>x. (fst x, line_node lns (fst x))) m"
  have "mapE (\<lambda>(k, (tags, premises, tps)). bindE (mk_abs_node tags premises tps) (\<lambda>n. Inr (k, n))) (map (\<lambda>x. x) m) = Inr ?q"
  proof (rule mapE_map_Inr)
    fix x assume x: "x \<in> set m"
    obtain k tags ps tps where k: "x = (k, tags, ps, tps)" by (cases x)
    have "map_of m k = Some (tags, ps, tps)" using m(2) x by (simp add: k im_wf_distinct)
    then have "entry lns k = Some (tags, ps, tps)" by (simp only: m(3))
    from mk_abs_node_entry [OF fin this]
    show "(case x of (k, tags, premises, tps) \<Rightarrow> bindE (mk_abs_node tags premises tps) (\<lambda>n. Inr (k, n))) =
        Inr (fst x, line_node lns (fst x))"
      by (simp add: k)
  qed
  moreover have "(case lns of [] \<Rightarrow> 0 | (src, _, _, _) # _ \<Rightarrow> to_int src) = (if lns = [] then 0 else ln_src (hd lns))"
    by (cases lns) (simp_all add: ln_src_def case_prod_unfold)
  ultimately have "mk_prf lns = Inr (?q, if lns = [] then 0 else ln_src (hd lns))"
    unfolding mk_prf_def m(1) Let_def by (simp only: bindE_simps list.map_ident)
  moreover have "im_wf ?q" using m(2) by (simp add: im_wf_def comp_def)
  moreover have "map_of ?q i = (if \<exists>l\<in>set lns. ln_src l = i \<or> ln_dst l = i then Some (line_node lns i) else None)" for i
  proof -
    have "map_of ?q i = map_option (\<lambda>_. line_node lns i) (map_of m i)" by (induction m) auto
    then show ?thesis by (simp add: m(3) entry_def)
  qed
  ultimately show ?thesis by blast
qed

lemma line_node_premises: "e \<in> set (snd (line_node lns i)) \<longleftrightarrow> (\<exists>l\<in>set lns. ln_src l = i \<and> e = line_premise l)"
  by (auto simp: line_node_def)

lemma line_node_tags: "fst (line_node lns i) = to_int ` entry_tags lns i"
  by (simp add: line_node_def)

text \<open>The lookup that \<^verbatim>\<open>mk_prf\<close> establishes, as one predicate.\<close>

definition proof_of_lines :: "line list \<Rightarrow> abs_proof \<Rightarrow> bool" where
  "proof_of_lines lns prf \<longleftrightarrow> im_wf prf \<and>
     (\<forall>i. map_of prf i = (if \<exists>l\<in>set lns. ln_src l = i \<or> ln_dst l = i then Some (line_node lns i) else None))"

lemma proof_of_linesD:
  assumes "proof_of_lines lns prf"
  shows "map_of prf i = Some n \<longleftrightarrow> n = line_node lns i \<and> (\<exists>l\<in>set lns. ln_src l = i \<or> ln_dst l = i)" "im_wf prf"
  using assms unfolding proof_of_lines_def by auto

lemma proof_of_lines_abs_ok:
  assumes p: "proof_of_lines lns prf" and d: "distinct (map (\<lambda>l. (ln_src l, ln_dst l)) lns)" and fin: "lines_finite lns"
  shows "abs_ok prf"
proof -
  note q = proof_of_linesD [OF p]
  have "node_ok (line_node lns i)" for i
    unfolding node_ok_def
  proof (intro conjI ballI)
    show "finite (fst (line_node lns i))" using entry_tags_finite [OF fin] by (simp add: line_node_tags)
    have "distinct (map ln_dst (filter (\<lambda>l. ln_src l = i) lns))"
      using d by (induction lns) (auto simp: image_iff)
    then show "distinct (map fst (snd (line_node lns i)))"
      by (simp add: line_node_def line_premise_def comp_def rev_map [symmetric])
    fix e assume "e \<in> set (snd (line_node lns i))"
    then obtain l where "l \<in> set lns" "e = line_premise l" unfolding line_node_premises by blast
    with lines_finiteD [OF fin this(1)] show "case e of (j, tv, tp) \<Rightarrow> finite tv \<and> finite tp"
      by (simp add: line_premise_def ints_def)
  qed
  moreover have "n = line_node lns i" if "(i, n) \<in> set prf" for i n
    using that q(1) [of i n] q(2) by (simp add: im_wf_distinct)
  ultimately show ?thesis using q(2) unfolding abs_ok_def by blast
qed

lemma proof_of_lines_closed:
  assumes p: "proof_of_lines lns prf" and ok: "abs_ok prf"
  shows "abs_closed prf"
proof (rule abs_closedI [OF ok])
  note q = proof_of_linesD(1) [OF p]
  fix i n j tv tp assume "map_of prf i = Some n" and e: "(j, tv, tp) \<in> set (snd n)"
  then have n: "n = line_node lns i" by (simp only: q)
  from e obtain l where l: "l \<in> set lns" "ln_src l = i" "j = ln_dst l" "tv = ints (ln_all l)" "tp = ints (ln_prog l)"
    unfolding n line_node_premises line_premise_def by blast
  have "tp \<subseteq> tv" unfolding l(4,5) ints_def ln_all_def ln_prog_def by (intro image_mono) blast
  moreover have "fst ` tv \<subseteq> fst n"
    unfolding n line_node_tags l(4) ints_proj entry_tags_def using l(1,2) by (intro image_mono) blast
  moreover have "map_of prf j = Some (line_node lns j)" unfolding q using l(1,3) by blast
  moreover have "snd ` tv \<subseteq> fst (line_node lns j)"
    unfolding line_node_tags l(4) ints_proj entry_tags_def using l(1,3) by (intro image_mono) blast
  ultimately show "tp \<subseteq> tv \<and> fst ` tv \<subseteq> fst n \<and> (\<exists>m. map_of prf j = Some m \<and> snd ` tv \<subseteq> fst m)"
    by blast
qed

lemma proof_of_lines_graph:
  assumes p: "proof_of_lines lns prf"
  shows "abs_graph prf = lines_graph lns"
proof -
  note q = proof_of_linesD(1) [OF p]
  have e: "(\<exists>n tv tp. map_of prf i = Some n \<and> (j, tv, tp) \<in> set (snd n)) \<longleftrightarrow>
      (\<exists>l\<in>set lns. ln_src l = i \<and> ln_dst l = j)"
    "{tu. \<exists>n tv tp. map_of prf i = Some n \<and> (j, tv, tp) \<in> set (snd n) \<and> tu \<in> tv} =
      (\<Union>l\<in>{l \<in> set lns. ln_src l = i \<and> ln_dst l = j}. ints (ln_all l))"
    "{tu. \<exists>n tv tp. map_of prf i = Some n \<and> (j, tv, tp) \<in> set (snd n) \<and> tu \<in> tp} =
      (\<Union>l\<in>{l \<in> set lns. ln_src l = i \<and> ln_dst l = j}. ints (ln_prog l))" for i j
    unfolding q by (auto simp: line_node_premises line_premise_def)
  show ?thesis by (simp only: abs_graph_def lines_graph_def e)
qed

text \<open>Node names and tags of the lines have numbers that fit a C \<^verbatim>\<open>int\<close>.\<close>

definition lines_in_range :: "line list \<Rightarrow> bool" where
  "lines_in_range lns \<longleftrightarrow> (\<forall>l\<in>set lns. c_range (ln_src l) \<and> c_range (ln_dst l) \<and>
     (\<forall>(t, u) \<in> ln_all l. c_range (to_int t) \<and> c_range (to_int u)))"

lemma proof_of_lines_range:
  assumes p: "proof_of_lines lns prf" and r: "lines_in_range lns"
  shows "abs_in_range prf"
proof -
  note q = proof_of_linesD [OF p]
  have "c_range i \<and> (\<forall>t\<in>fst n. c_range t)" if "(i, n) \<in> set prf" for i n
  proof -
    from that q(2) have "map_of prf i = Some n" by (simp add: im_wf_distinct)
    then have n: "n = line_node lns i" and "\<exists>l\<in>set lns. ln_src l = i \<or> ln_dst l = i" unfolding q(1) by blast+
    then have "c_range i" using r unfolding lines_in_range_def by blast
    moreover have "c_range (to_int t)" if "t \<in> entry_tags lns i" for t
      using that r unfolding entry_tags_def lines_in_range_def by fastforce
    ultimately show ?thesis unfolding n line_node_tags by blast
  qed
  then show ?thesis unfolding abs_in_range_def by blast
qed

lemma proof_of_lines_length:
  assumes p: "proof_of_lines lns prf"
  shows "length prf \<le> 2 * length lns"
proof -
  note q = proof_of_linesD [OF p]
  have "fst ` set prf \<subseteq> set (map ln_src lns @ map ln_dst lns)"
  proof
    fix i assume "i \<in> fst ` set prf"
    then have "im_mem i prf" by (simp add: im_mem_iff)
    then show "i \<in> set (map ln_src lns @ map ln_dst lns)" unfolding im_mem_map_of q(1) by auto
  qed
  then have "card (set (map fst prf)) \<le> card (set (map ln_src lns @ map ln_dst lns))" by (simp add: card_mono)
  also have "\<dots> \<le> length (map ln_src lns @ map ln_dst lns)" by (rule card_length)
  finally show ?thesis using distinct_card [OF im_wf_distinct [OF q(2)]] by simp
qed

lemma mk_prf_correct:
  assumes "distinct (map (\<lambda>l. (ln_src l, ln_dst l)) lns)" and "lines_finite lns"
  shows "\<exists>prf. mk_prf lns = Inr (prf, if lns = [] then 0 else ln_src (hd lns)) \<and> proof_of_lines lns prf \<and>
    abs_ok prf \<and> abs_closed prf \<and> abs_graph prf = lines_graph lns"
proof -
  obtain p where p: "mk_prf lns = Inr (p, if lns = [] then 0 else ln_src (hd lns))" "proof_of_lines lns p"
    using mk_prf_ok [OF assms] unfolding proof_of_lines_def by blast
  note ok = proof_of_lines_abs_ok [OF p(2) assms]
  from p ok proof_of_lines_closed [OF p(2) ok] proof_of_lines_graph [OF p(2)] show ?thesis by blast
qed

lemma proof_of_lines_mem:
  "proof_of_lines lns prf \<Longrightarrow> im_mem i prf \<longleftrightarrow> (\<exists>l\<in>set lns. ln_src l = i \<or> ln_dst l = i)"
  unfolding im_mem_map_of using proof_of_linesD(1) [of lns "prf" i] by blast

text \<open>A repeated edge fails the assertion.\<close>

lemma mk_prf_repeated:
  assumes "\<not> distinct (map (\<lambda>l. (ln_src l, ln_dst l)) lns)" and "lines_finite lns"
  shows "mk_prf lns = Inl (Assert_failure ''not (List.mem dest premises)'')"
proof -
  obtain xs y ys where l: "lns = xs @ y # ys" and d: "distinct (map (\<lambda>l. (ln_src l, ln_dst l)) xs)"
    and old: "(ln_src y, ln_dst y) \<in> (\<lambda>l. (ln_src l, ln_dst l)) ` set xs"
    using assms(1)
  proof (induction lns arbitrary: thesis rule: rev_induct)
    case (snoc z zs)
    show ?case
    proof (cases "distinct (map (\<lambda>l. (ln_src l, ln_dst l)) zs)")
      case True
      with snoc.prems(2) have "(ln_src z, ln_dst z) \<in> (\<lambda>l. (ln_src l, ln_dst l)) ` set zs" by auto
      with True snoc.prems(1) [of zs z "[]"] show ?thesis by simp
    next
      case False
      obtain xs y ys where "zs = xs @ y # ys" "distinct (map (\<lambda>l. (ln_src l, ln_dst l)) xs)"
        "(ln_src y, ln_dst y) \<in> (\<lambda>l. (ln_src l, ln_dst l)) ` set xs"
        by (rule snoc.IH [OF _ False])
      with snoc.prems(1) [of xs y "ys @ [z]"] show ?thesis by simp
    qed
  qed simp
  have "lines_finite xs" using assms(2) by (simp add: l lines_finite_def)
  from add_entries_ok [OF d this] obtain m where m: "foldE add_entry xs [] = Inr m" "\<And>i. map_of m i = entry xs i" by blast
  obtain tags ps tps where e: "entry xs (ln_src y) = Some (tags, ps, tps)"
  proof -
    from old have "\<exists>l\<in>set xs. ln_src l = ln_src y \<or> ln_dst l = ln_src y" by (auto simp only: image_iff prod.inject)
    then have "entry xs (ln_src y) \<noteq> None" unfolding entry_def by simp
    with that show thesis by (cases "entry xs (ln_src y)") auto
  qed
  have "ln_dst y \<in> set ps" using entry_premises [OF e] old by simp
  then have "add_entry y m = Inl (Assert_failure ''not (List.mem dest premises)'')"
    using e m(2) [of "ln_src y"] by (simp add: add_entry_def ln_defs case_prod_unfold Let_def)
  with m(1) show ?thesis by (simp add: mk_prf_def l foldE_append)
qed

end
