(* ===== verification/Driver_Properties.thy ===== *)
theory Driver_Properties
  imports Checkproof Samples
begin

text \<open>
  The properties of the OCaml side: containers, validation and minimisation of abstract
  proofs, the driver of the C++ checker, the cached check and the input of the stand-alone
  checker.
\<close>

section \<open>Sample proofs\<close>

text \<open>One node that is its own premise, with a trace that always progresses.\<close>

definition loop_proof :: abs_proof where
  "loop_proof = [(0, ({1}, [(0, {(1, 1)}, {(1, 1)})]))]"

text \<open>Two separate loops: the one at \<open>0\<close> has no traces, the one at \<open>1\<close> always progresses.\<close>

definition two_loops :: abs_proof where
  "two_loops = [(0, ({}, [(0, {}, {})])), (1, ({1}, [(1, {(1, 1)}, {(1, 1)})]))]"

text \<open>A chain that ends, next to a loop.\<close>

definition chain_and_loop :: abs_proof where
  "chain_and_loop = [(1, ({}, [(2, {}, {})])), (2, ({}, [])), (3, ({}, [(3, {}, {})]))]"

text \<open>A node with two premises that are the same leaf.\<close>

definition twin_premises :: abs_proof where
  "twin_premises = [(0, ({}, [(1, {}, {}), (1, {}, {})])), (1, ({}, []))]"

lemmas sample_proof_defs = loop_proof_def two_loops_def chain_and_loop_def twin_premises_def

lemma sample_abs_ok: "abs_ok loop_proof" "abs_ok two_loops" "abs_ok chain_and_loop"
  by (simp_all add: sample_proof_defs abs_ok_def im_wf_def node_ok_def)

lemma sample_abs_closed: "abs_closed loop_proof" "abs_closed two_loops" "abs_closed chain_and_loop"
  by (simp_all add: sample_proof_defs abs_closed_def premise_ok_def)

lemma sample_abs_range: "abs_in_range loop_proof" "abs_in_range two_loops"
  by (simp_all add: sample_proof_defs abs_in_range_def c_range_def)

lemma sample_log: "log_ok (\<lambda>_. 1) n" if "n \<le> 2"
  using that by (simp add: log_ok_def)

text \<open>A node whose only premise is itself, with one pair on one tag.\<close>

lemma self_loop_gtc:
  assumes "\<And>j. tg_edge G i j \<longleftrightarrow> j = i" and "(t, t) \<in> tg_valid G i i" and "(t, t) \<in> tg_prog G i i"
  shows "gtc G i"
proof (rule gtcI)
  fix p assume p: "tg_path G i p"
  have "p k = i" for k using tg_path_in [OF p, of "{i}" k] assms(1) by simp
  then show "path_progressing G p"
    unfolding path_progressing_def using assms(2,3) by (intro progressingI [where n = 0 and t = "\<lambda>_. t"]) auto
qed

lemma sample_gtcs:
  "gtc (abs_graph loop_proof) 0" "gtc (abs_graph two_loops) 1" "\<not> gtc (abs_graph two_loops) 0"
proof -
  show "gtc (abs_graph loop_proof) 0"
    by (rule self_loop_gtc [where t = 1]) (simp_all add: abs_graph_def loop_proof_def)
  show "gtc (abs_graph two_loops) 1"
    by (rule self_loop_gtc [where t = 1]) (simp_all add: abs_graph_def two_loops_def)
  have "tg_path (abs_graph two_loops) 0 (\<lambda>_. 0)" by (simp add: tg_path_def abs_graph_def two_loops_def)
  moreover have "\<not> path_progressing (abs_graph two_loops) (\<lambda>_. 0)"
    by (simp add: path_progressing_def progressing_def abs_graph_def two_loops_def)
  ultimately show "\<not> gtc (abs_graph two_loops) 0" unfolding gtc_def by blast
qed

lemma two_loops_minimal: "minimize_abs_proof two_loops init = Inr two_loops"
proof -
  have "remove_dead_nodes two_loops = Inr two_loops"
    by (subst remove_dead_nodes.simps) (simp add: dead_candidate_eq two_loops_def node_simps)
  moreover have "fuse_single_nodes two_loops init = Inr two_loops"
    by (subst fuse_single_nodes.simps) (simp add: fuse_candidate_eq two_loops_def can_fuse_def)
  ultimately show ?thesis by (simp add: minimize_abs_proof_def)
qed

lemma chain_minimal: "minimize_abs_proof chain_and_loop 1 = Inr [(3, ({}, [(3, {}, {})]))]"
proof -
  let ?p1 = "[(1, ({}, [])), (3, ({}, [(3, {}, {})]))] :: abs_proof" and ?p2 = "[(3, ({}, [(3, {}, {})]))] :: abs_proof"
  have ok: "abs_ok ?p1" by (simp add: abs_ok_def im_wf_def node_ok_def)
  have "remove_dead_nodes ?p2 = Inr ?p2"
    by (subst remove_dead_nodes.simps) (simp add: dead_candidate_eq node_simps)
  then have "remove_dead_nodes ?p1 = Inr ?p2"
    by (subst remove_dead_nodes.simps)
      (simp add: dead_candidate_eq node_simps remove_dead_node_eq [OF ok] without_leaf_def im_remove_def drop_child_def)
  then have "remove_dead_nodes chain_and_loop = Inr ?p2"
    by (subst remove_dead_nodes.simps)
      (simp add: dead_candidate_eq node_simps remove_dead_node_eq [OF sample_abs_ok(3) [unfolded chain_and_loop_def]] chain_and_loop_def
        without_leaf_def im_remove_def drop_child_def)
  moreover have "fuse_single_nodes ?p2 1 = Inr ?p2"
    by (subst fuse_single_nodes.simps) (simp add: fuse_candidate_eq can_fuse_def)
  ultimately show ?thesis by (simp add: minimize_abs_proof_def)
qed

lemma loop_members: "im_mem 0 loop_proof" "im_mem 0 two_loops" "im_mem 1 two_loops" "im_mem 1 chain_and_loop"
  by (simp_all add: im_mem_def sample_proof_defs)

section \<open>Containers\<close>

text \<open>
  Access to a list by position: \<^verbatim>\<open>find_index\<close> returns the position of the first match
  and raises \<^verbatim>\<open>Not_found\<close> exactly if there is none, \<^verbatim>\<open>remove_nth\<close> drops one element and
  raises exactly beyond the end, and \<^verbatim>\<open>replace_nth\<close> updates one position, if there is one.
\<close>

theorem list_access_by_position:
  "(find_index q xs = Inr i \<longleftrightarrow> i < length xs \<and> q (xs ! i) \<and> list_all (\<lambda>x. \<not> q x) (take i xs)) \<and>
   (find_index q xs = Inl Not_found \<longleftrightarrow> list_all (\<lambda>x. \<not> q x) xs) \<and>
   remove_nth i xs = (if i < length xs then Inr (take i xs @ drop (Suc i) xs)
                      else Inl (Invalid_argument ''Blist.remove_nth'')) \<and>
   replace_nth z i xs = xs[i := z]"
  by (intro conjI find_index_first find_index_none remove_nth_eq replace_nth_eq)

text \<open>
  \<^verbatim>\<open>build_proof\<close> gives a map with sorted keys in which a node is described by the last
  entry of the list that has its number.
\<close>

theorem build_proof_lookup:
  "im_wf (build_proof nodes) \<and>
   map_of (build_proof nodes) i = map_option (\<lambda>(tags, premises). (set tags,
     map (\<lambda>(target, allpairs, progpairs). (target, set allpairs, set progpairs)) premises)) (map_of (rev nodes) i)"
proof -
  let ?g = "\<lambda>(tags, premises). (set tags, map (\<lambda>(target, allpairs, progpairs). (target, set allpairs, set progpairs)) premises)"
  have "build_proof nodes = im_of_list (map (\<lambda>(k, v). (k, ?g v)) nodes)"
    by (simp add: build_proof_def case_prod_unfold)
  then show ?thesis by (simp add: im_of_list_wf im_of_list_lookup rev_map map_of_map)
qed

text \<open>
  \<^verbatim>\<open>compose\<close>, which folds over both sets, is the composition of relations.
\<close>

theorem compose_is_composition:
  assumes "finite t1" and "finite t2"
  shows "compose t1 t2 = t1 O t2"
  by (rule compose_relcomp [OF assms])

theorem compose_is_composition_witness: "compose {(1, 2), (3, 4)} {(2, 5), (4, 6)} = {(1, 5), (3, 6)}"
  using compose_is_composition [of "{(1, 2), (3, 4)}" "{(2, 5), (4, 6)}"] by auto

section \<open>Validation\<close>

text \<open>
  C27: \<^verbatim>\<open>valid\<close> never raises; it answers whether the start node exists, every premise is a
  node, the progressing pairs of a premise are among its pairs, and its pairs lead from tags
  of the node to tags of the premise.
\<close>

theorem valid_decides:
  assumes "abs_ok p"
  shows "valid p init = Inr (im_mem init p \<and> (\<forall>(i, n) \<in> set p. \<forall>(j, tv, tp) \<in> set (get_subg n).
    tp \<subseteq> tv \<and> fst ` tv \<subseteq> get_tags n \<and> (\<exists>m. im_find j p = Inr m \<and> snd ` tv \<subseteq> get_tags m)))"
proof -
  have find: "im_find j p = Inr m \<longleftrightarrow> map_of p j = Some m" for j m
    by (simp add: im_find_def split: option.split)
  show ?thesis
    unfolding valid_iff [OF assms] abs_closed_def premise_ok_def get_subg_def get_tags_def find
    by (simp only: case_prod_unfold)
qed

theorem valid_decides_witness: "valid loop_proof 0 = Inr True \<and> valid loop_proof 5 = Inr False"
  using valid_decides [OF sample_abs_ok(1), of 0] valid_decides [OF sample_abs_ok(1), of 5]
  by (simp add: loop_proof_def im_mem_def im_find_def get_subg_def get_tags_def)

section \<open>Minimisation\<close>







text \<open>
  C34: two premises of a node that are the same node are not treated alike: removing a dead
  premise drops only the first of them, and the check of a valid proof with twin premises
  fails its own assertion.
\<close>

theorem twin_premises_fail:
  "valid twin_premises 0 = Inr True \<and>
   remove_dead_nodes twin_premises = Inr [(0, ({}, [(1, {}, {})]))] \<and>
   check_proof B S ceil_log same 0 twin_premises (c, st) = Inl (Assert_failure ''valid aprf init'')"
proof -
  let ?p = "[(0, ({}, [(1, {}, {})]))] :: abs_proof"
  have v: "valid twin_premises 0 = Inr True" "valid ?p 0 = Inr False"
    by (simp_all add: valid_def twin_premises_def im_mem_def valid_premise_def im_find_def node_simps
        projectl_def projectr_def map_to_image)
  have "remove_dead_nodes ?p = Inr ?p"
    by (subst remove_dead_nodes.simps) (simp add: dead_candidate_eq node_simps)
  moreover have "remove_dead_node 1 twin_premises = Inr ?p"
    by (simp add: remove_dead_node_def twin_premises_def im_remove_def im_iter_def dead_process_node_def
        in_children_def get_subg_def index_of_child_def find_index_def im_add_def im_mem_def)
  ultimately have r: "remove_dead_nodes twin_premises = Inr ?p"
    by (subst remove_dead_nodes.simps) (simp add: dead_candidate_eq twin_premises_def node_simps)
  have "fuse_single_nodes ?p 0 = Inr ?p"
    by (subst fuse_single_nodes.simps) (simp add: fuse_candidate_eq can_fuse_def)
  then have "minimize_abs_proof twin_premises 0 = Inr ?p" by (simp add: minimize_abs_proof_def r)
  moreover have "twin_premises \<noteq> []" by (simp add: twin_premises_def)
  ultimately show ?thesis using v r by (simp add: check_proof_def)
qed

section \<open>The driver\<close>

text \<open>
  C11: the driver of the C++ checker, started without a proof in the checker, makes a sequence
  of calls none of which fails, answers the global trace condition of the abstract proof at
  its start node, and leaves the checker without a proof.
\<close>

theorem driver_decides_gtc:
  assumes "spot_library B S" and "abs_ok p" and "abs_closed p" and "abs_in_range p" and "im_mem init p"
    and "log_ok ceil_log (length p)"
  shows "mc_check_proof B S ceil_log init p idle = Inr (gtc (abs_graph p) init, idle)"
  by (rule spot_library.mc_check_proof_ok [OF assms])

theorem driver_decides_gtc_witness:
  "mc_check_proof robdd_pkg exact_spot (\<lambda>_. 1) 0 two_loops idle = Inr (False, idle)"
proof -
  have "length two_loops \<le> 2" by (simp add: two_loops_def)
  from driver_decides_gtc [OF exact.spot_library_axioms sample_abs_ok(2) sample_abs_closed(2) sample_abs_range(2)
      loop_members(2) sample_log [OF this]] sample_gtcs(3) show ?thesis by simp
qed



text \<open>
  C29: the cache is keyed by the proof alone, not by the start node: after a check of a proof
  at one start node, the check of the same proof at another start node returns the first
  answer. Here node \<open>1\<close> satisfies the global trace condition, node \<open>0\<close> does not, and the
  check accepts the proof at node \<open>0\<close>.
\<close>

theorem cache_ignores_start_node:
  assumes "spot_library B S" and "same two_loops two_loops"
  shows "\<exists>c. check_proof B S (\<lambda>_. 1) same 1 two_loops ([], idle) = Inr (True, c, idle) \<and>
    check_proof B S (\<lambda>_. 1) same 0 two_loops (c, idle) = Inr (True, c, idle) \<and>
    \<not> gtc (abs_graph two_loops) 0"
proof -
  have ne: "two_loops \<noteq> []" and len: "length two_loops \<le> 2" by (simp_all add: two_loops_def)
  have v: "valid two_loops 0 = Inr True" "valid two_loops 1 = Inr True"
    using loop_members(2,3) sample_abs_closed(2) by (simp_all add: valid_iff [OF sample_abs_ok(2)])
  have "mc_check_proof B S (\<lambda>_. 1) 1 two_loops idle = Inr (True, idle)"
    using spot_library.mc_check_proof_ok [OF assms(1) sample_abs_ok(2) sample_abs_closed(2) sample_abs_range(2)
        loop_members(3) sample_log [OF len]] sample_gtcs(2) by simp
  then have "check_proof B S (\<lambda>_. 1) same 1 two_loops ([], idle) = Inr (True, [(two_loops, True)], idle)"
    using ne v by (simp add: check_proof_def two_loops_minimal cache_find_def)
  moreover have "check_proof B S (\<lambda>_. 1) same 0 two_loops ([(two_loops, True)], idle) =
      Inr (True, [(two_loops, True)], idle)"
    using ne v assms(2) by (simp add: check_proof_def two_loops_minimal cache_find_def)
  ultimately show ?thesis using sample_gtcs(3) by blast
qed

theorem cache_ignores_start_node_witness:
  "\<exists>c. check_proof robdd_pkg exact_spot (\<lambda>_. 1) (=) 0 two_loops (c, idle) = Inr (True, c, idle)"
  using cache_ignores_start_node [OF exact.spot_library_axioms, of "(=)"] by blast

end
