(* ===== verification/Prover_Node.thy ===== *)
theory Prover_Node
  imports Driver
begin

text \<open>
  The data of the prover's proofs: sets of tag pairs (tagpairs.ml) and proof nodes
  (proofnode.ml). A node is open, an axiom, an inference with its premises, or a back-link.
\<close>

section \<open>Sequents\<close>

text \<open>
  The prover is a functor over a module of sequents (sequent.mli). What the functor uses of
  that module is a record, an argument of the definitions that call it.
\<close>

record 'q sequent_sig =
  seq_equal :: "'q \<Rightarrow> 'q \<Rightarrow> bool"
  seq_equal_upto_tags :: "'q \<Rightarrow> 'q \<Rightarrow> bool"
  seq_tags :: "'q \<Rightarrow> var set"

text \<open>
  The documented behaviour that proofs about the functor assume: \<^verbatim>\<open>equal\<close> is a syntactic
  equality, so it is reflexive and equal sequents have the same tags and are compared alike
  up to tags. Tag sets are finite, as every OCaml set is.
\<close>

definition sequent_laws :: "'q sequent_sig \<Rightarrow> bool" where
  "sequent_laws Q \<longleftrightarrow>
     (\<forall>s. seq_equal Q s s) \<and> (\<forall>s. finite (seq_tags Q s)) \<and>
     (\<forall>s t. seq_equal Q s t \<longrightarrow> seq_tags Q s = seq_tags Q t \<and>
        (\<forall>u. seq_equal_upto_tags Q u s = seq_equal_upto_tags Q u t \<and>
             seq_equal_upto_tags Q s u = seq_equal_upto_tags Q t u))"

section \<open>Tag pairs\<close>

type_synonym tagpairs = "(var \<times> var) set"

definition tp_mk :: "var set \<Rightarrow> tagpairs" where
  "tp_mk s = set_fold (\<lambda>i p. insert (i, i) p) s {}"

definition tp_compose :: "tagpairs \<Rightarrow> tagpairs \<Rightarrow> tagpairs" where
  "tp_compose t1 t2 =
     set_fold (\<lambda>(x, y) a. set_fold (\<lambda>(w, z) b. if y = w then insert (x, z) b else b) t2 a) t1 {}"

definition tp_projectl :: "tagpairs \<Rightarrow> var set" where
  "tp_projectl tp = map_to insert {} fst tp"

definition tp_projectr :: "tagpairs \<Rightarrow> var set" where
  "tp_projectr tp = map_to insert {} snd tp"

definition tp_reflect :: "tagpairs \<Rightarrow> tagpairs" where
  "tp_reflect tps = map_to insert {} (\<lambda>(x, y). (y, x)) tps"

definition tp_flatten :: "tagpairs \<Rightarrow> var set" where
  "tp_flatten tps = set_fold (\<lambda>(t, t') ts. insert t' (insert t ts)) tps {}"

definition tp_strip :: "tagpairs \<Rightarrow> tagpairs" where
  "tp_strip tps = Set.filter (\<lambda>(t, t'). t \<noteq> t') tps"

section \<open>Nodes\<close>

datatype 'q node =
    OpenNode 'q string
  | AxiomNode 'q string
  | InfNode 'q string "int list" "(tagpairs \<times> tagpairs) list"
  | BackNode 'q string int tagpairs

fun node_get_seq :: "'q node \<Rightarrow> 'q" where
  "node_get_seq (OpenNode s d) = s"
| "node_get_seq (AxiomNode s d) = s"
| "node_get_seq (InfNode s d succs tps2) = s"
| "node_get_seq (BackNode s d succ tps) = s"

fun get_succs :: "'q node \<Rightarrow> int list" where
  "get_succs (AxiomNode _ _) = []"
| "get_succs (OpenNode _ _) = []"
| "get_succs (BackNode _ _ s _) = [s]"
| "get_succs (InfNode _ _ succs _) = succs"

fun node_dest :: "'q node \<Rightarrow> 'q \<times> string" where
  "node_dest (OpenNode s d) = (s, d)"
| "node_dest (AxiomNode s d) = (s, d)"
| "node_dest (InfNode s d _ _) = (s, d)"
| "node_dest (BackNode s d _ _) = (s, d)"

fun dest_backlink :: "'q node \<Rightarrow> ('q \<times> string \<times> int \<times> tagpairs) result" where
  "dest_backlink (BackNode s d succ tps) = Inr (s, d, succ, tps)"
| "dest_backlink _ = Inl (Invalid_argument ''dest_backlink'')"

fun dest_inf :: "'q node \<Rightarrow> ('q \<times> string \<times> int list \<times> (tagpairs \<times> tagpairs) list) result" where
  "dest_inf (InfNode s d succs tps2) = Inr (s, d, succs, tps2)"
| "dest_inf _ = Inl (Invalid_argument ''dest_inf'')"

fun is_open :: "'q node \<Rightarrow> bool" where
  "is_open (OpenNode _ _) = True"
| "is_open _ = False"

fun is_backlink :: "'q node \<Rightarrow> bool" where
  "is_backlink (BackNode _ _ _ _) = True"
| "is_backlink _ = False"

fun is_axiom :: "'q node \<Rightarrow> bool" where
  "is_axiom (AxiomNode _ _) = True"
| "is_axiom _ = False"

fun is_inf :: "'q node \<Rightarrow> bool" where
  "is_inf (InfNode _ _ _ _) = True"
| "is_inf _ = False"

definition mk_open :: "'q \<Rightarrow> 'q node" where
  "mk_open s = OpenNode s ''(Open)''"

definition node_mk_axiom :: "'q \<Rightarrow> string \<Rightarrow> 'q node" where
  "node_mk_axiom s d = AxiomNode s d"

definition mk_inf :: "'q \<Rightarrow> string \<Rightarrow> int list \<Rightarrow> (tagpairs \<times> tagpairs) list \<Rightarrow> 'q node" where
  "mk_inf s d succs tps2 = InfNode s d succs tps2"

definition mk_backlink :: "'q \<Rightarrow> string \<Rightarrow> int \<Rightarrow> tagpairs \<Rightarrow> 'q node" where
  "mk_backlink s d succ tps = BackNode s d succ tps"

fun to_abstract_node :: "'q sequent_sig \<Rightarrow> 'q node \<Rightarrow> abstract_node result" where
  "to_abstract_node Q (OpenNode s _) = mk_abs_node (seq_tags Q s) [] []"
| "to_abstract_node Q (AxiomNode s _) = mk_abs_node (seq_tags Q s) [] []"
| "to_abstract_node Q (InfNode s _ succs tps2) = mk_abs_node (seq_tags Q s) succs tps2"
| "to_abstract_node Q (BackNode s _ succ tps) = mk_abs_node (seq_tags Q s) [succ] [(tps, {})]"

lemmas node_mk_defs = mk_open_def node_mk_axiom_def mk_inf_def mk_backlink_def

section \<open>What a node means\<close>

text \<open>The premises of a node with their tag pairs.\<close>

fun node_premises :: "'q node \<Rightarrow> (int \<times> tagpairs \<times> tagpairs) list" where
  "node_premises (InfNode _ _ succs tps2) = zip succs tps2"
| "node_premises (BackNode _ _ succ tps) = [(succ, tps, {})]"
| "node_premises _ = []"

definition abs_node :: "'q sequent_sig \<Rightarrow> 'q node \<Rightarrow> abstract_node" where
  "abs_node Q n = (to_int ` seq_tags Q (node_get_seq n), map (\<lambda>(j, tv, tp). (j, ints tv, ints tp)) (node_premises n))"

text \<open>The shape every node of a proof has, and finiteness of its tag pairs.\<close>

fun node_shape :: "'q node \<Rightarrow> bool" where
  "node_shape (InfNode _ _ succs tps2) \<longleftrightarrow> length succs = length tps2 \<and> distinct succs"
| "node_shape _ \<longleftrightarrow> True"

definition node_finite :: "'q node \<Rightarrow> bool" where
  "node_finite n \<longleftrightarrow> (\<forall>(j, tv, tp) \<in> set (node_premises n). finite tv \<and> finite tp)"

lemma sequent_lawsD:
  assumes "sequent_laws Q"
  shows "seq_equal Q s s" "finite (seq_tags Q s)"
    "seq_equal Q s t \<Longrightarrow> seq_tags Q s = seq_tags Q t"
    "seq_equal Q s t \<Longrightarrow> seq_equal_upto_tags Q u s = seq_equal_upto_tags Q u t"
    "seq_equal Q s t \<Longrightarrow> seq_equal_upto_tags Q s u = seq_equal_upto_tags Q t u"
  using assms unfolding sequent_laws_def by blast+

lemma node_premises_succs: "node_shape n \<Longrightarrow> map fst (node_premises n) = get_succs n"
  by (cases n) simp_all

lemma is_open_premises: "is_open n \<Longrightarrow> node_premises n = []"
  by (cases n) simp_all

lemma to_abstract_node_eq:
  assumes "finite (seq_tags Q (node_get_seq n))" and "node_shape n" and "node_finite n"
  shows "to_abstract_node Q n = Inr (abs_node Q n)"
proof -
  have "mk_abs_node T succs tps2 =
      Inr (to_int ` T, map (\<lambda>(j, tv, tp). (j, ints tv, ints tp)) (zip succs tps2))"
    if T: "finite T" "length succs = length tps2" and fin: "\<forall>(j, tv, tp) \<in> set (zip succs tps2). finite tv \<and> finite tp"
    for T succs tps2
  proof -
    let ?f = "map_to insert {} (\<lambda>(t, u). (to_int t, to_int u))"
    have eq: "map (\<lambda>(j, tv, tp). (j, ?f tv, ?f tp)) (zip succs tps2) =
        map (\<lambda>(j, tv, tp). (j, ints tv, ints tp)) (zip succs tps2)"
      by (rule map_cong [OF refl]) (use fin in \<open>auto simp only: ints_map_to prod.case\<close>)
    show ?thesis
      by (simp only: mk_abs_node_def Let_def map2E_zip [OF T(2)] to_ints_def map_to_image [OF T(1)] bindE_simps eq)
  qed
  with assms show ?thesis by (cases n) (auto simp: abs_node_def node_finite_def)
qed

lemma tp_compose_relcomp: "finite t1 \<Longrightarrow> finite t2 \<Longrightarrow> tp_compose t1 t2 = t1 O t2"
  unfolding tp_compose_def by (rule fold_pairs_relcomp)

lemma tp_mk_Id: "finite s \<Longrightarrow> tp_mk s = Id_on s"
  unfolding tp_mk_def by (subst set_fold_collect [where g = "\<lambda>i. {(i, i)}"]) auto

end
