(* ===== verification/Prover_Proof.thy ===== *)
theory Prover_Proof
  imports Prover_Node
begin

text \<open>
  The proofs that the prover builds (proof.ml): a map from node numbers to nodes with the
  number of their parent. The theory has the constructors and accessors, the invariants that
  the source documents for the type, and that every constructor keeps them.
\<close>

section \<open>Definitions\<close>

type_synonym 'q proof_t = "(int \<times> 'q node) int_map"

definition prf_get :: "int \<Rightarrow> 'q proof_t \<Rightarrow> (int \<times> 'q node) result" where
  "prf_get idx prf = im_find idx prf"

definition prf_find :: "int \<Rightarrow> 'q proof_t \<Rightarrow> 'q node result" where
  "prf_find idx prf = bindE (prf_get idx prf) (\<lambda>x. Inr (snd x))"

definition prf_get_seq :: "int \<Rightarrow> 'q proof_t \<Rightarrow> 'q result" where
  "prf_get_seq idx prf = bindE (prf_find idx prf) (\<lambda>n. Inr (node_get_seq n))"

text \<open>\<^verbatim>\<open>P.max_binding\<close> is the last binding.\<close>

definition fresh_idx :: "'q proof_t \<Rightarrow> int result" where
  "fresh_idx prf = (case prf of [] \<Rightarrow> Inl Not_found | _ # _ \<Rightarrow> Inr (1 + fst (last prf)))"

text \<open>\<^verbatim>\<open>Blist.range\<close>.\<close>

definition range_from :: "int \<Rightarrow> 'a list \<Rightarrow> int list" where
  "range_from n xs = mapi_from 0 (\<lambda>m _. int m + n) xs"

definition fresh_idxs :: "'a list \<Rightarrow> 'q proof_t \<Rightarrow> int list result" where
  "fresh_idxs xs prf = bindE (fresh_idx prf) (\<lambda>n. Inr (range_from n xs))"

definition prf_to_list :: "'q proof_t \<Rightarrow> (int \<times> 'q node) list" where
  "prf_to_list m = map (\<lambda>(i, (_, n)). (i, n)) m"

definition prf_size :: "'q proof_t \<Rightarrow> nat" where
  "prf_size prf = length prf"

definition num_backlinks :: "'q proof_t \<Rightarrow> nat" where
  "num_backlinks prf = length (filter (\<lambda>(_, n). is_backlink n) (prf_to_list prf))"

definition is_closed :: "'q proof_t \<Rightarrow> bool" where
  "is_closed prf \<longleftrightarrow> list_all (\<lambda>(_, (_, n)). \<not> is_open n) prf"

text \<open>The soundness check, with the state of the driver's cache and of the C++ checker.\<close>

definition prf_check ::
  "'q sequent_sig \<Rightarrow> 'b bdd_pkg \<Rightarrow> ('b, 'g) spot_pkg \<Rightarrow> (nat \<Rightarrow> int) \<Rightarrow> (abs_proof \<Rightarrow> abs_proof \<Rightarrow> bool) \<Rightarrow>
   'q proof_t \<Rightarrow> cache \<times> 'b checker \<Rightarrow> (bool \<times> cache \<times> 'b checker) result" where
  "prf_check Q B S ceil_log same p s =
     bindE (mapE (\<lambda>(i, (_, n)). bindE (to_abstract_node Q n) (\<lambda>a. Inr (i, a))) p)
       (\<lambda>aprf. check_proof B S ceil_log same 0 aprf s)"

definition prf_mk :: "'q \<Rightarrow> 'q proof_t" where
  "prf_mk seq = im_add 0 (0, mk_open seq) []"

definition prf_replace :: "int \<Rightarrow> 'q node \<Rightarrow> 'q proof_t \<Rightarrow> 'q proof_t result" where
  "prf_replace idx n prf = bindE (prf_get idx prf) (\<lambda>x. Inr (im_add idx (fst x, n) prf))"

definition ensure_add :: "'q sequent_sig \<Rightarrow> int \<Rightarrow> 'q node \<Rightarrow> 'q proof_t \<Rightarrow> unit result" where
  "ensure_add Q idx n prf =
     bindE (prf_find idx prf) (\<lambda>n'.
       asserting ''ensure_add'' (is_open n' \<and> seq_equal Q (node_get_seq n) (node_get_seq n')) (Inr ()))"

definition add_axiom :: "'q sequent_sig \<Rightarrow> int \<Rightarrow> string \<Rightarrow> 'q proof_t \<Rightarrow> 'q proof_t result" where
  "add_axiom Q idx descr prf =
     bindE (prf_get_seq idx prf) (\<lambda>seq. let n = node_mk_axiom seq descr in
     bindE (ensure_add Q idx n prf) (\<lambda>_. prf_replace idx n prf))"

definition add_backlink :: "'q sequent_sig \<Rightarrow> int \<Rightarrow> string \<Rightarrow> int \<Rightarrow> tagpairs \<Rightarrow> 'q proof_t \<Rightarrow> 'q proof_t result" where
  "add_backlink Q idx descr target vtts prf =
     bindE (prf_get_seq idx prf) (\<lambda>seq. let n = mk_backlink seq descr target vtts in
     bindE (ensure_add Q idx n prf) (\<lambda>_.
     bindE (prf_get_seq target prf) (\<lambda>tseq.
     asserting ''Seq.equal_upto_tags seq (get_seq target prf)'' (seq_equal_upto_tags Q seq tseq)
       (prf_replace idx n prf))))"

definition add_inf ::
  "'q sequent_sig \<Rightarrow> int \<Rightarrow> string \<Rightarrow> ('q \<times> tagpairs \<times> tagpairs) list \<Rightarrow> 'q proof_t \<Rightarrow> (int list \<times> 'q proof_t) result" where
  "add_inf Q idx descr subgoals prf =
     bindE (fresh_idx prf) (\<lambda>fresh. let subidxs = range_from fresh subgoals in
     bindE (map2E (\<lambda>i (seq, _, _). (i, mk_open seq)) subidxs subgoals) (\<lambda>subnodes.
     let tagpairs2 = map (\<lambda>(_, vtts, ptts). (vtts, ptts)) subgoals in
     bindE (prf_get_seq idx prf) (\<lambda>seq. let n = mk_inf seq descr subidxs tagpairs2 in
     bindE (ensure_add Q idx n prf) (\<lambda>_.
     bindE (prf_replace idx n prf) (\<lambda>prf1.
     let prf' = foldl (\<lambda>prf' (ci, cn). im_add ci (idx, cn) prf') prf1 subnodes
     in Inr (subidxs, prf'))))))"

subsection \<open>Copying proofs\<close>

text \<open>
  \<^verbatim>\<open>List.map2\<close> with a function that may raise, \<^verbatim>\<open>List.fold_left2\<close> and \<^verbatim>\<open>List.fold_right2\<close>.
\<close>

fun map2R :: "('a \<Rightarrow> 'b \<Rightarrow> 'c result) \<Rightarrow> 'a list \<Rightarrow> 'b list \<Rightarrow> 'c list result" where
  "map2R f [] [] = Inr []"
| "map2R f (x # xs) (y # ys) = bindE (f x y) (\<lambda>z. bindE (map2R f xs ys) (\<lambda>zs. Inr (z # zs)))"
| "map2R f _ _ = Inl (Invalid_argument ''List.map2'')"

fun fold_left2E :: "('c \<Rightarrow> 'a \<Rightarrow> 'b \<Rightarrow> 'c result) \<Rightarrow> 'c \<Rightarrow> 'a list \<Rightarrow> 'b list \<Rightarrow> 'c result" where
  "fold_left2E f c [] [] = Inr c"
| "fold_left2E f c (x # xs) (y # ys) = bindE (f c x y) (\<lambda>d. fold_left2E f d xs ys)"
| "fold_left2E f c _ _ = Inl (Invalid_argument ''List.fold_left2'')"

fun fold_right2E :: "('a \<Rightarrow> 'b \<Rightarrow> 'c \<Rightarrow> 'c) \<Rightarrow> 'a list \<Rightarrow> 'b list \<Rightarrow> 'c \<Rightarrow> 'c result" where
  "fold_right2E f [] [] c = Inr c"
| "fold_right2E f (x # xs) (y # ys) c = bindE (fold_right2E f xs ys c) (\<lambda>d. Inr (f x y d))"
| "fold_right2E f _ _ c = Inl (Invalid_argument ''List.fold_right2'')"

text \<open>
  The inner function \<^verbatim>\<open>_add\<close> of \<^verbatim>\<open>add_subprf\<close>: it copies the tree below a node and collects
  the back-links. The recursion follows the premises, so it is as deep as the tree; the
  first argument bounds the depth, and running out of it means that it would not end.
\<close>

type_synonym 'q copy_state = "'q proof_t \<times> int int_map \<times> (int \<times> int) list"

primrec add_rec :: "nat \<Rightarrow> 'q sequent_sig \<Rightarrow> 'q proof_t \<Rightarrow> 'q copy_state \<Rightarrow> int \<Rightarrow> int \<Rightarrow> 'q copy_state result" where
  "add_rec 0 Q prf acc idx idx' = Inl Diverges"
| "add_rec (Suc k) Q prf acc idx idx' = (case acc of (prf', node_map, bls) \<Rightarrow>
     bindE (prf_find idx prf) (\<lambda>n.
     if is_open n then Inr (prf', node_map, bls)
     else if is_axiom n then
       bindE (add_axiom Q idx' (snd (node_dest n)) prf') (\<lambda>prf'. Inr (prf', node_map, bls))
     else if is_backlink n then Inr (prf', node_map, (idx, idx') # bls)
     else if is_inf n then
       bindE (dest_inf n) (\<lambda>(_, descr, premises, tagpairs2).
       bindE (map2R (\<lambda>pidx (vts, pts). bindE (prf_find pidx prf) (\<lambda>pn. Inr (node_get_seq pn, vts, pts)))
         premises tagpairs2) (\<lambda>goals.
       bindE (add_inf Q idx' descr goals prf') (\<lambda>(premises', prf').
       bindE (fold_right2E im_add premises premises' node_map) (\<lambda>node_map.
       fold_left2E (add_rec k Q prf) (prf', node_map, bls) premises premises'))))
     else Inl (Invalid_argument ''Unrecognised node type!'')))"

definition fix_bl :: "'q sequent_sig \<Rightarrow> 'q proof_t \<Rightarrow> int int_map \<Rightarrow> int \<times> int \<Rightarrow> 'q proof_t \<Rightarrow> 'q proof_t result" where
  "fix_bl Q prf node_map = (\<lambda>(idx, idx') prf'.
     bindE (prf_find idx prf) (\<lambda>n.
     bindE (dest_backlink n) (\<lambda>(_, descr, target, vtts).
     bindE (im_find target node_map) (\<lambda>target'. add_backlink Q idx' descr target' vtts prf'))))"

definition add_subprf :: "'q sequent_sig \<Rightarrow> 'q proof_t \<Rightarrow> int \<Rightarrow> 'q proof_t \<Rightarrow> 'q proof_t result" where
  "add_subprf Q prf idx prf' =
     bindE (prf_find idx prf') (\<lambda>n. asserting ''Node.is_open (find idx prf')'' (is_open n)
     (bindE (prf_find 0 prf) (\<lambda>r. asserting ''Seq.equal'' (seq_equal Q (node_get_seq r) (node_get_seq n))
     (bindE (add_rec (length prf) Q prf (prf', im_add 0 idx [], []) 0 idx) (\<lambda>(prf', node_map, bls).
     foldE (fix_bl Q prf node_map) bls prf')))))"

text \<open>
  The inner function \<^verbatim>\<open>_extract\<close> of \<^verbatim>\<open>extract_subproof\<close>. Every call but the last on a branch
  enters a new node into the map.
\<close>

primrec extract_rec ::
  "nat \<Rightarrow> 'q sequent_sig \<Rightarrow> 'q proof_t \<Rightarrow> 'q proof_t \<times> int int_map \<Rightarrow> int \<Rightarrow> int \<Rightarrow> ('q proof_t \<times> int int_map) result" where
  "extract_rec 0 Q prf acc idx idx' = Inl Diverges"
| "extract_rec (Suc k) Q prf acc idx idx' = (case acc of (prf', node_map) \<Rightarrow>
     if im_mem idx node_map then
       bindE (im_find idx node_map) (\<lambda>target.
       bindE (prf_get_seq idx prf) (\<lambda>seq.
       bindE (add_backlink Q idx' ''Backl'' target (tp_mk (seq_tags Q seq)) prf') (\<lambda>prf'.
       Inr (prf', node_map))))
     else
       let node_map = im_add idx idx' node_map in
       bindE (prf_find idx prf) (\<lambda>n.
       if is_open n then Inr (prf', node_map)
       else if is_axiom n then
         bindE (add_axiom Q idx' (snd (node_dest n)) prf') (\<lambda>prf'. Inr (prf', node_map))
       else if is_backlink n then
         bindE (dest_backlink n) (\<lambda>(_, descr, target, vtts).
         if im_mem target node_map then
           bindE (im_find target node_map) (\<lambda>target'.
           bindE (add_backlink Q idx' descr target' vtts prf') (\<lambda>prf'. Inr (prf', node_map)))
         else extract_rec k Q prf (prf', node_map) target idx')
       else if is_inf n then
         bindE (dest_inf n) (\<lambda>(_, descr, premises, tagpairs2).
         bindE (map2R (\<lambda>pidx (vts, pts). bindE (prf_find pidx prf) (\<lambda>pn. Inr (node_get_seq pn, vts, pts)))
           premises tagpairs2) (\<lambda>goals.
         bindE (add_inf Q idx' descr goals prf') (\<lambda>(premises', prf').
         fold_left2E (extract_rec k Q prf) (prf', node_map) premises premises')))
       else Inl (Invalid_argument ''Unrecognised node type!'')))"

definition extract_subproof :: "'q sequent_sig \<Rightarrow> int \<Rightarrow> 'q proof_t \<Rightarrow> 'q proof_t result" where
  "extract_subproof Q idx prf =
     bindE (prf_get_seq idx prf) (\<lambda>seq.
     bindE (extract_rec (Suc (length prf)) Q prf (prf_mk seq, []) idx 0) (\<lambda>(prf', _). Inr prf'))"

subsection \<open>Walking the tree\<close>

text \<open>
  The first argument bounds the number of nodes on the way up or down; in a proof with the
  invariants the number of its nodes is enough.
\<close>

primrec ancestry_rec ::
  "nat \<Rightarrow> 'q proof_t \<Rightarrow> (int \<times> 'q node) list \<Rightarrow> int \<Rightarrow> int \<times> 'q node \<Rightarrow> (int \<times> 'q node) list result" where
  "ancestry_rec 0 prf acc idx x = Inl Diverges"
| "ancestry_rec (Suc k) prf acc idx x = (case x of (par_idx, n) \<Rightarrow>
     bindE (prf_get par_idx prf) (\<lambda>parent.
     let acc = (idx, n) # acc in
     if par_idx = idx then Inr acc else ancestry_rec k prf acc par_idx parent))"

definition get_ancestry :: "int \<Rightarrow> 'q proof_t \<Rightarrow> (int \<times> 'q node) list result" where
  "get_ancestry idx prf = bindE (prf_get idx prf) (ancestry_rec (length prf) prf [] idx)"

primrec closed_rec :: "nat \<Rightarrow> 'q proof_t \<Rightarrow> int \<Rightarrow> bool result" where
  "closed_rec 0 prf idx = Inl Diverges"
| "closed_rec (Suc k) prf idx =
     bindE (prf_find idx prf) (\<lambda>n.
     if is_axiom n then Inr True
     else if is_open n then Inr False
     else if is_backlink n then Inr True
     else allE (closed_rec k prf) (get_succs n))"

definition is_closed_at :: "'q proof_t \<Rightarrow> int \<Rightarrow> bool result" where
  "is_closed_at prf idx = closed_rec (length prf) prf idx"

section \<open>The invariants\<close>

text \<open>
  The invariants of the type that hold of every proof the constructors return: the proof is
  a graph (all numbers point to nodes), not empty, rooted at \<open>0\<close> and connected (every other
  node is a premise of an inference, its parent). The numbers are consecutive and grow along
  premises, so inferences form a tree. A back-link has its target's sequent up to tags, as
  the assertion of \<^verbatim>\<open>add_backlink\<close> has it.
\<close>

definition node_inv :: "'q sequent_sig \<Rightarrow> 'q proof_t \<Rightarrow> int \<Rightarrow> int \<Rightarrow> 'q node \<Rightarrow> bool" where
  "node_inv Q P i p n \<longleftrightarrow>
     (if i = 0 then p = 0
      else p < i \<and> (\<exists>x. map_of P p = Some x \<and> is_inf (snd x) \<and> i \<in> set (get_succs (snd x)))) \<and>
     node_shape n \<and>
     (\<forall>j \<in> set (get_succs n). \<exists>x. map_of P j = Some x \<and> (is_inf n \<longrightarrow> i < j \<and> fst x = i) \<and>
        (is_backlink n \<longrightarrow> seq_equal_upto_tags Q (node_get_seq n) (node_get_seq (snd x))))"

definition prf_ok :: "'q sequent_sig \<Rightarrow> 'q proof_t \<Rightarrow> bool" where
  "prf_ok Q P \<longleftrightarrow>
     im_wf P \<and> P \<noteq> [] \<and> dom (map_of P) = {0..<int (length P)} \<and>
     (\<forall>i p n. map_of P i = Some (p, n) \<longrightarrow> node_inv Q P i p n)"

text \<open>
  The documentation of the type also says that leaves are open nodes, axioms or back-links:
  no inference is without premises. This one depends on the arguments of \<^verbatim>\<open>add_inf\<close>.
\<close>

definition leaves_ok :: "'q proof_t \<Rightarrow> bool" where
  "leaves_ok P \<longleftrightarrow> (\<forall>x \<in> set P. is_inf (snd (snd x)) \<longrightarrow> get_succs (snd (snd x)) \<noteq> [])"

definition open_nodes :: "'q proof_t \<Rightarrow> int set" where
  "open_nodes P = {i. \<exists>x. map_of P i = Some x \<and> is_open (snd x)}"

section \<open>Lookups\<close>

lemma prf_find_eq: "prf_find idx P = (case map_of P idx of None \<Rightarrow> Inl Not_found | Some x \<Rightarrow> Inr (snd x))"
  by (simp add: prf_find_def prf_get_def im_find_def split: option.split)

lemma prf_get_eq: "prf_get idx P = (case map_of P idx of None \<Rightarrow> Inl Not_found | Some x \<Rightarrow> Inr x)"
  by (simp add: prf_get_def im_find_def split: option.split)

lemma prf_get_seq_eq:
  "prf_get_seq idx P = (case map_of P idx of None \<Rightarrow> Inl Not_found | Some x \<Rightarrow> Inr (node_get_seq (snd x)))"
  by (simp add: prf_get_seq_def prf_find_eq split: option.split)

lemma prf_replace_eq:
  "prf_replace idx n P = (case map_of P idx of None \<Rightarrow> Inl Not_found | Some x \<Rightarrow> Inr (im_add idx (fst x, n) P))"
  by (simp add: prf_replace_def prf_get_eq split: option.split)

lemmas prf_lookups = prf_find_eq prf_get_eq prf_get_seq_eq prf_replace_eq

lemma prf_okD:
  assumes "prf_ok Q P"
  shows "im_wf P" "P \<noteq> []" "dom (map_of P) = {0..<int (length P)}" "map_of P i = Some (p, n) \<Longrightarrow> node_inv Q P i p n"
  using assms unfolding prf_ok_def by blast+

lemma prf_ok_root: "prf_ok Q P \<Longrightarrow> \<exists>n. map_of P 0 = Some (0, n)"
proof -
  assume ok: "prf_ok Q P"
  then have "0 \<in> dom (map_of P)" using prf_okD(2,3) [OF ok] by simp
  then obtain p n where "map_of P 0 = Some (p, n)" by auto
  with prf_okD(4) [OF ok this] show ?thesis by (simp add: node_inv_def)
qed

text \<open>With consecutive numbers from \<open>0\<close>, the size is the number after the last one.\<close>

lemma im_wf_length: "im_wf m \<Longrightarrow> card (dom (map_of m)) = length m"
  by (metis distinct_card dom_map_of_conv_image_fst im_wf_distinct length_map list.set_map)

lemma im_wf_last: "im_wf m \<Longrightarrow> e \<in> set m \<Longrightarrow> fst e \<le> fst (last m)"
  by (cases m rule: rev_cases) (auto simp: im_wf_def sorted_wrt_append)

lemma fresh_idx_eq:
  assumes "prf_ok Q P"
  shows "fresh_idx P = Inr (int (length P))"
proof -
  note ok = prf_okD [OF assms]
  have "fst (last P) \<in> dom (map_of P)" using ok(2) by (simp add: dom_map_of_conv_image_fst)
  moreover have "int (length P) - 1 \<in> dom (map_of P)" using ok(2,3) by (cases P) auto
  then obtain e where "e \<in> set P" "fst e = int (length P) - 1" by (auto simp: dom_map_of_conv_image_fst)
  with im_wf_last [OF ok(1)] have "int (length P) - 1 \<le> fst (last P)" by fastforce
  ultimately have "fst (last P) = int (length P) - 1" using ok(3) by auto
  with ok(2) show ?thesis by (cases P) (simp_all add: fresh_idx_def)
qed

lemma range_from_eq: "range_from n xs = map (\<lambda>m. n + int m) [0..<length xs]"
proof -
  have "mapi_from k (\<lambda>m _. int m + n) xs = map (\<lambda>m. n + int m) [k..<k + length xs]" for k
  proof (induction xs arbitrary: k)
    case (Cons x xs)
    have "[k..<k + length (x # xs)] = k # [Suc k..<Suc k + length xs]" by (subst upt_conv_Cons) simp_all
    with Cons [of "Suc k"] show ?case by simp
  qed simp
  then show ?thesis by (simp add: range_from_def)
qed

section \<open>What the constructors do\<close>

lemma prf_mk_lookup: "map_of (prf_mk s) = [0 \<mapsto> (0, mk_open s)]"
  by (simp add: prf_mk_def im_add_lookup)

lemma prf_mk_length [simp]: "length (prf_mk s) = 1"
  by (simp add: prf_mk_def im_add_def im_mem_def)

lemma prf_mk_ok: "prf_ok Q (prf_mk s)"
proof -
  have "im_wf (prf_mk s)" by (simp add: prf_mk_def im_add_def im_mem_def im_wf_def)
  moreover have "prf_mk s \<noteq> []" using prf_mk_length [of s] by fastforce
  ultimately show ?thesis by (auto simp: prf_ok_def prf_mk_lookup node_inv_def mk_open_def)
qed

text \<open>Every constructor starts from an open node and keeps its sequent.\<close>

lemma add_axiom_eq:
  "add_axiom Q i d P = (case map_of P i of None \<Rightarrow> Inl Not_found
     | Some (p, n) \<Rightarrow> asserting ''ensure_add'' (is_open n \<and> seq_equal Q (node_get_seq n) (node_get_seq n))
         (Inr (im_add i (p, AxiomNode (node_get_seq n) d) P)))"
  by (simp add: add_axiom_def ensure_add_def prf_lookups node_mk_defs asserting_def Let_def split: option.split)

lemma add_backlink_eq:
  "add_backlink Q i d t vtts P = (case map_of P i of None \<Rightarrow> Inl Not_found
     | Some (p, n) \<Rightarrow> asserting ''ensure_add'' (is_open n \<and> seq_equal Q (node_get_seq n) (node_get_seq n))
         (case map_of P t of None \<Rightarrow> Inl Not_found
          | Some (_, m) \<Rightarrow> asserting ''Seq.equal_upto_tags seq (get_seq target prf)''
              (seq_equal_upto_tags Q (node_get_seq n) (node_get_seq m))
              (Inr (im_add i (p, BackNode (node_get_seq n) d t vtts) P))))"
  by (simp add: add_backlink_def ensure_add_def prf_lookups node_mk_defs asserting_def Let_def split: option.split)

text \<open>The nodes after an inference with the given premises at node \<open>i\<close>, whose parent is \<open>p\<close>.\<close>

definition inf_idxs :: "'q proof_t \<Rightarrow> 'a list \<Rightarrow> int list" where
  "inf_idxs P goals = map (\<lambda>m. int (length P) + int m) [0..<length goals]"

definition inf_node :: "'q proof_t \<Rightarrow> 'q \<Rightarrow> string \<Rightarrow> ('q \<times> tagpairs \<times> tagpairs) list \<Rightarrow> 'q node" where
  "inf_node P s d goals = InfNode s d (inf_idxs P goals) (map snd goals)"

lemma inf_idxs_simps [simp]:
  "length (inf_idxs P goals) = length goals" "distinct (inf_idxs P goals)"
  "set (inf_idxs P goals) = {int (length P)..<int (length P + length goals)}"
proof -
  show "set (inf_idxs P goals) = {int (length P)..<int (length P + length goals)}"
  proof (intro set_eqI iffI)
    fix j assume "j \<in> {int (length P)..<int (length P + length goals)}"
    then have "j = int (length P) + int (nat (j - int (length P)))" "nat (j - int (length P)) < length goals" by auto
    then show "j \<in> set (inf_idxs P goals)" unfolding inf_idxs_def by force
  qed (auto simp: inf_idxs_def)
qed (auto simp: inf_idxs_def distinct_map inj_on_def)

lemma map_of_rev: "distinct (map fst l) \<Longrightarrow> map_of (rev l) = map_of l"
  by (rule map_of_inject_set [THEN iffD2]) (simp_all add: rev_map [symmetric])

lemma map_of_inf_idxs:
  "map_of (map (\<lambda>(i, g). (i, f g)) (zip (inf_idxs P goals) goals)) j =
     (if j \<in> set (inf_idxs P goals) then Some (f (goals ! nat (j - int (length P)))) else None)"
proof (cases "j \<in> set (inf_idxs P goals)")
  case True
  let ?l = "map (\<lambda>(i, g). (i, f g)) (zip (inf_idxs P goals) goals)"
  have keys: "map fst ?l = inf_idxs P goals" by (simp add: comp_def case_prod_unfold)
  let ?m = "nat (j - int (length P))"
  from True have m: "?m < length goals" "inf_idxs P goals ! ?m = j" by (auto simp: inf_idxs_def)
  then have "(j, f (goals ! ?m)) \<in> set ?l"
    by (force simp: in_set_zip in_set_conv_nth)
  moreover have "distinct (map fst ?l)" unfolding keys by simp
  ultimately show ?thesis using True by simp
next
  case False
  then show ?thesis by (auto simp: map_of_eq_None_iff dest!: set_zip_leftD)
qed

text \<open>
  \<open>expands P i n ss P'\<close>: the open node \<open>i\<close> of \<open>P\<close> becomes \<open>n\<close>, with the same sequent and parent,
  and new open nodes for the sequents \<open>ss\<close> are its premises.
\<close>

definition expands :: "'q proof_t \<Rightarrow> int \<Rightarrow> 'q node \<Rightarrow> 'q list \<Rightarrow> 'q proof_t \<Rightarrow> bool" where
  "expands P i n ss P' \<longleftrightarrow>
     (\<exists>p m. map_of P i = Some (p, m) \<and> is_open m \<and> node_get_seq n = node_get_seq m \<and>
       map_of P' = (\<lambda>j. if j = i then Some (p, n)
         else if j \<in> set (inf_idxs P ss) then Some (i, mk_open (ss ! nat (j - int (length P))))
         else map_of P j)) \<and>
     \<not> is_open n \<and> im_wf P'"

lemma add_axiom_expands:
  assumes "add_axiom Q i d P = Inr P'" and "im_wf P"
  shows "\<exists>s. expands P i (AxiomNode s d) [] P'"
  using assms unfolding add_axiom_eq expands_def
  by (auto simp: asserting_eq_Inr im_add_wf im_add_lookup fun_eq_iff split: option.splits)

lemma add_backlink_expands:
  assumes "add_backlink Q i d t vtts P = Inr P'" and "im_wf P"
  shows "\<exists>s x. expands P i (BackNode s d t vtts) [] P' \<and> map_of P t = Some x \<and> seq_equal_upto_tags Q s (node_get_seq (snd x))"
  using assms unfolding add_backlink_eq expands_def
  by (auto simp: asserting_eq_Inr im_add_wf im_add_lookup fun_eq_iff split: option.splits)

text \<open>An inference adds its premises behind the last node.\<close>

lemma add_inf_eq:
  assumes "prf_ok Q P"
  shows "add_inf Q i d goals P = (case map_of P i of None \<Rightarrow> Inl Not_found
     | Some (p, n) \<Rightarrow> asserting ''ensure_add'' (is_open n \<and> seq_equal Q (node_get_seq n) (node_get_seq n))
         (Inr (inf_idxs P goals,
           foldl (\<lambda>m (k, v). im_add k v m) (im_add i (p, inf_node P (node_get_seq n) d goals) P)
             (map (\<lambda>(j, g). (j, (i, mk_open (fst g)))) (zip (inf_idxs P goals) goals)))))"
proof -
  have r: "range_from (int (length P)) goals = inf_idxs P goals" by (simp add: range_from_eq inf_idxs_def)
  have z: "map2E (\<lambda>i (seq, _, _). (i, mk_open seq)) (inf_idxs P goals) goals =
      Inr (map (\<lambda>(j, g). (j, mk_open (fst g))) (zip (inf_idxs P goals) goals))"
    by (simp add: map2E_zip case_prod_unfold)
  have f: "foldl (\<lambda>m (k, v). im_add k v m) m (map (\<lambda>(j, g). (j, (i, mk_open (fst g)))) xs) =
      foldl (\<lambda>prf' (ci, cn). im_add ci (i, cn) prf') m (map (\<lambda>(j, g). (j, mk_open (fst g))) xs)" for m and xs :: "(int \<times> 'a \<times> 'c) list"
    by (induction xs arbitrary: m) auto
  show ?thesis
    unfolding add_inf_def fresh_idx_eq [OF assms] bindE_simps r Let_def z f
    by (simp add: ensure_add_def prf_lookups mk_inf_def inf_node_def asserting_def case_prod_unfold split: option.split)
qed

lemma add_inf_open:
  assumes "prf_ok Q P" and "add_inf Q i d goals P = Inr r"
  shows "\<exists>p n. map_of P i = Some (p, n) \<and> is_open n \<and> seq_equal Q (node_get_seq n) (node_get_seq n)"
  using assms(2) unfolding add_inf_eq [OF assms(1)] by (cases "map_of P i") (auto simp: asserting_eq_Inr)

lemma add_inf_expands:
  assumes ok: "prf_ok Q P" and add: "add_inf Q i d goals P = Inr (idxs, P')"
  shows "\<exists>s. expands P i (inf_node P s d goals) (map fst goals) P'" "idxs = inf_idxs P goals"
proof -
  obtain p n where n: "map_of P i = Some (p, n)" "is_open n" and e: "seq_equal Q (node_get_seq n) (node_get_seq n)"
    using add_inf_open [OF assms] by blast
  let ?m = "im_add i (p, inf_node P (node_get_seq n) d goals) P"
    and ?l = "map (\<lambda>(j, g). (j, (i, mk_open (fst g)))) (zip (inf_idxs P goals) goals)"
  have "asserting w b (Inr a) = Inr c \<Longrightarrow> a = c" for w b and a c :: "int list \<times> 'a proof_t"
    by (simp add: asserting_eq_Inr)
  note r = this [OF add [unfolded add_inf_eq [OF ok] n option.case prod.case]]
  have P': "P' = foldl (\<lambda>m (k, v). im_add k v m) ?m ?l" and idxs: "idxs = inf_idxs P goals"
    by (rule sym [OF arg_cong [where f = snd, OF r, unfolded snd_conv]],
        rule sym [OF arg_cong [where f = fst, OF r, unfolded fst_conv]])
  have wf: "im_wf ?m" using prf_okD(1) [OF ok] by (rule im_add_wf)
  have "map fst ?l = inf_idxs P goals" by (simp add: comp_def case_prod_unfold)
  then have d: "distinct (map fst ?l)" by (simp only: inf_idxs_simps)
  have "i \<in> dom (map_of P)" using n(1) by auto
  then have "i < int (length P)" using prf_okD(3) [OF ok] by auto
  then have i: "i \<notin> set (inf_idxs P goals)" by auto
  have "im_wf P'" "map_of P' = map_of ?m ++ map_of ?l"
    using int_map_dict.wf_lookup_of_list [OF wf, of ?l] unfolding P' map_of_rev [OF d] by blast+
  moreover have "inf_idxs P (map fst goals) = inf_idxs P goals" by (simp add: inf_idxs_def)
  ultimately have "expands P i (inf_node P (node_get_seq n) d goals) (map fst goals) P'"
    unfolding expands_def using n i
    by (auto simp: map_add_def map_of_inf_idxs im_add_lookup inf_node_def fun_eq_iff split: if_splits)
  then show "\<exists>s. expands P i (inf_node P s d goals) (map fst goals) P'" by blast
  show "idxs = inf_idxs P goals" by (rule idxs)
qed

end
