(* ===== verification/Prover_Inv.thy ===== *)
theory Prover_Inv
  imports Prover_Proof
begin

text \<open>
  Every constructor of the prover's proofs keeps the invariants \<open>prf_ok\<close>, also where it copies
  a proof into another one, and all but an inference without premises keep \<open>leaves_ok\<close>; the
  walks over a proof with the invariants end and return what they should.
\<close>

section \<open>One expansion\<close>

lemma expandsD:
  assumes "expands P i n ss P'"
  obtains p m where "map_of P i = Some (p, m)" "is_open m" "node_get_seq n = node_get_seq m" "map_of P' i = Some (p, n)"
    "\<And>j. j \<noteq> i \<Longrightarrow> j \<in> set (inf_idxs P ss) \<Longrightarrow> map_of P' j = Some (i, mk_open (ss ! nat (j - int (length P))))"
    "\<And>j. j \<noteq> i \<Longrightarrow> j \<notin> set (inf_idxs P ss) \<Longrightarrow> map_of P' j = map_of P j"
    "\<not> is_open n" "im_wf P'"
  using assms unfolding expands_def by (auto simp del: inf_idxs_simps)

text \<open>What the new node has to satisfy.\<close>

definition fits_node :: "'q sequent_sig \<Rightarrow> 'q proof_t \<Rightarrow> 'q node \<Rightarrow> 'q list \<Rightarrow> bool" where
  "fits_node Q P n ss \<longleftrightarrow> node_shape n \<and>
     (if is_backlink n
      then ss = [] \<and> (\<forall>t \<in> set (get_succs n). \<exists>x. map_of P t = Some x \<and> seq_equal_upto_tags Q (node_get_seq n) (node_get_seq (snd x)))
      else get_succs n = inf_idxs P ss \<and> (ss \<noteq> [] \<longrightarrow> is_inf n))"

lemma expands_dom:
  assumes ok: "prf_ok Q P" and e: "expands P i n ss P'"
  shows "dom (map_of P') = {0..<int (length P + length ss)}" "length P' = length P + length ss"
    "i \<notin> set (inf_idxs P ss)"
proof -
  obtain p m where m: "map_of P i = Some (p, m)" "map_of P' i = Some (p, n)"
    "\<And>j. j \<noteq> i \<Longrightarrow> j \<in> set (inf_idxs P ss) \<Longrightarrow> map_of P' j = Some (i, mk_open (ss ! nat (j - int (length P))))"
    "\<And>j. j \<noteq> i \<Longrightarrow> j \<notin> set (inf_idxs P ss) \<Longrightarrow> map_of P' j = map_of P j" "im_wf P'"
    using e by (rule expandsD) blast
  note d = prf_okD(3) [OF ok]
  have i: "i \<in> {0..<int (length P)}" using m(1) d by blast
  then show i': "i \<notin> set (inf_idxs P ss)" by simp
  have "j \<in> dom (map_of P') \<longleftrightarrow> j \<in> {0..<int (length P + length ss)}" for j
  proof -
    have "j \<in> dom (map_of P') \<longleftrightarrow> j \<in> dom (map_of P) \<or> j \<in> set (inf_idxs P ss)"
      using m(1,2) m(3) [of j] m(4) [of j] by (cases "j = i"; cases "j \<in> set (inf_idxs P ss)") (simp_all add: dom_def del: inf_idxs_simps)
    then show ?thesis unfolding d by auto
  qed
  then show dom: "dom (map_of P') = {0..<int (length P + length ss)}" by blast
  show "length P' = length P + length ss" using im_wf_length [OF m(5)] unfolding dom by simp
qed

lemma expands_ok:
  assumes ok: "prf_ok Q P" and e: "expands P i n ss P'" and n: "fits_node Q P n ss"
  shows "prf_ok Q P'"
proof -
  obtain p m where m: "map_of P i = Some (p, m)" "is_open m" "node_get_seq n = node_get_seq m" "map_of P' i = Some (p, n)"
    "\<And>j. j \<noteq> i \<Longrightarrow> j \<in> set (inf_idxs P ss) \<Longrightarrow> map_of P' j = Some (i, mk_open (ss ! nat (j - int (length P))))"
    "\<And>j. j \<noteq> i \<Longrightarrow> j \<notin> set (inf_idxs P ss) \<Longrightarrow> map_of P' j = map_of P j" "im_wf P'"
    using e by (rule expandsD) blast
  note dom = expands_dom [OF ok e]
  have il: "i \<in> {0..<int (length P)}" using m(1) prf_okD(3) [OF ok] by blast
  have old: "j \<notin> set (inf_idxs P ss)" if "map_of P j = Some x" for j x
  proof -
    have "j \<in> dom (map_of P)" using that by blast
    then show ?thesis unfolding prf_okD(3) [OF ok] by simp
  qed
  text \<open>A node of \<open>P\<close> is still there, with its parent and sequent.\<close>
  have keep: "\<exists>y. map_of P' j = Some y \<and> fst y = fst x \<and> node_get_seq (snd y) = node_get_seq (snd x) \<and> (j \<noteq> i \<longrightarrow> y = x)"
    if "map_of P j = Some x" for j x
    using that m(1,3,4) m(6) [of j] old [OF that] by (cases "j = i") auto
  have inv: "node_inv Q P' j pj nj" if j: "map_of P' j = Some (pj, nj)" for j pj nj
  proof -
    have inv_i: "node_inv Q P i p m" by (rule prf_okD(4) [OF ok m(1)])
    text \<open>The parent of an old node is an inference, so it is not \<open>i\<close>.\<close>
    have parent: "if k = 0 then q = 0
        else q < k \<and> (\<exists>x. map_of P' q = Some x \<and> is_inf (snd x) \<and> k \<in> set (get_succs (snd x)))"
      if k: "map_of P k = Some (q, nk)" for k q nk
    proof -
      have "q \<noteq> i" if "map_of P q = Some x" "is_inf (snd x)" for x
        using that m(1,2) by (cases "snd x") auto
      with prf_okD(4) [OF ok k] m(6) [of q] old [of q] show ?thesis unfolding node_inv_def by (auto simp del: inf_idxs_simps)
    qed
    consider (i) "j = i" | (new) "j \<noteq> i" "j \<in> set (inf_idxs P ss)" | (other) "j \<noteq> i" "j \<notin> set (inf_idxs P ss)" by blast
    then show ?thesis
    proof cases
      case i
      then have pn: "pj = p" "nj = n" using j m(4) by auto
      have "\<exists>x. map_of P' t = Some x \<and> (is_inf n \<longrightarrow> i < t \<and> fst x = i) \<and>
          (is_backlink n \<longrightarrow> seq_equal_upto_tags Q (node_get_seq n) (node_get_seq (snd x)))" if t: "t \<in> set (get_succs n)" for t
      proof (cases "is_backlink n")
        case True
        with n t obtain x where x: "map_of P t = Some x" "seq_equal_upto_tags Q (node_get_seq n) (node_get_seq (snd x))"
          unfolding fits_node_def by auto
        from True have "\<not> is_inf n" by (cases n) auto
        with keep [OF x(1)] x(2) show ?thesis by metis
      next
        case False
        with n t have t: "t \<in> set (inf_idxs P ss)" unfolding fits_node_def by (simp del: inf_idxs_simps)
        then have "i \<noteq> t" using dom(3) by blast
        moreover have "i < t" using t il by simp
        ultimately show ?thesis using m(5) [of t] t False by auto
      qed
      then show ?thesis unfolding i pn node_inv_def using parent [OF m(1)] n unfolding fits_node_def by blast
    next
      case new
      then have pn: "pj = i" "nj = mk_open (ss ! nat (j - int (length P)))" using j m(5) by auto
      have "ss \<noteq> []" using new(2) by (auto simp: inf_idxs_def)
      then have "is_inf n" "j \<in> set (get_succs n)" using n new(2) unfolding fits_node_def by (auto simp del: inf_idxs_simps split: if_splits)
      moreover have "i < j" "j \<noteq> 0" using new(2) il by auto
      ultimately show ?thesis using m(4) by (simp add: node_inv_def pn mk_open_def)
    next
      case other
      then have j': "map_of P j = Some (pj, nj)" using j m(6) by simp
      have "\<exists>y. map_of P' t = Some y \<and> (is_inf nj \<longrightarrow> j < t \<and> fst y = j) \<and>
          (is_backlink nj \<longrightarrow> seq_equal_upto_tags Q (node_get_seq nj) (node_get_seq (snd y)))" if "t \<in> set (get_succs nj)" for t
        using prf_okD(4) [OF ok j'] that keep [of t] unfolding node_inv_def by metis
      then show ?thesis using prf_okD(4) [OF ok j'] parent [OF j'] unfolding node_inv_def by blast
    qed
  qed
  have "P' \<noteq> []" using m(4) by auto
  with dom m(7) inv show ?thesis unfolding prf_ok_def by simp
qed

lemma expands_open:
  assumes ok: "prf_ok Q P" and e: "expands P i n ss P'"
  shows "open_nodes P' = open_nodes P - {i} \<union> set (inf_idxs P ss)"
proof -
  obtain p m where m: "map_of P' i = Some (p, n)"
    "\<And>j. j \<noteq> i \<Longrightarrow> j \<in> set (inf_idxs P ss) \<Longrightarrow> map_of P' j = Some (i, mk_open (ss ! nat (j - int (length P))))"
    "\<And>j. j \<noteq> i \<Longrightarrow> j \<notin> set (inf_idxs P ss) \<Longrightarrow> map_of P' j = map_of P j" "\<not> is_open n"
    using e by (rule expandsD) blast
  have "j \<in> open_nodes P' \<longleftrightarrow> j \<in> open_nodes P - {i} \<union> set (inf_idxs P ss)" for j
  proof (cases "j = i")
    case True
    then show ?thesis using m(1,4) expands_dom(3) [OF assms] by (simp add: open_nodes_def del: inf_idxs_simps)
  next
    case False
    then show ?thesis using m(2,3) [OF False]
      by (cases "j \<in> set (inf_idxs P ss)") (simp_all add: open_nodes_def mk_open_def del: inf_idxs_simps)
  qed
  then show ?thesis by blast
qed

section \<open>The constructors\<close>

lemma inf_idxs_Nil [simp]: "inf_idxs P [] = []"
  by (simp add: inf_idxs_def)

lemma fits_axiom: "fits_node Q P (AxiomNode s d) []"
  by (simp add: fits_node_def)

lemma fits_inf: "fits_node Q P (inf_node P s d goals) (map fst goals)"
  by (simp add: fits_node_def inf_node_def) (simp add: inf_idxs_def)

lemma fits_backlink:
  "map_of P t = Some x \<Longrightarrow> seq_equal_upto_tags Q s (node_get_seq (snd x)) \<Longrightarrow> fits_node Q P (BackNode s d t vtts) []"
  by (simp add: fits_node_def)

text \<open>Each constructor, when it returns, has expanded a node by one that fits.\<close>

lemma constructors_expand:
  assumes ok: "prf_ok Q P"
  shows "add_axiom Q i d P = Inr P' \<Longrightarrow> \<exists>n. expands P i n [] P' \<and> fits_node Q P n []"
    and "add_backlink Q i d t vtts P = Inr P' \<Longrightarrow> \<exists>n. expands P i n [] P' \<and> fits_node Q P n []"
    and "add_inf Q i d goals P = Inr (idxs, P') \<Longrightarrow>
      idxs = inf_idxs P goals \<and> (\<exists>n. expands P i n (map fst goals) P' \<and> fits_node Q P n (map fst goals))"
proof -
  note wf = prf_okD(1) [OF ok]
  assume "add_axiom Q i d P = Inr P'"
  from add_axiom_expands [OF this wf] obtain s where "expands P i (AxiomNode s d) [] P'" ..
  with fits_axiom [of Q P s d] show "\<exists>n. expands P i n [] P' \<and> fits_node Q P n []" by blast
next
  note wf = prf_okD(1) [OF ok]
  assume "add_backlink Q i d t vtts P = Inr P'"
  from add_backlink_expands [OF this wf] obtain s x where e: "expands P i (BackNode s d t vtts) [] P'"
    and x: "map_of P t = Some x" "seq_equal_upto_tags Q s (node_get_seq (snd x))" by blast
  with fits_backlink [OF x, of d vtts] show "\<exists>n. expands P i n [] P' \<and> fits_node Q P n []" by blast
next
  assume add: "add_inf Q i d goals P = Inr (idxs, P')"
  from add_inf_expands(1) [OF ok add] obtain s where "expands P i (inf_node P s d goals) (map fst goals) P'" ..
  with fits_inf [of Q P s d goals] add_inf_expands(2) [OF ok add] show "idxs = inf_idxs P goals \<and> (\<exists>n. expands P i n (map fst goals) P' \<and> fits_node Q P n (map fst goals))" by blast
qed

lemma constructors_ok:
  assumes ok: "prf_ok Q P"
  shows "add_axiom Q i d P = Inr P' \<Longrightarrow> prf_ok Q P'"
    and "add_backlink Q i d t vtts P = Inr P' \<Longrightarrow> prf_ok Q P'"
    and "add_inf Q i d goals P = Inr (idxs, P') \<Longrightarrow> prf_ok Q P'"
  by (drule constructors_expand(1) [OF ok], elim exE conjE, erule (1) expands_ok [OF ok],
      drule constructors_expand(2) [OF ok], elim exE conjE, erule (1) expands_ok [OF ok],
      drule constructors_expand(3) [OF ok], elim exE conjE, erule (1) expands_ok [OF ok])

section \<open>The leaves\<close>

lemma leaves_ok_eq:
  assumes "im_wf P"
  shows "leaves_ok P \<longleftrightarrow> (\<forall>i p n. map_of P i = Some (p, n) \<longrightarrow> is_inf n \<longrightarrow> get_succs n \<noteq> [])"
  using im_wf_distinct [OF assms] by (fastforce simp: leaves_ok_def dest: map_of_SomeD intro: map_of_is_SomeI)

lemma prf_mk_leaves: "leaves_ok (prf_mk s)"
  by (simp add: leaves_ok_def prf_mk_def im_add_def im_mem_def mk_open_def)

text \<open>The premises that an expansion adds are open; the new node decides.\<close>

lemma expands_leaves:
  assumes ok: "prf_ok Q P" and leaves: "leaves_ok P" and e: "expands P i n ss P'"
  shows "leaves_ok P' \<longleftrightarrow> (is_inf n \<longrightarrow> get_succs n \<noteq> [])"
proof -
  obtain p where m: "map_of P' i = Some (p, n)"
    "\<And>j. j \<noteq> i \<Longrightarrow> j \<in> set (inf_idxs P ss) \<Longrightarrow> map_of P' j = Some (i, mk_open (ss ! nat (j - int (length P))))"
    "\<And>j. j \<noteq> i \<Longrightarrow> j \<notin> set (inf_idxs P ss) \<Longrightarrow> map_of P' j = map_of P j" "im_wf P'"
    using e by (rule expandsD) blast
  have "is_inf nj \<longrightarrow> get_succs nj \<noteq> []" if j: "map_of P' j = Some (pj, nj)" "j \<noteq> i" for j pj nj
  proof (cases "j \<in> set (inf_idxs P ss)")
    case True
    with m(2) [OF j(2)] j(1) show ?thesis by (simp add: mk_open_def)
  next
    case False
    with m(3) [OF j(2)] j(1) leaves show ?thesis unfolding leaves_ok_eq [OF prf_okD(1) [OF ok]] by metis
  qed
  with m(1) show ?thesis unfolding leaves_ok_eq [OF m(4)] by (metis option.inject prod.inject)
qed

lemma constructors_leaves:
  assumes ok: "prf_ok Q P" and leaves: "leaves_ok P"
  shows "add_axiom Q i d P = Inr P' \<Longrightarrow> leaves_ok P'"
    and "add_backlink Q i d t vtts P = Inr P' \<Longrightarrow> leaves_ok P'"
    and "add_inf Q i d goals P = Inr (idxs, P') \<Longrightarrow> leaves_ok P' \<longleftrightarrow> goals \<noteq> []"
proof -
  assume "add_axiom Q i d P = Inr P'"
  from add_axiom_expands [OF this prf_okD(1) [OF ok]] expands_leaves [OF ok leaves] show "leaves_ok P'" by auto
next
  assume "add_backlink Q i d t vtts P = Inr P'"
  from add_backlink_expands [OF this prf_okD(1) [OF ok]] expands_leaves [OF ok leaves] show "leaves_ok P'" by auto
next
  assume add: "add_inf Q i d goals P = Inr (idxs, P')"
  from add_inf_expands(1) [OF ok add] obtain s where "expands P i (inf_node P s d goals) (map fst goals) P'" ..
  from expands_leaves [OF ok leaves this] show "leaves_ok P' \<longleftrightarrow> goals \<noteq> []"
    by (simp add: inf_node_def) (simp add: inf_idxs_def)
qed

section \<open>Copying a proof\<close>

lemma map2R_length: "map2R f xs ys = Inr zs \<Longrightarrow> length zs = length xs"
  by (induction f xs ys arbitrary: zs rule: map2R.induct) (auto simp: bindE_eq_Inr)

text \<open>
  A property of proofs that the three constructors keep, where an inference has goals that
  satisfy \<open>G\<close>. Copying a proof whose inferences have as many premises as such goals only
  calls the constructors, so it keeps the property too.
\<close>

locale constructor_invariant =
  fixes Q :: "'q sequent_sig" and I :: "'q proof_t \<Rightarrow> bool" and G :: "nat \<Rightarrow> bool"
  assumes keep_axiom: "I P \<Longrightarrow> add_axiom Q i d P = Inr P' \<Longrightarrow> I P'"
    and keep_backlink: "I P \<Longrightarrow> add_backlink Q i d t vtts P = Inr P' \<Longrightarrow> I P'"
    and keep_inf: "I P \<Longrightarrow> G (length goals) \<Longrightarrow> add_inf Q i d goals P = Inr (idxs, P') \<Longrightarrow> I P'"
begin

lemma find_inf:
  assumes "\<forall>x \<in> set prf. is_inf (snd (snd x)) \<longrightarrow> G (length (get_succs (snd (snd x))))"
    and "prf_find idx prf = Inr (InfNode s d ps tps2)"
  shows "G (length ps)"
proof -
  obtain x where "map_of prf idx = Some x" "snd x = InfNode s d ps tps2"
    using assms(2) by (auto simp: prf_find_eq split: option.splits)
  with assms(1) show ?thesis by (fastforce dest: map_of_SomeD)
qed

lemma fold_left2E_keep:
  assumes "fold_left2E f c xs ys = Inr c'" and "I (fst c)"
    and "\<And>c x y c'. I (fst c) \<Longrightarrow> f c x y = Inr c' \<Longrightarrow> I (fst c')"
  shows "I (fst c')"
  using assms(1,2)
proof (induction xs arbitrary: c ys)
  case Nil
  then show ?case by (cases ys) auto
next
  case (Cons x xs)
  then obtain y ys' d where "f c x y = Inr d" "fold_left2E f d xs ys' = Inr c'" by (cases ys) (auto simp: bindE_eq_Inr)
  with assms(3) Cons show ?case by blast
qed

lemma add_rec_keep:
  assumes "\<forall>x \<in> set prf. is_inf (snd (snd x)) \<longrightarrow> G (length (get_succs (snd (snd x))))"
  shows "add_rec k Q prf acc idx idx' = Inr acc' \<Longrightarrow> I (fst acc) \<Longrightarrow> I (fst acc')"
proof (induction k arbitrary: acc idx idx' acc')
  case (Suc k)
  obtain P nm bls where acc: "acc = (P, nm, bls)" by (cases acc)
  obtain n where n: "prf_find idx prf = Inr n" using Suc.prems(1) by (auto simp: acc bindE_eq_Inr)
  show ?case
  proof (cases n)
    case (InfNode s d ps tps2)
    with Suc.prems(1) n obtain goals idxs P1 nm1 where a: "add_inf Q idx' d goals P = Inr (idxs, P1)"
      and l: "length goals = length ps" and f: "fold_left2E (add_rec k Q prf) (P1, nm1, bls) ps idxs = Inr acc'"
      by (auto simp: acc bindE_eq_Inr dest: map2R_length)
    have "G (length goals)" using find_inf [OF assms n [unfolded InfNode]] l by simp
    with keep_inf [OF _ _ a] Suc.prems(2) have "I (fst (P1, nm1, bls))" by (simp add: acc)
    from f this show ?thesis by (rule fold_left2E_keep) (rule Suc.IH)
  qed (use Suc.prems n in \<open>auto simp: acc bindE_eq_Inr intro: keep_axiom\<close>)
qed simp

lemma add_subprf_keep:
  assumes "add_subprf Q prf idx prf' = Inr P'" and "I prf'"
    and src: "\<forall>x \<in> set prf. is_inf (snd (snd x)) \<longrightarrow> G (length (get_succs (snd (snd x))))"
  shows "I P'"
proof -
  obtain P1 nm bls where r: "add_rec (length prf) Q prf (prf', im_add 0 idx [], []) 0 idx = Inr (P1, nm, bls)"
    and f: "foldE (fix_bl Q prf nm) bls P1 = Inr P'"
    using assms(1) by (auto simp: add_subprf_def bindE_eq_Inr asserting_eq_Inr)
  from add_rec_keep [OF src r] assms(2) have "I P1" by simp
  with f show ?thesis
    by (rule foldE_invariant) (auto simp: fix_bl_def bindE_eq_Inr intro: keep_backlink)
qed

lemma extract_rec_keep:
  assumes "\<forall>x \<in> set prf. is_inf (snd (snd x)) \<longrightarrow> G (length (get_succs (snd (snd x))))"
  shows "extract_rec k Q prf acc idx idx' = Inr acc' \<Longrightarrow> I (fst acc) \<Longrightarrow> I (fst acc')"
proof (induction k arbitrary: acc idx idx' acc')
  case (Suc k)
  obtain P nm where acc: "acc = (P, nm)" by (cases acc)
  show ?case
  proof (cases "im_mem idx nm")
    case True
    with Suc.prems show ?thesis by (auto simp: acc bindE_eq_Inr intro: keep_backlink)
  next
    case False
    obtain n where n: "prf_find idx prf = Inr n" using Suc.prems(1) False by (auto simp: acc bindE_eq_Inr Let_def)
    show ?thesis
    proof (cases n)
      case (InfNode s d ps tps2)
      with Suc.prems(1) n False obtain goals idxs P1 nm1 where a: "add_inf Q idx' d goals P = Inr (idxs, P1)"
        and l: "length goals = length ps" and f: "fold_left2E (extract_rec k Q prf) (P1, nm1) ps idxs = Inr acc'"
        by (auto simp: acc bindE_eq_Inr Let_def dest: map2R_length)
      have "G (length goals)" using find_inf [OF assms n [unfolded InfNode]] l by simp
      with keep_inf [OF _ _ a] Suc.prems(2) have "I (fst (P1, nm1))" by (simp add: acc)
      from f this show ?thesis by (rule fold_left2E_keep) (rule Suc.IH)
    next
      case (BackNode s d t vtts)
      show ?thesis
      proof (cases "im_mem t (im_add idx idx' nm)")
        case True
        with BackNode Suc.prems n False show ?thesis by (auto simp: acc bindE_eq_Inr Let_def intro: keep_backlink)
      next
        case t: False
        with BackNode Suc.prems(1) n False have "extract_rec k Q prf (P, im_add idx idx' nm) t idx' = Inr acc'"
          by (simp add: acc Let_def)
        from Suc.IH [OF this] Suc.prems(2) show ?thesis by (simp add: acc)
      qed
    qed (use Suc.prems n False in \<open>auto simp: acc bindE_eq_Inr Let_def intro: keep_axiom\<close>)
  qed
qed simp

end

interpretation prf_inv: constructor_invariant Q "prf_ok Q" "\<lambda>_. True" for Q
  by unfold_locales (erule (1) constructors_ok)+

interpretation leaves_inv: constructor_invariant Q "\<lambda>P. prf_ok Q P \<and> leaves_ok P" "\<lambda>n. 0 < n" for Q
  by unfold_locales (auto dest: constructors_ok constructors_leaves)

lemma add_subprf_ok: "add_subprf Q prf idx P = Inr P' \<Longrightarrow> prf_ok Q P \<Longrightarrow> prf_ok Q P'"
  by (rule prf_inv.add_subprf_keep) simp_all

lemma add_subprf_leaves:
  "add_subprf Q prf idx P = Inr P' \<Longrightarrow> prf_ok Q P \<Longrightarrow> leaves_ok P \<Longrightarrow> leaves_ok prf \<Longrightarrow> leaves_ok P'"
  by (drule leaves_inv.add_subprf_keep) (simp_all add: leaves_ok_def)

lemma extract_subproof_rec:
  assumes "extract_subproof Q idx prf = Inr P'"
  obtains s nm where "extract_rec (Suc (length prf)) Q prf (prf_mk s, []) idx 0 = Inr (P', nm)"
  using assms by (auto simp: extract_subproof_def bindE_eq_Inr)

lemma extract_subproof_ok: "extract_subproof Q idx prf = Inr P' \<Longrightarrow> prf_ok Q P'"
  by (erule extract_subproof_rec, drule prf_inv.extract_rec_keep [rotated]) (simp_all add: prf_mk_ok)

lemma extract_subproof_leaves: "extract_subproof Q idx prf = Inr P' \<Longrightarrow> leaves_ok prf \<Longrightarrow> leaves_ok P'"
  by (erule extract_subproof_rec, drule leaves_inv.extract_rec_keep [rotated])
    (simp_all add: prf_mk_ok prf_mk_leaves, simp add: leaves_ok_def)

section \<open>Walking up\<close>

text \<open>The numbers on the way from the root to a node, each the parent of the next.\<close>

definition parent_chain :: "'q proof_t \<Rightarrow> (int \<times> 'q node) list \<Rightarrow> bool" where
  "parent_chain P l \<longleftrightarrow> successively (\<lambda>x y. map_of P (fst y) = Some (fst x, snd y)) l"

lemma prf_ok_parent:
  assumes "prf_ok Q P" and "map_of P i = Some (p, n)" and "i \<noteq> 0"
  shows "0 \<le> p" "p < i" "\<exists>x. map_of P p = Some x \<and> is_inf (snd x) \<and> i \<in> set (get_succs (snd x))"
proof -
  from prf_okD(4) [OF assms(1,2)] assms(3)
  show "p < i" and x: "\<exists>x. map_of P p = Some x \<and> is_inf (snd x) \<and> i \<in> set (get_succs (snd x))"
    by (simp_all add: node_inv_def)
  from x have "p \<in> dom (map_of P)" by blast
  then show "0 \<le> p" unfolding prf_okD(3) [OF assms(1)] by simp
qed

lemma ancestry_rec_eq:
  assumes ok: "prf_ok Q P" and "map_of P i = Some (p, n)" and "i < int k"
  shows "\<exists>us. ancestry_rec k P acc i (p, n) = Inr (us @ (i, n) # acc) \<and> parent_chain P (us @ [(i, n)]) \<and>
    fst (hd (us @ [(i, n)])) = 0 \<and> map_of P 0 = Some (0, snd (hd (us @ [(i, n)])))"
  using assms(2,3)
proof (induction k arbitrary: i p n acc)
  case 0
  then have "i \<in> dom (map_of P)" by blast
  with 0 show ?case unfolding prf_okD(3) [OF ok] by simp
next
  case (Suc k)
  show ?case
  proof (cases "i = 0")
    case True
    with Suc.prems prf_okD(4) [OF ok Suc.prems(1)] show ?thesis
      by (intro exI [of _ "[]"]) (simp add: node_inv_def prf_get_eq parent_chain_def)
  next
    case False
    note par = prf_ok_parent [OF ok Suc.prems(1) False]
    then obtain q m where m: "map_of P p = Some (q, m)" by auto
    from Suc.IH [OF m, of "(i, n) # acc"] par(2) Suc.prems(2)
    obtain us where us: "ancestry_rec k P ((i, n) # acc) p (q, m) = Inr (us @ (p, m) # (i, n) # acc)"
      "parent_chain P (us @ [(p, m)])" "fst (hd (us @ [(p, m)])) = 0" "map_of P 0 = Some (0, snd (hd (us @ [(p, m)])))" by auto
    have "parent_chain P ((us @ [(p, m)]) @ [(i, n)])"
      using us(2) Suc.prems(1) unfolding parent_chain_def successively_append_iff by simp
    moreover have "hd ((us @ [(p, m)]) @ [(i, n)]) = hd (us @ [(p, m)])" by (cases us) auto
    ultimately show ?thesis using us(1,3,4) m par(2)
      by (intro exI [of _ "us @ [(p, m)]"]) (simp add: prf_get_eq Let_def)
  qed
qed

section \<open>Walking down\<close>

inductive below :: "'q proof_t \<Rightarrow> int \<Rightarrow> int \<Rightarrow> bool" for P i where
  here: "below P i i"
| premise: "below P i j \<Longrightarrow> map_of P j = Some (p, n) \<Longrightarrow> is_inf n \<Longrightarrow> k \<in> set (get_succs n) \<Longrightarrow> below P i k"

lemma below_trans: "below P j k \<Longrightarrow> below P i j \<Longrightarrow> below P i k"
  by (induction rule: below.induct) (auto intro: below.premise)

lemma below_cases:
  assumes n: "map_of P i = Some (p, n)"
  shows "below P i j \<longleftrightarrow> j = i \<or> is_inf n \<and> (\<exists>k \<in> set (get_succs n). below P k j)"
proof
  assume "below P i j"
  then show "j = i \<or> is_inf n \<and> (\<exists>k \<in> set (get_succs n). below P k j)"
  proof (induction rule: below.induct)
    case (premise j p' n' k)
    from premise.IH show ?case
    proof
      assume "j = i"
      with premise.hyps n show ?thesis using below.here [of P k] by auto
    next
      assume "is_inf n \<and> (\<exists>k\<in>set (get_succs n). below P k j)"
      with below.premise [OF _ premise.hyps(2-4)] show ?thesis by blast
    qed
  qed simp
next
  assume "j = i \<or> is_inf n \<and> (\<exists>k \<in> set (get_succs n). below P k j)"
  then show "below P i j"
  proof
    assume "is_inf n \<and> (\<exists>k \<in> set (get_succs n). below P k j)"
    then obtain k where "is_inf n" "k \<in> set (get_succs n)" "below P k j" by blast
    from below.premise [OF below.here n this(1,2)] this(3) show ?thesis by (rule below_trans [rotated])
  qed (simp add: below.here)
qed

lemma below_root:
  assumes ok: "prf_ok Q P"
  shows "map_of P i = Some x \<Longrightarrow> below P 0 i"
proof (induction "nat i" arbitrary: i x rule: less_induct)
  case less
  show ?case
  proof (cases "i = 0")
    case False
    obtain p n where x: "x = (p, n)" by (cases x)
    note par = prf_ok_parent [OF ok less.prems [unfolded x] False]
    then obtain y where y: "map_of P p = Some y" "is_inf (snd y)" "i \<in> set (get_succs (snd y))" by blast
    from less.hyps [OF _ y(1)] par(1,2) have "below P 0 p" by simp
    from below.premise [OF this, of "fst y" "snd y"] y show ?thesis by simp
  qed (simp add: below.here)
qed

lemma closed_rec_eq:
  assumes ok: "prf_ok Q P"
  shows "map_of P i = Some (p, n) \<Longrightarrow> int (length P) - i \<le> int k \<Longrightarrow>
    closed_rec k P i = Inr (\<forall>j. below P i j \<longrightarrow> j \<notin> open_nodes P)"
proof (induction k arbitrary: i p n)
  case 0
  then have "i \<in> dom (map_of P)" by blast
  with 0 show ?case unfolding prf_okD(3) [OF ok] by simp
next
  case (Suc k)
  have op: "i \<in> open_nodes P \<longleftrightarrow> is_open n" using Suc.prems(1) by (simp add: open_nodes_def)
  note b = below_cases [OF Suc.prems(1)]
  show ?case
  proof (cases n)
    case (InfNode s d succs tps2)
    have "closed_rec k P j = Inr (\<forall>j'. below P j j' \<longrightarrow> j' \<notin> open_nodes P)" if "j \<in> set succs" for j
    proof -
      from prf_okD(4) [OF ok Suc.prems(1)] InfNode that obtain x where "map_of P j = Some x" "i < j"
        by (auto simp: node_inv_def)
      then show ?thesis using Suc.IH [of j "fst x" "snd x"] Suc.prems(2) by simp
    qed
    then have "allE (closed_rec k P) succs = Inr (\<forall>j\<in>set succs. \<forall>j'. below P j j' \<longrightarrow> j' \<notin> open_nodes P)"
      by (rule allE_total)
    with InfNode Suc.prems(1) op show ?thesis by (simp add: prf_find_eq b) blast
  qed (use Suc.prems(1) op in \<open>simp_all add: prf_find_eq b\<close>)
qed

lemma is_closed_iff: "im_wf P \<Longrightarrow> is_closed P \<longleftrightarrow> open_nodes P = {}"
  by (force simp: is_closed_def open_nodes_def list_all_iff im_wf_distinct)

lemma is_closed_at_eq:
  assumes ok: "prf_ok Q P" and "map_of P i = Some x"
  shows "is_closed_at P i = Inr (\<forall>j. below P i j \<longrightarrow> j \<notin> open_nodes P)"
proof -
  have "i \<in> dom (map_of P)" using assms(2) by blast
  then have "0 \<le> i" unfolding prf_okD(3) [OF ok] by simp
  then show ?thesis unfolding is_closed_at_def using closed_rec_eq [OF ok, of i "fst x" "snd x"] assms(2) by simp
qed

end
