(* ===== verification/Prover_Check.thy ===== *)
theory Prover_Check
  imports Prover_Inv
begin

text \<open>
  The soundness check of the prover's proofs: the abstract proof that a proof stands for, its
  trace graph, what the constructors do to it, and what the check answers, also when the
  limits of the C++ checker are exceeded somewhere in a search.
\<close>

section \<open>The graph of a proof\<close>

definition abs_of :: "'q sequent_sig \<Rightarrow> 'q proof_t \<Rightarrow> abs_proof" where
  "abs_of Q P = map (\<lambda>(i, (_, n)). (i, abs_node Q n)) P"

definition prf_graph :: "'q sequent_sig \<Rightarrow> 'q proof_t \<Rightarrow> (int, int) tgraph" where
  "prf_graph Q P = abs_graph (abs_of Q P)"

definition prf_finite :: "'q proof_t \<Rightarrow> bool" where
  "prf_finite P \<longleftrightarrow> (\<forall>i x. map_of P i = Some x \<longrightarrow> node_finite (snd x))"

text \<open>A proof within the limits of the checker.\<close>

definition prf_fits :: "'q sequent_sig \<Rightarrow> (nat \<Rightarrow> int) \<Rightarrow> 'q proof_t \<Rightarrow> bool" where
  "prf_fits Q ceil_log P \<longleftrightarrow>
     prf_finite P \<and> abs_in_range (abs_of Q P) \<and> (\<forall>n. 0 < n \<and> n \<le> length P \<longrightarrow> log_ok ceil_log n)"

lemma abs_of_lookup: "map_of (abs_of Q P) i = map_option (\<lambda>x. abs_node Q (snd x)) (map_of P i)"
  by (induction P) (auto simp: abs_of_def)

lemma abs_of_keys [simp]: "map fst (abs_of Q P) = map fst P" "length (abs_of Q P) = length P"
  by (auto simp: abs_of_def)

lemma abs_node_succs: "node_shape n \<Longrightarrow> map fst (snd (abs_node Q n)) = get_succs n"
  using node_premises_succs [of n] by (simp add: abs_node_def comp_def case_prod_unfold)

lemma abs_of_ok:
  assumes laws: "sequent_laws Q" and ok: "prf_ok Q P" and fin: "prf_finite P"
  shows "abs_ok (abs_of Q P)"
proof -
  have wf: "im_wf (abs_of Q P)" using prf_okD(1) [OF ok] by (simp add: im_wf_def)
  have "node_ok a" if a: "(i, a) \<in> set (abs_of Q P)" for i a
  proof -
    from im_wf_distinct [OF wf] a have "map_of (abs_of Q P) i = Some a" by (rule map_of_is_SomeI)
    then obtain p n where n: "map_of P i = Some (p, n)" "a = abs_node Q n" by (auto simp: abs_of_lookup)
    have s: "node_shape n" using prf_okD(4) [OF ok n(1)] by (simp add: node_inv_def)
    have "distinct (get_succs n)" using s by (cases n) auto
    then have "distinct (map fst (snd a))" by (simp only: n(2) abs_node_succs [OF s])
    moreover have "node_finite n" using fin n(1) unfolding prf_finite_def by fastforce
    then have "\<forall>(j, tv, tp) \<in> set (snd a). finite tv \<and> finite tp"
      by (fastforce simp: n(2) abs_node_def node_finite_def ints_def)
    ultimately show ?thesis using sequent_lawsD(2) [OF laws] by (simp add: node_ok_def n(2) abs_node_def)
  qed
  with wf show ?thesis unfolding abs_ok_def by blast
qed

lemma prf_check_eq:
  assumes laws: "sequent_laws Q" and ok: "prf_ok Q P" and fin: "prf_finite P"
  shows "prf_check Q B S ceil_log same P s = check_proof B S ceil_log same 0 (abs_of Q P) s"
proof -
  have "to_abstract_node Q n = Inr (abs_node Q n)" if "(i, (p, n)) \<in> set P" for i p n
  proof -
    from that prf_okD(1) [OF ok] have n: "map_of P i = Some (p, n)" by (simp add: im_wf_distinct)
    have "node_shape n" using prf_okD(4) [OF ok n] by (simp add: node_inv_def)
    moreover have "node_finite n" using fin n unfolding prf_finite_def by fastforce
    ultimately show ?thesis by (rule to_abstract_node_eq [OF sequent_lawsD(2) [OF laws]])
  qed
  then have "mapE (\<lambda>(i, (_, n)). bindE (to_abstract_node Q n) (\<lambda>a. Inr (i, a))) (map (\<lambda>x. x) P) = Inr (abs_of Q P)"
    unfolding abs_of_def by (intro mapE_map_Inr) auto
  then show ?thesis by (simp add: prf_check_def)
qed

text \<open>The edges and pairs of the graph.\<close>

lemma prf_graph_edge:
  assumes "prf_ok Q P"
  shows "tg_edge (prf_graph Q P) i j \<longleftrightarrow> (\<exists>x. map_of P i = Some x \<and> j \<in> set (get_succs (snd x)))"
proof -
  have fst: "(\<exists>tv tp. (j, tv, tp) \<in> A) \<longleftrightarrow> j \<in> fst ` A" for A :: "(int \<times> pairs \<times> pairs) set"
  proof
    assume "j \<in> fst ` A"
    then obtain x where "x \<in> A" "j = fst x" by blast
    then have "(j, fst (snd x), snd (snd x)) \<in> A" by simp
    then show "\<exists>tv tp. (j, tv, tp) \<in> A" by blast
  qed force
  show ?thesis
  proof (cases "map_of P i")
    case (Some x)
    have "node_shape (snd x)" using prf_okD(4) [OF assms, of i "fst x" "snd x"] Some by (simp add: node_inv_def)
    from abs_node_succs [OF this, of Q] have "fst ` set (snd (abs_node Q (snd x))) = set (get_succs (snd x))"
      by (metis list.set_map)
    with Some show ?thesis
      unfolding prf_graph_def abs_graph_def tgraph.simps abs_of_lookup by (simp add: fst)
  qed (simp add: prf_graph_def abs_graph_def abs_of_lookup)
qed

lemma prf_graph_pairs:
  "map_of P i = map_of P' i \<Longrightarrow> tg_valid (prf_graph Q P) i j = tg_valid (prf_graph Q P') i j"
  "map_of P i = map_of P' i \<Longrightarrow> tg_prog (prf_graph Q P) i j = tg_prog (prf_graph Q P') i j"
  by (simp_all add: prf_graph_def abs_graph_def abs_of_lookup)

lemma gtc_expands:
  assumes ok: "prf_ok Q P" and e: "expands P i n ss P'" and f: "fits_node Q P n ss" and nb: "\<not> is_backlink n"
  shows "gtc (prf_graph Q P') k = gtc (prf_graph Q P) k"
proof -
  obtain p m where m: "map_of P i = Some (p, m)" "is_open m" "map_of P' i = Some (p, n)"
    "\<And>j. j \<noteq> i \<Longrightarrow> j \<in> set (inf_idxs P ss) \<Longrightarrow> map_of P' j = Some (i, mk_open (ss ! nat (j - int (length P))))"
    "\<And>j. j \<noteq> i \<Longrightarrow> j \<notin> set (inf_idxs P ss) \<Longrightarrow> map_of P' j = map_of P j"
    using e by (rule expandsD) blast
  note edge = prf_graph_edge [OF ok] and edge' = prf_graph_edge [OF expands_ok [OF ok e f]]
  have open_succs: "get_succs m = []" using m(2) by (cases m) auto
  have new: "get_succs n = inf_idxs P ss" using f nb by (simp add: fits_node_def)
  have old: "v \<noteq> i \<and> v \<notin> set (inf_idxs P ss)" if "tg_edge (prf_graph Q P) v w" for v w
  proof -
    from that obtain x where x: "map_of P v = Some x" "w \<in> set (get_succs (snd x))" unfolding edge by blast
    then have "v \<in> dom (map_of P)" by blast
    then show ?thesis using x m(1) open_succs unfolding prf_okD(3) [OF ok] by auto
  qed
  have same: "map_of P' v = map_of P v" if "tg_edge (prf_graph Q P) v w" for v w
    using old [OF that] m(5) by blast
  show ?thesis
  proof (rule gtc_dead_edges)
    show "tg_edge (prf_graph Q P') v w" if "tg_edge (prf_graph Q P) v w" for v w
      using that same [OF that] unfolding edge edge' by simp
    show "\<not> tg_edge (prf_graph Q P') w u" if e': "tg_edge (prf_graph Q P') v w" "\<not> tg_edge (prf_graph Q P) v w" for v w u
    proof -
      have "v = i"
      proof (rule ccontr)
        assume "v \<noteq> i"
        with m(4) [of v] m(5) [of v] e' show False
          unfolding edge edge' by (cases "v \<in> set (inf_idxs P ss)") (auto simp: mk_open_def simp del: inf_idxs_simps)
      qed
      with e'(1) m(3) new have w: "w \<in> set (inf_idxs P ss)" unfolding edge' by (simp del: inf_idxs_simps)
      then have "w \<noteq> i" using expands_dom(3) [OF ok e] by blast
      with m(4) [OF this w] show ?thesis unfolding edge' by (simp add: mk_open_def)
    qed
    show "tg_valid (prf_graph Q P') v w = tg_valid (prf_graph Q P) v w"
      "tg_prog (prf_graph Q P') v w = tg_prog (prf_graph Q P) v w" if "tg_edge (prf_graph Q P) v w" for v w
      using prf_graph_pairs [OF same [OF that]] by blast+
  qed
qed

section \<open>The check during a search\<close>

text \<open>
  During a search the cache also holds answers for proofs beyond the limits of the checker.
  It is right about the proofs within the limits.
\<close>

definition key_fits :: "(nat \<Rightarrow> int) \<Rightarrow> abs_proof \<Rightarrow> bool" where
  "key_fits ceil_log p \<longleftrightarrow>
     abs_ok p \<and> abs_closed p \<and> abs_in_range p \<and> im_mem 0 p \<and> log_ok ceil_log (length p)"

definition env_right :: "(nat \<Rightarrow> int) \<Rightarrow> cache \<times> 'b checker \<Rightarrow> bool" where
  "env_right ceil_log s \<longleftrightarrow>
     snd s = idle \<and> (\<forall>(key, r) \<in> set (fst s). key_fits ceil_log key \<longrightarrow> r = gtc (abs_graph key) 0)"

lemma mc_check_proof_idle: "mc_check_proof B S ceil_log init p st = Inr (r, st') \<Longrightarrow> st' = idle"
  by (auto simp: mc_check_proof_def Let_def bindE_eq_Inr destroy_aut_def with_proof_def idle_def split: option.splits)

lemma cache_find_fits:
  assumes "\<forall>a b. same a b \<longrightarrow> a = b" and "env_right ceil_log (c, st)" and "cache_find same key c = Some r"
    and "key_fits ceil_log key"
  shows "r = gtc (abs_graph key) 0"
proof -
  obtain e where e: "find (\<lambda>(k, _). same k key) c = Some e" "r = snd e"
    using assms(3) by (auto simp: cache_find_def)
  from e(1) have "e \<in> set c" "same (fst e) key" by (auto simp: find_Some_iff in_set_conv_nth)
  with assms(1,2,4) e(2) show ?thesis unfolding env_right_def by (auto simp: case_prod_unfold)
qed

context spot_library
begin

lemma check_proof_search:
  assumes same: "\<forall>a b. same a b \<longrightarrow> a = b" and env: "env_right ceil_log (c, st)"
    and r: "check_proof B S ceil_log same 0 prf (c, st) = Inr (b, s')"
  shows "env_right ceil_log s' \<and>
    (abs_ok prf \<and> abs_in_range prf \<and> (\<forall>n. 0 < n \<and> n \<le> length prf \<longrightarrow> log_ok ceil_log n) \<and> im_mem 0 prf \<longrightarrow>
      b = gtc (abs_graph prf) 0)"
proof (cases "prf = []")
  case True
  with r env show ?thesis by (auto simp: check_proof_def im_mem_def)
next
  case ne: False
  obtain aprf where v: "valid prf 0 = Inr True" and a: "minimize_abs_proof prf 0 = Inr aprf"
    using r ne by (auto simp: check_proof_def bindE_eq_Inr asserting_eq_Inr)
  text \<open>Within the limits, the minimised proof is within them and has the same answer.\<close>
  have min: "aprf \<noteq> [] \<and> key_fits ceil_log aprf \<and> gtc (abs_graph aprf) 0 = gtc (abs_graph prf) 0"
    if ok: "abs_ok prf" and range: "abs_in_range prf" and log: "\<forall>n. 0 < n \<and> n \<le> length prf \<longrightarrow> log_ok ceil_log n"
      and 0: "im_mem 0 prf"
  proof -
    have cl: "abs_closed prf" using v by (simp add: valid_iff [OF ok])
    obtain a' where a': "minimize_abs_proof prf 0 = Inr a'" "min_rel prf a' {0}" "im_mem 0 a'"
      using minimize_ok [OF ok cl, of 0] 0 by blast
    then have "aprf = a'" using a by simp
    moreover have "a' \<noteq> []" using a'(3) by (auto simp: im_mem_iff)
    ultimately show ?thesis
      using min_relD(1-3) [OF a'(2)] min_rel_range [OF a'(2) range] min_rel_length [OF a'(2) ok] a'(3) log
      by (simp add: key_fits_def)
  qed
  show ?thesis
  proof (cases "aprf = []")
    case True
    with r ne v a min env show ?thesis by (auto simp: check_proof_def)
  next
    case ne': False
    have v': "valid aprf 0 = Inr True"
      using r ne v a ne' by (auto simp: check_proof_def bindE_eq_Inr asserting_eq_Inr)
    show ?thesis
    proof (cases "cache_find same aprf c")
      case (Some b')
      with r ne v a ne' v' have "b = b'" "s' = (c, st)" by (auto simp: check_proof_def)
      with cache_find_fits [OF same env Some] min env show ?thesis by blast
    next
      case None
      obtain st' where mc: "mc_check_proof B S ceil_log 0 aprf st = Inr (b, st')" and s': "s' = ((aprf, b) # c, st')"
        using r ne v a ne' v' None by (auto simp: check_proof_def bindE_eq_Inr)
      have idle: "st = idle" using env by (simp add: env_right_def)
      have b: "b = gtc (abs_graph aprf) 0" if "key_fits ceil_log aprf"
        using that mc mc_check_proof_ok [of aprf 0 ceil_log] unfolding key_fits_def idle by simp
      have "env_right ceil_log s'"
        using env b mc_check_proof_idle [OF mc] by (auto simp: env_right_def s')
      with min b show ?thesis by blast
    qed
  qed
qed

lemma prf_check_search:
  assumes same: "\<forall>a b. same a b \<longrightarrow> a = b" and laws: "sequent_laws Q" and ok: "prf_ok Q P"
    and env: "env_right ceil_log s" and r: "prf_check Q B S ceil_log same P s = Inr (b, s')"
  shows "env_right ceil_log s' \<and> (prf_fits Q ceil_log P \<longrightarrow> b = gtc (prf_graph Q P) 0)"
proof -
  obtain ap c st where s: "s = (c, st)" and c: "check_proof B S ceil_log same 0 ap (c, st) = Inr (b, s')"
    using r by (cases s) (auto simp: prf_check_def bindE_eq_Inr)
  note search = check_proof_search [OF same env [unfolded s]]
  have fin: "check_proof B S ceil_log same 0 (abs_of Q P) (c, st) = Inr (b, s')" if "prf_finite P"
    using r by (simp only: prf_check_eq [OF laws ok that] s)
  have "im_mem 0 (abs_of Q P)"
    using prf_ok_root [OF ok] by (auto simp: im_mem_map_of abs_of_lookup)
  then have "b = gtc (prf_graph Q P) 0" if "prf_fits Q ceil_log P"
    using that search [OF fin] abs_of_ok [OF laws ok] by (simp add: prf_fits_def prf_graph_def)
  with search [OF c] show ?thesis by blast
qed

end

end
