(* ===== verification/Effects.thy ===== *)
theory Effects
  imports Prelude
begin

text \<open>
  Code that may raise an exception and changes a state: a function from the state to a result
  and the state in which the code stopped. An exception keeps the state changes made before
  it was raised, which matters to a handler. The list functions of the prover with a
  function argument of this kind visit the elements in order.
\<close>

section \<open>Exceptions and state\<close>

type_synonym ('a, 's) eff = "'s \<Rightarrow> 'a result \<times> 's"

named_theorems eff_rules

definition returnM :: "'a \<Rightarrow> ('a, 's) eff" where
  "returnM a s = (Inr a, s)"

definition bindM :: "('a, 's) eff \<Rightarrow> ('a \<Rightarrow> ('b, 's) eff) \<Rightarrow> ('b, 's) eff" where
  "bindM m k s = (case m s of (Inl e, s') \<Rightarrow> (Inl e, s') | (Inr a, s') \<Rightarrow> k a s')"

text \<open>Code that raises but does not touch the state.\<close>

definition liftM :: "'a result \<Rightarrow> ('a, 's) eff" where
  "liftM r s = (r, s)"

text \<open>Code that gives up its state when it raises: an exception leaves the old state.\<close>

definition stateM :: "('s \<Rightarrow> ('a \<times> 's) result) \<Rightarrow> ('a, 's) eff" where
  "stateM f s = (case f s of Inl e \<Rightarrow> (Inl e, s) | Inr (a, s') \<Rightarrow> (Inr a, s'))"

text \<open>\<^verbatim>\<open>assert b; m\<close>.\<close>

definition assertM :: "string \<Rightarrow> bool \<Rightarrow> ('a, 's) eff \<Rightarrow> ('a, 's) eff" where
  "assertM w b m = (if b then m else liftM (Inl (Assert_failure w)))"

text \<open>Recursion below a bind and below an assertion.\<close>

lemma bindM_cong [fundef_cong]:
  assumes "m s = m' s" and "\<And>a s'. m' s = (Inr a, s') \<Longrightarrow> k a s' = k' a s'"
  shows "bindM m k s = bindM m' k' s"
  using assms by (auto simp: bindM_def split: prod.split sum.split)

lemma assertM_cong [fundef_cong]: "b = b' \<Longrightarrow> (b' \<Longrightarrow> m s = m' s) \<Longrightarrow> assertM w b m s = assertM w b' m' s"
  by (simp add: assertM_def)

text \<open>\<^verbatim>\<open>try m with Invalid_argument _ -> a\<close>.\<close>

definition catch_invalid :: "('a, 's) eff \<Rightarrow> 'a \<Rightarrow> ('a, 's) eff" where
  "catch_invalid m a s =
     (case m s of
        (Inl (Invalid_argument _), s') \<Rightarrow> (Inr a, s')
      | (r, s') \<Rightarrow> (r, s'))"

section \<open>Lists\<close>

fun mapM :: "('a \<Rightarrow> ('b, 's) eff) \<Rightarrow> 'a list \<Rightarrow> ('b list, 's) eff" where
  "mapM f [] = returnM []"
| "mapM f (x # xs) = bindM (f x) (\<lambda>y. bindM (mapM f xs) (\<lambda>ys. returnM (y # ys)))"

text \<open>\<^verbatim>\<open>Blist.bind\<close>, that is \<^verbatim>\<open>flatten (map f xs)\<close>.\<close>

definition bind_list :: "('a \<Rightarrow> ('b list, 's) eff) \<Rightarrow> 'a list \<Rightarrow> ('b list, 's) eff" where
  "bind_list f xs = bindM (mapM f xs) (\<lambda>yss. returnM (concat yss))"

fun filterM :: "('a \<Rightarrow> (bool, 's) eff) \<Rightarrow> 'a list \<Rightarrow> ('a list, 's) eff" where
  "filterM p [] = returnM []"
| "filterM p (x # xs) = bindM (p x) (\<lambda>b. bindM (filterM p xs) (\<lambda>ys. returnM (if b then x # ys else ys)))"

fun find_optM :: "('a \<Rightarrow> (bool, 's) eff) \<Rightarrow> 'a list \<Rightarrow> ('a option, 's) eff" where
  "find_optM p [] = returnM None"
| "find_optM p (x # xs) = bindM (p x) (\<lambda>b. if b then returnM (Some x) else find_optM p xs)"

fun find_mapM :: "('a \<Rightarrow> ('b option, 's) eff) \<Rightarrow> 'a list \<Rightarrow> ('b option, 's) eff" where
  "find_mapM f [] = returnM None"
| "find_mapM f (x # xs) = bindM (f x) (\<lambda>r. case r of None \<Rightarrow> find_mapM f xs | Some y \<Rightarrow> returnM (Some y))"

fun foldM :: "('b \<Rightarrow> 'a \<Rightarrow> ('b, 's) eff) \<Rightarrow> 'b \<Rightarrow> 'a list \<Rightarrow> ('b, 's) eff" where
  "foldM f a [] = returnM a"
| "foldM f a (x # xs) = bindM (f a x) (\<lambda>b. foldM f b xs)"

text \<open>\<^verbatim>\<open>List.fold_left2\<close>, which notices different lengths when one list is exhausted.\<close>

fun fold_left2M :: "('c \<Rightarrow> 'a \<Rightarrow> 'b \<Rightarrow> ('c, 's) eff) \<Rightarrow> 'c \<Rightarrow> 'a list \<Rightarrow> 'b list \<Rightarrow> ('c, 's) eff" where
  "fold_left2M f c [] [] = returnM c"
| "fold_left2M f c (x # xs) (y # ys) = bindM (f c x y) (\<lambda>d. fold_left2M f d xs ys)"
| "fold_left2M f c _ _ = liftM (Inl (Invalid_argument ''List.fold_left2''))"

section \<open>Contracts\<close>

text \<open>
  \<open>ensures I m Q\<close>: from a state with the invariant \<open>I\<close>, the code stops in a state with the
  invariant, whether it returns or raises, and what it returns satisfies \<open>Q\<close>.
\<close>

definition ensures :: "('s \<Rightarrow> bool) \<Rightarrow> ('a, 's) eff \<Rightarrow> ('a \<Rightarrow> bool) \<Rightarrow> bool" where
  "ensures I m Q \<longleftrightarrow> (\<forall>s. I s \<longrightarrow> I (snd (m s)) \<and> (\<forall>a. fst (m s) = Inr a \<longrightarrow> Q a))"

lemma ensuresD: "ensures I m Q \<Longrightarrow> I s \<Longrightarrow> m s = (r, s') \<Longrightarrow> I s' \<and> (\<forall>a. r = Inr a \<longrightarrow> Q a)"
  unfolding ensures_def by (metis fst_conv snd_conv)

lemma ensures_mono: "ensures I m Q \<Longrightarrow> (\<And>a. Q a \<Longrightarrow> R a) \<Longrightarrow> ensures I m R"
  unfolding ensures_def by blast

lemma ensures_return [eff_rules]: "Q a \<Longrightarrow> ensures I (returnM a) Q"
  by (simp add: ensures_def returnM_def)

lemma ensures_lift [eff_rules]: "(\<And>a. r = Inr a \<Longrightarrow> Q a) \<Longrightarrow> ensures I (liftM r) Q"
  by (simp add: ensures_def liftM_def)

lemma ensures_state:
  assumes "\<And>s a s'. I s \<Longrightarrow> f s = Inr (a, s') \<Longrightarrow> I s' \<and> Q a"
  shows "ensures I (stateM f) Q"
  unfolding ensures_def stateM_def using assms by (auto split: sum.split prod.split)

lemma ensures_bind:
  assumes "ensures I m Q" and "\<And>a. Q a \<Longrightarrow> ensures I (k a) R"
  shows "ensures I (bindM m k) R"
  unfolding ensures_def
proof (intro allI impI)
  fix s assume s: "I s"
  obtain r s' where m: "m s = (r, s')" by fastforce
  from ensuresD [OF assms(1) s m] have s': "I s'" and Q: "\<forall>a. r = Inr a \<longrightarrow> Q a" by auto
  show "I (snd (bindM m k s)) \<and> (\<forall>a. fst (bindM m k s) = Inr a \<longrightarrow> R a)"
  proof (cases r)
    case (Inr a)
    with Q assms(2) [of a] s' show ?thesis unfolding ensures_def by (simp add: bindM_def m)
  qed (simp add: bindM_def m s')
qed

lemma ensures_catch [eff_rules]: "ensures I m Q \<Longrightarrow> Q a \<Longrightarrow> ensures I (catch_invalid m a) Q"
  unfolding ensures_def catch_invalid_def by (auto split: prod.split sum.split error.split)

lemma ensures_map:
  assumes "\<And>x. x \<in> set xs \<Longrightarrow> ensures I (f x) Q"
  shows "ensures I (mapM f xs) (\<lambda>ys. \<forall>y\<in>set ys. Q y)"
  using assms
proof (induction xs)
  case (Cons x xs)
  have "ensures I (mapM f xs) (\<lambda>ys. \<forall>y\<in>set ys. Q y)" by (rule Cons.IH) (simp add: Cons.prems)
  then show ?case
    by (auto intro!: ensures_bind [OF Cons.prems] ensures_bind [of I "mapM f xs"] ensures_return)
qed (simp add: ensures_return)

lemma ensures_bind_list:
  assumes "\<And>x. x \<in> set xs \<Longrightarrow> ensures I (f x) (\<lambda>ys. \<forall>y\<in>set ys. Q y)"
  shows "ensures I (bind_list f xs) (\<lambda>ys. \<forall>y\<in>set ys. Q y)"
  unfolding bind_list_def by (rule ensures_bind [OF ensures_map [OF assms]]) (auto intro!: ensures_return)

lemma ensures_filter:
  assumes "\<And>x. x \<in> set xs \<Longrightarrow> ensures I (p x) (\<lambda>b. b \<longrightarrow> Q x)"
  shows "ensures I (filterM p xs) (\<lambda>ys. \<forall>y\<in>set ys. Q y)"
  using assms
proof (induction xs)
  case (Cons x xs)
  have "ensures I (filterM p xs) (\<lambda>ys. \<forall>y\<in>set ys. Q y)" by (rule Cons.IH) (simp add: Cons.prems)
  then show ?case
    by (auto intro!: ensures_bind [OF Cons.prems] ensures_bind [of I "filterM p xs"] ensures_return split: if_splits)
qed (simp add: ensures_return)

lemma ensures_find_opt:
  assumes "\<And>x. x \<in> set xs \<Longrightarrow> ensures I (p x) (\<lambda>b. b \<longrightarrow> Q x)"
  shows "ensures I (find_optM p xs) (\<lambda>r. \<forall>y. r = Some y \<longrightarrow> Q y)"
  using assms
proof (induction xs)
  case (Cons x xs)
  have "ensures I (find_optM p xs) (\<lambda>r. \<forall>y. r = Some y \<longrightarrow> Q y)" by (rule Cons.IH) (simp add: Cons.prems)
  then show ?case by (auto intro!: ensures_bind [OF Cons.prems] ensures_return)
qed (simp add: ensures_return)

lemma ensures_find_map:
  assumes "\<And>x. x \<in> set xs \<Longrightarrow> ensures I (f x) (\<lambda>r. \<forall>y. r = Some y \<longrightarrow> Q y)"
  shows "ensures I (find_mapM f xs) (\<lambda>r. \<forall>y. r = Some y \<longrightarrow> Q y)"
  using assms
proof (induction xs)
  case (Cons x xs)
  have "ensures I (find_mapM f xs) (\<lambda>r. \<forall>y. r = Some y \<longrightarrow> Q y)" by (rule Cons.IH) (simp add: Cons.prems)
  then show ?case by (auto intro!: ensures_bind [OF Cons.prems] ensures_return split: option.split)
qed (simp add: ensures_return)

text \<open>The invariant of a fold may speak of the elements that are left.\<close>

lemma ensures_fold:
  assumes "J a xs" and "\<And>a x xs. J a (x # xs) \<Longrightarrow> ensures I (f a x) (\<lambda>b. J b xs)"
  shows "ensures I (foldM f a xs) (\<lambda>b. J b [])"
  using assms(1)
proof (induction xs arbitrary: a)
  case (Cons x xs)
  show ?case unfolding foldM.simps
    by (rule ensures_bind [OF assms(2) [OF Cons.prems]]) (rule Cons.IH)
qed (simp add: ensures_return)

lemma ensures_fold_left2:
  assumes "J a ys" and "\<And>a x y ys. x \<in> set xs \<Longrightarrow> J a (y # ys) \<Longrightarrow> ensures I (f a x y) (\<lambda>b. J b ys)"
  shows "ensures I (fold_left2M f a xs ys) (\<lambda>b. J b [])"
  using assms
proof (induction f a xs ys rule: fold_left2M.induct)
  case (2 f c x xs y ys)
  show ?case unfolding fold_left2M.simps
    by (rule ensures_bind [OF 2(3)]) (use 2 in auto)
qed (auto intro: ensures_return ensures_lift)

text \<open>
  The same for one run, and with the demand that the code returns if \<open>t\<close> is set.
\<close>

definition meets :: "bool \<Rightarrow> ('s \<Rightarrow> bool) \<Rightarrow> ('a \<Rightarrow> bool) \<Rightarrow> 'a result \<times> 's \<Rightarrow> bool" where
  "meets t I Q r \<longleftrightarrow> I (snd r) \<and> (\<forall>a. fst r = Inr a \<longrightarrow> Q a) \<and> (t \<longrightarrow> (\<exists>a. fst r = Inr a))"

lemma meets_ensures: "ensures I m Q \<longleftrightarrow> (\<forall>s. I s \<longrightarrow> meets False I Q (m s))"
  by (simp add: ensures_def meets_def)

lemma meets_return: "I s \<Longrightarrow> Q a \<Longrightarrow> meets t I Q (returnM a s)"
  by (simp add: meets_def returnM_def)

lemma meets_assert: "b \<Longrightarrow> meets t I Q (m s) \<Longrightarrow> meets t I Q (assertM w b m s)"
  by (simp add: assertM_def)

lemma meets_bind:
  assumes "meets t I Q (m s)" and "\<And>a s'. m s = (Inr a, s') \<Longrightarrow> Q a \<Longrightarrow> I s' \<Longrightarrow> meets t I R (k a s')"
  shows "meets t I R (bindM m k s)"
proof -
  obtain r s' where r: "m s = (r, s')" by fastforce
  show ?thesis
  proof (cases r)
    case (Inr a)
    with assms r show ?thesis by (simp add: bindM_def meets_def)
  next
    case (Inl e)
    with assms(1) r show ?thesis by (simp add: bindM_def meets_def)
  qed
qed

end
