(* ===== verification/Prover_Rules.thy ===== *)
theory Prover_Rules
  imports Prover_Check Effects
begin

text \<open>
  The rules of the prover (proofrule.ml): functions that take an open node of a proof and
  return the proofs that result from the ways in which they apply, each with its new open
  nodes. The theory has the rules made from axioms, inferences and back-links, the
  combinators of rules, and the contract of a rule that all combinators keep.
\<close>

section \<open>Definitions\<close>

text \<open>
  A rule may run the soundness check, which changes the driver's cache and the C++ checker.
  The functions that a rule is made from belong to a logic. They may raise exceptions and
  run checks of their own, so they have the same effects.
\<close>

type_synonym 'b env = "cache \<times> 'b checker"
type_synonym ('q, 'b) rule = "int \<Rightarrow> 'q proof_t \<Rightarrow> ((int list \<times> 'q proof_t) list, 'b env) eff"
type_synonym 'q infrule_app = "('q \<times> tagpairs \<times> tagpairs) list \<times> string"
type_synonym 'q select_f = "int \<Rightarrow> 'q proof_t \<Rightarrow> int list result"

definition mk_axiom :: "'q sequent_sig \<Rightarrow> ('q \<Rightarrow> (string option, 'b env) eff) \<Rightarrow> ('q, 'b) rule" where
  "mk_axiom Q ax_f idx prf =
     bindM (liftM (prf_get_seq idx prf)) (\<lambda>seq.
     bindM (ax_f seq) (\<lambda>r. case r of
       None \<Rightarrow> returnM []
     | Some descr \<Rightarrow> bindM (liftM (add_axiom Q idx descr prf)) (\<lambda>prf'. returnM [([], prf')])))"

definition mk_infrule :: "'q sequent_sig \<Rightarrow> ('q \<Rightarrow> ('q infrule_app list, 'b env) eff) \<Rightarrow> ('q, 'b) rule" where
  "mk_infrule Q r_f idx prf =
     bindM (liftM (prf_get_seq idx prf)) (\<lambda>seq.
     bindM (r_f seq) (\<lambda>apps. liftM (mapE (\<lambda>(l, d). add_inf Q idx d l prf) apps)))"

definition check_app ::
  "'q sequent_sig \<Rightarrow> 'b bdd_pkg \<Rightarrow> ('b, 'g) spot_pkg \<Rightarrow> (nat \<Rightarrow> int) \<Rightarrow> (abs_proof \<Rightarrow> abs_proof \<Rightarrow> bool) \<Rightarrow>
   int list \<times> 'q proof_t \<Rightarrow> (bool, 'b env) eff" where
  "check_app Q B S ceil_log same = (\<lambda>(_, p). stateM (prf_check Q B S ceil_log same p))"

definition mk_backrule ::
  "'q sequent_sig \<Rightarrow> 'b bdd_pkg \<Rightarrow> ('b, 'g) spot_pkg \<Rightarrow> (nat \<Rightarrow> int) \<Rightarrow> (abs_proof \<Rightarrow> abs_proof \<Rightarrow> bool) \<Rightarrow>
   bool \<Rightarrow> 'q select_f \<Rightarrow> ('q \<Rightarrow> 'q \<Rightarrow> ((tagpairs \<times> string) list, 'b env) eff) \<Rightarrow> ('q, 'b) rule" where
  "mk_backrule Q B S ceil_log same greedy sel_f br_f srcidx prf =
     bindM (liftM (prf_get_seq srcidx prf)) (\<lambda>srcseq.
     bindM (liftM (sel_f srcidx prf)) (\<lambda>trgidxs.
     bindM (bind_list (\<lambda>trgidx.
       bindM (liftM (prf_get_seq trgidx prf)) (\<lambda>trgseq.
       bindM (br_f srcseq trgseq) (\<lambda>links.
       liftM (mapE (\<lambda>(vtts, d). bindE (add_backlink Q srcidx d trgidx vtts prf) (\<lambda>p. Inr ([], p))) links)))) trgidxs) (\<lambda>apps.
     if greedy then
       bindM (find_optM (check_app Q B S ceil_log same) apps) (\<lambda>r. returnM (case r of None \<Rightarrow> [] | Some x \<Rightarrow> [x]))
     else filterM (check_app Q B S ceil_log same) apps)))"

definition all_nodes :: "'q select_f" where
  "all_nodes srcidx prf = Inr (filter (\<lambda>idx. idx \<noteq> srcidx) (map fst (prf_to_list prf)))"

definition closed_nodes :: "'q select_f" where
  "closed_nodes srcidx prf =
     Inr (map fst (filter (\<lambda>(idx, n). \<not> is_open n \<and> idx \<noteq> srcidx) (prf_to_list prf)))"

definition ancestor_nodes :: "'q select_f" where
  "ancestor_nodes srcidx prf = bindE (get_ancestry srcidx prf) (\<lambda>l. Inr (map fst l))"

definition syntactically_equal_nodes :: "'q sequent_sig \<Rightarrow> 'q select_f" where
  "syntactically_equal_nodes Q srcidx prf =
     bindE (prf_get_seq srcidx prf) (\<lambda>seq.
     Inr (map fst (filter (\<lambda>(idx, n). seq_equal Q seq (node_get_seq n) \<and> idx \<noteq> srcidx) (prf_to_list prf))))"

definition rule_fail :: "('q, 'b) rule" where
  "rule_fail idx prf = returnM []"

definition apply_to_subgoals_pairwise ::
  "('q, 'b) rule list \<Rightarrow> int list \<times> 'q proof_t \<Rightarrow> ((int list \<times> 'q proof_t) list, 'b env) eff" where
  "apply_to_subgoals_pairwise rules = (\<lambda>(subgoals, prf).
     catch_invalid
       (fold_left2M (\<lambda>apps r idx.
          bind_list (\<lambda>(opened, oldprf).
            bindM (r idx oldprf) (\<lambda>new. returnM (map (\<lambda>(newsubgoals, newprf). (opened @ newsubgoals, newprf)) new))) apps)
        [([], prf)] rules subgoals)
       [])"

definition rule_compose :: "('q, 'b) rule \<Rightarrow> ('q, 'b) rule \<Rightarrow> ('q, 'b) rule" where
  "rule_compose r r' idx prf =
     bindM (r idx prf) (bind_list (\<lambda>res. apply_to_subgoals_pairwise (replicate (length (fst res)) r') res))"

definition compose_pairwise :: "('q, 'b) rule \<Rightarrow> ('q, 'b) rule list \<Rightarrow> ('q, 'b) rule" where
  "compose_pairwise r rs idx prf = bindM (r idx prf) (bind_list (apply_to_subgoals_pairwise rs))"

definition rule_choice :: "('q, 'b) rule list \<Rightarrow> ('q, 'b) rule" where
  "rule_choice rl idx prf = bind_list (\<lambda>f. f idx prf) rl"

fun rule_first :: "('q, 'b) rule list \<Rightarrow> ('q, 'b) rule" where
  "rule_first [] idx prf = returnM []"
| "rule_first (r # rs) idx prf =
     bindM (r idx prf) (\<lambda>apps. if apps \<noteq> [] then returnM apps else rule_first rs idx prf)"

definition rule_identity :: "('q, 'b) rule" where
  "rule_identity idx prf = returnM [([idx], prf)]"

definition rule_attempt :: "('q, 'b) rule \<Rightarrow> ('q, 'b) rule" where
  "rule_attempt r idx prf =
     bindM (r idx prf) (\<lambda>apps. if apps \<noteq> [] then returnM apps else rule_identity idx prf)"

fun rule_sequence :: "('q, 'b) rule list \<Rightarrow> ('q, 'b) rule" where
  "rule_sequence [] = rule_identity"
| "rule_sequence (r # rs) = rule_compose r (rule_sequence rs)"

definition rule_conditional :: "('q \<Rightarrow> bool) \<Rightarrow> ('q, 'b) rule \<Rightarrow> ('q, 'b) rule" where
  "rule_conditional cond r idx prf =
     bindM (liftM (prf_get_seq idx prf)) (\<lambda>seq. if cond seq then r idx prf else returnM [])"

definition combine_axioms :: "('q, 'b) rule \<Rightarrow> ('q, 'b) rule \<Rightarrow> ('q, 'b) rule" where
  "combine_axioms ax rl = rule_first [ax, rule_compose rl (rule_attempt ax)]"

section \<open>The contract of a rule\<close>

text \<open>Nodes are never removed, and only open nodes change, keeping parent and sequent.\<close>

definition grows :: "'q proof_t \<Rightarrow> 'q proof_t \<Rightarrow> bool" where
  "grows P P' \<longleftrightarrow> length P \<le> length P' \<and>
     (\<forall>j x. map_of P j = Some x \<longrightarrow> (\<exists>y. map_of P' j = Some y \<and> fst y = fst x \<and>
        node_get_seq (snd y) = node_get_seq (snd x) \<and> (\<not> is_open (snd x) \<longrightarrow> y = x)))"

text \<open>From the open node \<open>i\<close> of \<open>P\<close> to the open nodes \<open>ss\<close> of \<open>P'\<close>; no other open node changes.\<close>

definition advances :: "'q proof_t \<Rightarrow> int \<Rightarrow> int list \<Rightarrow> 'q proof_t \<Rightarrow> bool" where
  "advances P i ss P' \<longleftrightarrow>
     grows P P' \<and> open_nodes P' = open_nodes P - {i} \<union> set ss \<and> set ss \<inter> (open_nodes P - {i}) = {} \<and> distinct ss"

text \<open>What holds of the proofs in a search: if a proof is within the limits of the checker, it is sound.\<close>

definition prf_sound :: "'q sequent_sig \<Rightarrow> (nat \<Rightarrow> int) \<Rightarrow> 'q proof_t \<Rightarrow> bool" where
  "prf_sound Q ceil_log P \<longleftrightarrow> prf_ok Q P \<and> (prf_fits Q ceil_log P \<longrightarrow> gtc (prf_graph Q P) 0)"

definition rule_ok :: "'q sequent_sig \<Rightarrow> (nat \<Rightarrow> int) \<Rightarrow> ('q, 'b) rule \<Rightarrow> bool" where
  "rule_ok Q ceil_log r \<longleftrightarrow>
     (\<forall>i P. prf_sound Q ceil_log P \<and> i \<in> open_nodes P \<longrightarrow>
        ensures (env_right ceil_log) (r i P)
          (\<lambda>apps. \<forall>app \<in> set apps. prf_sound Q ceil_log (snd app) \<and> advances P i (fst app) (snd app)))"

lemma grows_refl: "grows P P"
  by (simp add: grows_def)

lemma grows_trans: "grows P P1 \<Longrightarrow> grows P1 P2 \<Longrightarrow> grows P P2"
  unfolding grows_def by (meson le_trans) metis

lemma expands_grows:
  assumes ok: "prf_ok Q P" and e: "expands P i n ss P'"
  shows "grows P P'"
proof -
  obtain p m where m: "map_of P i = Some (p, m)" "is_open m" "node_get_seq n = node_get_seq m" "map_of P' i = Some (p, n)"
    "\<And>j. j \<noteq> i \<Longrightarrow> j \<notin> set (inf_idxs P ss) \<Longrightarrow> map_of P' j = map_of P j"
    using e by (rule expandsD) blast
  have "\<exists>y. map_of P' j = Some y \<and> fst y = fst x \<and> node_get_seq (snd y) = node_get_seq (snd x) \<and>
      (\<not> is_open (snd x) \<longrightarrow> y = x)" if x: "map_of P j = Some x" for j x
  proof -
    have "j \<in> dom (map_of P)" using x by blast
    then have "j \<notin> set (inf_idxs P ss)" unfolding prf_okD(3) [OF ok] by simp
    with m(1-4) m(5) [of j] x show ?thesis by (cases "j = i") auto
  qed
  with expands_dom(2) [OF assms] show ?thesis unfolding grows_def by simp
qed

lemma abs_in_range_of:
  assumes "im_wf P"
  shows "abs_in_range (abs_of Q P) \<longleftrightarrow>
    (\<forall>i x. map_of P i = Some x \<longrightarrow> c_range i \<and> (\<forall>t \<in> seq_tags Q (node_get_seq (snd x)). c_range (to_int t)))"
proof -
  have "abs_in_range (abs_of Q P) \<longleftrightarrow>
      (\<forall>e \<in> set P. c_range (fst e) \<and> (\<forall>t \<in> seq_tags Q (node_get_seq (snd (snd e))). c_range (to_int t)))"
    by (simp add: abs_in_range_def abs_of_def abs_node_def case_prod_unfold)
  also have "\<dots> \<longleftrightarrow> (\<forall>i x. (i, x) \<in> set P \<longrightarrow> c_range i \<and> (\<forall>t \<in> seq_tags Q (node_get_seq (snd x)). c_range (to_int t)))"
    by (metis fst_conv prod.collapse snd_conv)
  finally show ?thesis unfolding map_of_eq_Some_iff [OF im_wf_distinct [OF assms]] .
qed

text \<open>A proof within the limits has grown from proofs within the limits.\<close>

lemma grows_fits:
  assumes "grows P P'" and "im_wf P" "im_wf P'" and fits: "prf_fits Q ceil_log P'"
  shows "prf_fits Q ceil_log P"
proof -
  have keep: "\<exists>y. map_of P' j = Some y \<and> node_get_seq (snd y) = node_get_seq (snd x) \<and> (\<not> is_open (snd x) \<longrightarrow> y = x)"
    if "map_of P j = Some x" for j x
    using assms(1) that unfolding grows_def by blast
  have "node_finite (snd x)" if "map_of P j = Some x" for j x
  proof (cases "is_open (snd x)")
    case False
    with keep [OF that] have "map_of P' j = Some x" by auto
    with fits show ?thesis unfolding prf_fits_def prf_finite_def by blast
  qed (simp add: node_finite_def is_open_premises)
  moreover have "abs_in_range (abs_of Q P)"
    using keep fits unfolding prf_fits_def abs_in_range_of [OF assms(2)] abs_in_range_of [OF assms(3)] by metis
  moreover have "length P \<le> length P'" using assms(1) by (simp add: grows_def)
  ultimately show ?thesis using fits unfolding prf_fits_def prf_finite_def by auto
qed

lemma expands_advances:
  assumes ok: "prf_ok Q P" and e: "expands P i n ss P'"
  shows "advances P i (inf_idxs P ss) P'"
proof -
  have "open_nodes P \<subseteq> dom (map_of P)" by (auto simp: open_nodes_def)
  then have "set (inf_idxs P ss) \<inter> (open_nodes P - {i}) = {}" unfolding prf_okD(3) [OF ok] by auto
  with expands_grows [OF assms] expands_open [OF assms] show ?thesis unfolding advances_def by simp
qed

lemma prf_sound_expands:
  assumes s: "prf_sound Q ceil_log P" and e: "expands P i n ss P'" and f: "fits_node Q P n ss" and "\<not> is_backlink n"
  shows "prf_sound Q ceil_log P'"
proof -
  have ok: "prf_ok Q P" using s by (simp add: prf_sound_def)
  note ok' = expands_ok [OF ok e f]
  have "prf_fits Q ceil_log P' \<Longrightarrow> prf_fits Q ceil_log P"
    by (rule grows_fits [OF expands_grows [OF ok e] prf_okD(1) [OF ok] prf_okD(1) [OF ok']])
  with s ok' gtc_expands [OF ok e f assms(4)] show ?thesis by (simp add: prf_sound_def)
qed

lemma advances_refl: "i \<in> open_nodes P \<Longrightarrow> advances P i [i] P"
  by (auto simp: advances_def grows_refl)

lemma advances_step:
  assumes "advances P i (os @ s # rs) P1" and "advances P1 s ns P2"
  shows "advances P i ((os @ ns) @ rs) P2"
proof -
  let ?O = "open_nodes P - {i}" and ?o1 = "set os \<union> set rs"
  have o1: "open_nodes P1 = ?O \<union> insert s ?o1" "s \<notin> ?o1" "s \<notin> ?O" "?o1 \<inter> ?O = {}" "distinct os" "distinct rs"
    "set os \<inter> set rs = {}"
    using assms(1) by (auto simp: advances_def)
  then have r: "open_nodes P1 - {s} = ?O \<union> ?o1" by blast
  have "open_nodes P2 = ?O \<union> ?o1 \<union> set ns" "set ns \<inter> (?O \<union> ?o1) = {}" "distinct ns"
    using assms(2) unfolding advances_def r by blast+
  with o1(4-7) grows_trans [of P P1 P2] assms show ?thesis unfolding advances_def by auto
qed

lemma advances_open: "advances P i (os @ s # rs) P1 \<Longrightarrow> s \<in> open_nodes P1"
  by (auto simp: advances_def)

section \<open>Rules keep the contract\<close>

lemma rule_okD:
  assumes "rule_ok Q ceil_log r" and "prf_sound Q ceil_log P" and "i \<in> open_nodes P"
  shows "ensures (env_right ceil_log) (r i P)
    (\<lambda>apps. \<forall>app \<in> set apps. prf_sound Q ceil_log (snd app) \<and> advances P i (fst app) (snd app))"
  using assms unfolding rule_ok_def by blast

lemma prf_soundD: "prf_sound Q ceil_log P \<Longrightarrow> prf_ok Q P"
  by (simp add: prf_sound_def)

lemma add_axiom_sound:
  assumes s: "prf_sound Q ceil_log P" and "add_axiom Q i d P = Inr P'"
  shows "prf_sound Q ceil_log P' \<and> advances P i [] P'"
proof -
  note ok = prf_soundD [OF s]
  obtain q where e: "expands P i (AxiomNode q d) [] P'"
    using add_axiom_expands [OF assms(2) prf_okD(1) [OF ok]] by blast
  from prf_sound_expands [OF s e fits_axiom] expands_advances [OF ok e] show ?thesis by simp
qed

lemma add_inf_sound:
  assumes s: "prf_sound Q ceil_log P" and "add_inf Q i d goals P = Inr (idxs, P')"
  shows "prf_sound Q ceil_log P' \<and> advances P i idxs P'"
proof -
  note ok = prf_soundD [OF s]
  obtain q where e: "expands P i (inf_node P q d goals) (map fst goals) P'" and idxs: "idxs = inf_idxs P goals"
    using add_inf_expands [OF ok assms(2)] by blast
  have "inf_idxs P (map fst goals) = inf_idxs P goals" by (simp add: inf_idxs_def)
  with prf_sound_expands [OF s e fits_inf] expands_advances [OF ok e] idxs show ?thesis by (simp add: inf_node_def)
qed

lemma add_backlink_advances:
  assumes ok: "prf_ok Q P" and "add_backlink Q i d t vtts P = Inr P'"
  shows "prf_ok Q P' \<and> advances P i [] P'"
proof -
  obtain n where e: "expands P i n [] P'" and f: "fits_node Q P n []"
    using constructors_expand(2) [OF ok assms(2)] by blast
  from expands_ok [OF ok e f] expands_advances [OF ok e] show ?thesis by simp
qed

lemma mk_axiom_ok:
  assumes "\<And>s. ensures (env_right ceil_log) (ax_f s) (\<lambda>_. True)"
  shows "rule_ok Q ceil_log (mk_axiom Q ax_f)"
  unfolding rule_ok_def mk_axiom_def
proof (intro allI impI, elim conjE, rule ensures_bind [OF ensures_lift [where Q = "\<lambda>_. True"]])
  fix i P s assume sound: "prf_sound Q ceil_log P"
  have close: "ensures (env_right ceil_log) (bindM (liftM (add_axiom Q i d P)) (\<lambda>prf'. returnM [([], prf')]))
      (\<lambda>apps. \<forall>app \<in> set apps. prf_sound Q ceil_log (snd app) \<and> advances P i (fst app) (snd app))" for d
    by (rule ensures_bind [OF ensures_lift [where Q = "\<lambda>P'. prf_sound Q ceil_log P' \<and> advances P i [] P'"]])
      (auto intro!: add_axiom_sound [OF sound] ensures_return)
  show "ensures (env_right ceil_log) (bindM (ax_f s) (\<lambda>r. case r of None \<Rightarrow> returnM []
      | Some descr \<Rightarrow> bindM (liftM (add_axiom Q i descr P)) (\<lambda>prf'. returnM [([], prf')])))
      (\<lambda>apps. \<forall>app \<in> set apps. prf_sound Q ceil_log (snd app) \<and> advances P i (fst app) (snd app))"
    by (rule ensures_bind [OF assms]) (auto split: option.split intro: close ensures_return)
qed simp

lemma mk_infrule_ok:
  assumes "\<And>s. ensures (env_right ceil_log) (r_f s) (\<lambda>_. True)"
  shows "rule_ok Q ceil_log (mk_infrule Q r_f)"
  unfolding rule_ok_def mk_infrule_def
proof (intro allI impI, elim conjE, rule ensures_bind [OF ensures_lift [where Q = "\<lambda>_. True"]],
    simp, rule ensures_bind [OF assms], rule ensures_lift, intro ballI)
  fix i P apps ys app
  assume sound: "prf_sound Q ceil_log P" and ys: "mapE (\<lambda>(l, d). add_inf Q i d l P) apps = Inr ys" "app \<in> set ys"
  from mapE_mem [OF ys] obtain x where "(case x of (l, d) \<Rightarrow> add_inf Q i d l P) = Inr (fst app, snd app)" by auto
  then obtain l d where "add_inf Q i d l P = Inr (fst app, snd app)" by (cases x) auto
  from add_inf_sound [OF sound this] show "prf_sound Q ceil_log (snd app) \<and> advances P i (fst app) (snd app)" .
qed

context spot_library
begin

lemma check_app_ok:
  assumes "\<forall>a b. same a b \<longrightarrow> a = b" and "sequent_laws Q" and "prf_ok Q (snd app)"
  shows "ensures (env_right ceil_log) (check_app Q B S ceil_log same app) (\<lambda>b. b \<longrightarrow> prf_sound Q ceil_log (snd app))"
proof -
  have "ensures (env_right ceil_log) (stateM (prf_check Q B S ceil_log same (snd app)))
      (\<lambda>b. b \<longrightarrow> prf_sound Q ceil_log (snd app))"
    by (rule ensures_state) (use prf_check_search [OF assms] assms(3) in \<open>auto simp: prf_sound_def\<close>)
  then show ?thesis by (simp add: check_app_def case_prod_unfold)
qed

lemma mk_backrule_ok:
  assumes same: "\<forall>a b. same a b \<longrightarrow> a = b" and laws: "sequent_laws Q"
    and br: "\<And>s t. ensures (env_right ceil_log) (br_f s t) (\<lambda>_. True)"
  shows "rule_ok Q ceil_log (mk_backrule Q B S ceil_log same greedy sel_f br_f)"
  unfolding rule_ok_def
proof (intro allI impI, elim conjE)
  fix i P assume sound: "prf_sound Q ceil_log P"
  let ?R = "\<lambda>app. prf_ok Q (snd app) \<and> advances P i (fst app) (snd app)"
    and ?S = "\<lambda>app. prf_sound Q ceil_log (snd app) \<and> advances P i (fst app) (snd app)"
  have link: "?R app"
    if app: "mapE (\<lambda>(vtts, d). bindE (add_backlink Q i d t vtts P) (\<lambda>p. Inr ([], p))) links = Inr ys" "app \<in> set ys" for t links ys app
    using mapE_mem [OF app] add_backlink_advances [OF prf_soundD [OF sound]] by (auto simp: bindE_eq_Inr)
  have apps: "ensures (env_right ceil_log) (bindM (liftM (prf_get_seq t P)) (\<lambda>trgseq. bindM (br_f s trgseq) (\<lambda>links.
      liftM (mapE (\<lambda>(vtts, d). bindE (add_backlink Q i d t vtts P) (\<lambda>p. Inr ([], p))) links)))) (\<lambda>ys. \<forall>app \<in> set ys. ?R app)" for s t
    by (rule ensures_bind [OF ensures_lift [where Q = "\<lambda>_. True"]], simp, rule ensures_bind [OF br], rule ensures_lift)
      (use link in blast)
  have check: "ensures (env_right ceil_log) (check_app Q B S ceil_log same app) (\<lambda>b. b \<longrightarrow> ?S app)" if "?R app" for app
    using check_app_ok [OF same laws, of app ceil_log] that by (auto intro: ensures_mono)
  show "ensures (env_right ceil_log) (mk_backrule Q B S ceil_log same greedy sel_f br_f i P) (\<lambda>apps. \<forall>app \<in> set apps. ?S app)"
    unfolding mk_backrule_def
  proof (rule ensures_bind [OF ensures_lift [where Q = "\<lambda>_. True"]], simp,
      rule ensures_bind [OF ensures_lift [where Q = "\<lambda>_. True"]], simp,
      rule ensures_bind [OF ensures_bind_list [OF apps]])
    fix xs assume R: "\<forall>app \<in> set xs. ?R app"
    have "ensures (env_right ceil_log) (find_optM (check_app Q B S ceil_log same) xs) (\<lambda>r. \<forall>app. r = Some app \<longrightarrow> ?S app)"
      using R by (intro ensures_find_opt check) blast
    then have "ensures (env_right ceil_log) (bindM (find_optM (check_app Q B S ceil_log same) xs)
        (\<lambda>r. returnM (case r of None \<Rightarrow> [] | Some x \<Rightarrow> [x]))) (\<lambda>apps. \<forall>app \<in> set apps. ?S app)"
      by (rule ensures_bind) (auto intro!: ensures_return split: option.split)
    moreover have "ensures (env_right ceil_log) (filterM (check_app Q B S ceil_log same) xs) (\<lambda>apps. \<forall>app \<in> set apps. ?S app)"
      using R by (intro ensures_filter check) blast
    ultimately show "ensures (env_right ceil_log) (if greedy then bindM (find_optM (check_app Q B S ceil_log same) xs)
        (\<lambda>r. returnM (case r of None \<Rightarrow> [] | Some x \<Rightarrow> [x])) else filterM (check_app Q B S ceil_log same) xs)
        (\<lambda>apps. \<forall>app \<in> set apps. ?S app)" by simp
  qed
qed

end

section \<open>Combinators keep the contract\<close>

lemma rule_okI:
  assumes "\<And>i P. prf_sound Q ceil_log P \<Longrightarrow> i \<in> open_nodes P \<Longrightarrow> ensures (env_right ceil_log) (r i P)
    (\<lambda>apps. \<forall>app \<in> set apps. prf_sound Q ceil_log (snd app) \<and> advances P i (fst app) (snd app))"
  shows "rule_ok Q ceil_log r"
  using assms unfolding rule_ok_def by blast

lemma rule_fail_ok: "rule_ok Q ceil_log rule_fail"
  by (rule rule_okI) (simp add: rule_fail_def ensures_return)

lemma rule_identity_ok: "rule_ok Q ceil_log rule_identity"
  by (rule rule_okI) (simp add: rule_identity_def ensures_return advances_refl)

lemma apply_pairwise_ok:
  assumes rules: "\<And>r. r \<in> set rs \<Longrightarrow> rule_ok Q ceil_log r"
    and res: "prf_sound Q ceil_log (snd res)" "advances P i (fst res) (snd res)"
  shows "ensures (env_right ceil_log) (apply_to_subgoals_pairwise rs res)
    (\<lambda>apps. \<forall>app \<in> set apps. prf_sound Q ceil_log (snd app) \<and> advances P i (fst app) (snd app))"
proof -
  let ?J = "\<lambda>apps ys. \<forall>app \<in> set apps. prf_sound Q ceil_log (snd app) \<and> advances P i (fst app @ ys) (snd app)"
  let ?f = "\<lambda>apps r idx. bind_list (\<lambda>(opened, oldprf). bindM (r idx oldprf)
      (\<lambda>new. returnM (map (\<lambda>(newsubgoals, newprf). (opened @ newsubgoals, newprf)) new))) apps"
  have "ensures (env_right ceil_log) (fold_left2M ?f [([], snd res)] rs (fst res)) (\<lambda>apps. ?J apps [])"
  proof (rule ensures_fold_left2)
    show "?J [([], snd res)] (fst res)" using res by simp
    fix apps r s ss assume r: "r \<in> set rs" and J: "?J apps (s # ss)"
    show "ensures (env_right ceil_log) (?f apps r s) (\<lambda>apps'. ?J apps' ss)"
    proof (rule ensures_bind_list)
      fix app assume "app \<in> set apps"
      with J have a: "prf_sound Q ceil_log (snd app)" "advances P i (fst app @ s # ss) (snd app)" by auto
      have "ensures (env_right ceil_log) (bindM (r s (snd app)) (\<lambda>new. returnM (map (\<lambda>(ns, np). (fst app @ ns, np)) new)))
          (\<lambda>ys. \<forall>y \<in> set ys. prf_sound Q ceil_log (snd y) \<and> advances P i (fst y @ ss) (snd y))"
        by (rule ensures_bind [OF rule_okD [OF rules [OF r] a(1) advances_open [OF a(2)]]])
          (auto simp: case_prod_unfold simp del: append_assoc intro!: ensures_return advances_step [OF a(2)])
      then show "ensures (env_right ceil_log) (case app of (opened, oldprf) \<Rightarrow> bindM (r s oldprf)
          (\<lambda>new. returnM (map (\<lambda>(newsubgoals, newprf). (opened @ newsubgoals, newprf)) new)))
          (\<lambda>ys. \<forall>y \<in> set ys. prf_sound Q ceil_log (snd y) \<and> advances P i (fst y @ ss) (snd y))"
        by (simp add: case_prod_unfold)
    qed
  qed
  then show ?thesis unfolding apply_to_subgoals_pairwise_def by (auto simp: case_prod_unfold intro!: ensures_catch)
qed

lemma compose_pairwise_ok:
  assumes "rule_ok Q ceil_log r" and "\<And>r'. r' \<in> set rs \<Longrightarrow> rule_ok Q ceil_log r'"
  shows "rule_ok Q ceil_log (compose_pairwise r rs)"
  unfolding compose_pairwise_def
  by (rule rule_okI, rule ensures_bind [OF rule_okD [OF assms(1)]], assumption, assumption, rule ensures_bind_list)
    (use apply_pairwise_ok [OF assms(2)] in blast)

lemma rule_compose_ok:
  assumes "rule_ok Q ceil_log r" and "rule_ok Q ceil_log r'"
  shows "rule_ok Q ceil_log (rule_compose r r')"
  unfolding rule_compose_def
  by (rule rule_okI, rule ensures_bind [OF rule_okD [OF assms(1)]], assumption, assumption, rule ensures_bind_list,
      rule apply_pairwise_ok) (use assms(2) in auto)

lemma rule_choice_ok: "(\<And>r. r \<in> set rl \<Longrightarrow> rule_ok Q ceil_log r) \<Longrightarrow> rule_ok Q ceil_log (rule_choice rl)"
  unfolding rule_choice_def by (intro rule_okI ensures_bind_list) (rule rule_okD)

lemma rule_first_ok: "(\<And>r. r \<in> set rl \<Longrightarrow> rule_ok Q ceil_log r) \<Longrightarrow> rule_ok Q ceil_log (rule_first rl)"
proof (induction rl)
  case Nil
  show ?case by (rule rule_okI) (simp add: ensures_return)
next
  case (Cons r rl)
  have r: "rule_ok Q ceil_log r" "rule_ok Q ceil_log (rule_first rl)" using Cons by simp_all
  show ?case
  proof (rule rule_okI)
    fix i P assume P: "prf_sound Q ceil_log P" "i \<in> open_nodes P"
    show "ensures (env_right ceil_log) (rule_first (r # rl) i P)
        (\<lambda>apps. \<forall>app \<in> set apps. prf_sound Q ceil_log (snd app) \<and> advances P i (fst app) (snd app))"
      unfolding rule_first.simps
      by (rule ensures_bind [OF rule_okD [OF r(1) P]]) (use rule_okD [OF r(2) P] in \<open>auto intro: ensures_return\<close>)
  qed
qed

lemma rule_attempt_ok:
  assumes "rule_ok Q ceil_log r"
  shows "rule_ok Q ceil_log (rule_attempt r)"
proof (rule rule_okI)
  fix i P assume P: "prf_sound Q ceil_log P" "i \<in> open_nodes P"
  show "ensures (env_right ceil_log) (rule_attempt r i P)
      (\<lambda>apps. \<forall>app \<in> set apps. prf_sound Q ceil_log (snd app) \<and> advances P i (fst app) (snd app))"
    unfolding rule_attempt_def
    by (rule ensures_bind [OF rule_okD [OF assms P]])
      (use rule_okD [OF rule_identity_ok P] in \<open>auto intro: ensures_return\<close>)
qed

lemma rule_sequence_ok: "(\<And>r. r \<in> set rl \<Longrightarrow> rule_ok Q ceil_log r) \<Longrightarrow> rule_ok Q ceil_log (rule_sequence rl)"
  by (induction rl) (simp_all add: rule_identity_ok rule_compose_ok)

lemma rule_conditional_ok:
  assumes "rule_ok Q ceil_log r"
  shows "rule_ok Q ceil_log (rule_conditional cond r)"
  unfolding rule_conditional_def
  by (rule rule_okI, rule ensures_bind [OF ensures_lift [where Q = "\<lambda>_. True"]])
    (auto intro: ensures_return rule_okD [OF assms])

lemma combine_axioms_ok:
  assumes "rule_ok Q ceil_log ax" and "rule_ok Q ceil_log rl"
  shows "rule_ok Q ceil_log (combine_axioms ax rl)"
  unfolding combine_axioms_def
  by (rule rule_first_ok) (auto intro: assms rule_compose_ok rule_attempt_ok)

lemmas combinators_ok =
  rule_fail_ok rule_identity_ok rule_compose_ok compose_pairwise_ok rule_choice_ok rule_first_ok
  rule_attempt_ok rule_sequence_ok rule_conditional_ok combine_axioms_ok

section \<open>The rules that can be made\<close>

text \<open>
  The rules that a logic makes with the functions of the module from functions of its own.
  Of these it is required only that they leave the checker idle and the cache right; a
  function that runs no check does.
\<close>

inductive made_rule ::
  "'q sequent_sig \<Rightarrow> 'b bdd_pkg \<Rightarrow> ('b, 'g) spot_pkg \<Rightarrow> (nat \<Rightarrow> int) \<Rightarrow> (abs_proof \<Rightarrow> abs_proof \<Rightarrow> bool) \<Rightarrow>
   ('q, 'b) rule \<Rightarrow> bool"
  for Q B S ceil_log same where
  axiom: "\<forall>s. ensures (env_right ceil_log) (f s) (\<lambda>_. True) \<Longrightarrow> made_rule Q B S ceil_log same (mk_axiom Q f)"
| infrule: "\<forall>s. ensures (env_right ceil_log) (g s) (\<lambda>_. True) \<Longrightarrow> made_rule Q B S ceil_log same (mk_infrule Q g)"
| backrule: "\<forall>s t. ensures (env_right ceil_log) (h s t) (\<lambda>_. True) \<Longrightarrow>
    made_rule Q B S ceil_log same (mk_backrule Q B S ceil_log same greedy sel h)"
| fail: "made_rule Q B S ceil_log same rule_fail"
| identity: "made_rule Q B S ceil_log same rule_identity"
| attempt: "made_rule Q B S ceil_log same r \<Longrightarrow> made_rule Q B S ceil_log same (rule_attempt r)"
| compose: "made_rule Q B S ceil_log same r \<Longrightarrow> made_rule Q B S ceil_log same r' \<Longrightarrow>
    made_rule Q B S ceil_log same (rule_compose r r')"
| compose_pairwise: "made_rule Q B S ceil_log same r \<Longrightarrow> (\<And>r'. r' \<in> set rs \<Longrightarrow> made_rule Q B S ceil_log same r') \<Longrightarrow>
    made_rule Q B S ceil_log same (compose_pairwise r rs)"
| choice: "(\<And>r. r \<in> set rs \<Longrightarrow> made_rule Q B S ceil_log same r) \<Longrightarrow> made_rule Q B S ceil_log same (rule_choice rs)"
| first: "(\<And>r. r \<in> set rs \<Longrightarrow> made_rule Q B S ceil_log same r) \<Longrightarrow> made_rule Q B S ceil_log same (rule_first rs)"
| sequence: "(\<And>r. r \<in> set rs \<Longrightarrow> made_rule Q B S ceil_log same r) \<Longrightarrow> made_rule Q B S ceil_log same (rule_sequence rs)"
| conditional: "made_rule Q B S ceil_log same r \<Longrightarrow> made_rule Q B S ceil_log same (rule_conditional cond r)"
| combine: "made_rule Q B S ceil_log same ax \<Longrightarrow> made_rule Q B S ceil_log same r \<Longrightarrow>
    made_rule Q B S ceil_log same (combine_axioms ax r)"

context spot_library
begin

lemma made_rule_ok:
  assumes "made_rule Q B S ceil_log same r" and "\<forall>a b. same a b \<longrightarrow> a = b" and "sequent_laws Q"
  shows "rule_ok Q ceil_log r"
  using assms(1)
proof induction
  case (backrule h greedy sel)
  then show ?case by (intro mk_backrule_ok [OF assms(2,3)]) blast
qed (auto intro!: combinators_ok mk_axiom_ok mk_infrule_ok)

end

end
