(* ===== verification/Abd_Rules.thy ===== *)
theory Abd_Rules
  imports Prover_Rules
begin

text \<open>
  The rules of abduction (abdrule.ml): rules on proofs that also read and extend a set of
  inductive definitions. The type of the definitions is a parameter of the functor. The
  combinators keep the contract of rules on proofs.
\<close>

section \<open>Definitions\<close>

type_synonym ('q, 'd) abd_app = "(int list \<times> 'q proof_t) \<times> 'd"
type_synonym ('q, 'd, 'b) abdrule = "int \<Rightarrow> 'q proof_t \<Rightarrow> 'd \<Rightarrow> (('q, 'd) abd_app list, 'b env) eff"

definition mk_abdinfrule :: "('q \<Rightarrow> 'd \<Rightarrow> ('d list, 'b env) eff) \<Rightarrow> ('q, 'd, 'b) abdrule" where
  "mk_abdinfrule r idx prf defs =
     bindM (liftM (prf_get_seq idx prf)) (\<lambda>seq.
     bindM (r seq defs) (\<lambda>apps. returnM (map (\<lambda>newdefs. (([idx], prf), newdefs)) apps)))"

definition mk_abdbackrule :: "'q select_f \<Rightarrow> ('q \<Rightarrow> 'q \<Rightarrow> 'd \<Rightarrow> ('d list, 'b env) eff) \<Rightarrow> ('q, 'd, 'b) abdrule" where
  "mk_abdbackrule sel_f abr_f srcidx prf defs =
     bindM (liftM (prf_get_seq srcidx prf)) (\<lambda>srcseq.
     bindM (liftM (sel_f srcidx prf)) (\<lambda>trgidxs.
     bind_list (\<lambda>trgidx.
       bindM (liftM (prf_get_seq trgidx prf)) (\<lambda>trgseq.
       bindM (abr_f srcseq trgseq defs) (\<lambda>ds. returnM (map (\<lambda>defs'. (([srcidx], prf), defs')) ds)))) trgidxs))"

definition mk_abdgenrule ::
  "'q sequent_sig \<Rightarrow> ('q \<Rightarrow> 'd \<Rightarrow> (('q infrule_app \<times> 'd) list, 'b env) eff) \<Rightarrow> ('q, 'd, 'b) abdrule" where
  "mk_abdgenrule Q r idx prf defs =
     bindM (liftM (prf_get_seq idx prf)) (\<lambda>seq.
     bindM (r seq defs) (\<lambda>apps.
     liftM (mapE (\<lambda>((l, d), defs'). bindE (add_inf Q idx d l prf) (\<lambda>p. Inr (p, defs'))) apps)))"

definition abd_fail :: "('q, 'd, 'b) abdrule" where
  "abd_fail idx prf defs = returnM []"

definition abd_lift :: "('q, 'b) rule \<Rightarrow> ('q, 'd, 'b) abdrule" where
  "abd_lift r idx prf defs = bindM (r idx prf) (\<lambda>ps. returnM (map (\<lambda>p. (p, defs)) ps))"

definition abd_apply_to_subgoals ::
  "('q, 'd, 'b) abdrule \<Rightarrow> ('q, 'd) abd_app \<Rightarrow> (('q, 'd) abd_app list, 'b env) eff" where
  "abd_apply_to_subgoals r = (\<lambda>((subgoals, prf), defs).
     foldM (\<lambda>apps idx.
       bind_list (\<lambda>((opened, oldprf), olddefs).
         bindM (r idx oldprf olddefs) (\<lambda>new.
         returnM (map (\<lambda>((newsubgoals, newprf), newdefs). ((opened @ newsubgoals, newprf), newdefs)) new))) apps)
       [(([], prf), defs)] subgoals)"

definition abd_compose :: "('q, 'd, 'b) abdrule \<Rightarrow> ('q, 'd, 'b) abdrule \<Rightarrow> ('q, 'd, 'b) abdrule" where
  "abd_compose r r' idx prf defs = bindM (r idx prf defs) (bind_list (abd_apply_to_subgoals r'))"

definition abd_choice :: "('q, 'd, 'b) abdrule list \<Rightarrow> ('q, 'd, 'b) abdrule" where
  "abd_choice rl idx prf defs = bind_list (\<lambda>f. f idx prf defs) rl"

fun abd_first :: "('q, 'd, 'b) abdrule list \<Rightarrow> ('q, 'd, 'b) abdrule" where
  "abd_first [] idx prf defs = returnM []"
| "abd_first (r # rs) idx prf defs =
     bindM (r idx prf defs) (\<lambda>apps. if apps \<noteq> [] then returnM apps else abd_first rs idx prf defs)"

definition abd_attempt :: "('q, 'd, 'b) abdrule \<Rightarrow> ('q, 'd, 'b) abdrule" where
  "abd_attempt r idx prf defs =
     bindM (r idx prf defs) (\<lambda>apps. if apps \<noteq> [] then returnM apps else returnM [(([idx], prf), defs)])"

section \<open>The contract\<close>

definition abd_good :: "'q sequent_sig \<Rightarrow> (nat \<Rightarrow> int) \<Rightarrow> 'q proof_t \<Rightarrow> int \<Rightarrow> ('q, 'd) abd_app \<Rightarrow> bool" where
  "abd_good Q ceil_log P i app \<longleftrightarrow> prf_sound Q ceil_log (snd (fst app)) \<and> advances P i (fst (fst app)) (snd (fst app))"

definition abdrule_ok :: "'q sequent_sig \<Rightarrow> (nat \<Rightarrow> int) \<Rightarrow> ('q, 'd, 'b) abdrule \<Rightarrow> bool" where
  "abdrule_ok Q ceil_log r \<longleftrightarrow>
     (\<forall>i P d. prf_sound Q ceil_log P \<and> i \<in> open_nodes P \<longrightarrow>
        ensures (env_right ceil_log) (r i P d) (\<lambda>apps. \<forall>app \<in> set apps. abd_good Q ceil_log P i app))"

lemma abdrule_okI:
  assumes "\<And>i P d. prf_sound Q ceil_log P \<Longrightarrow> i \<in> open_nodes P \<Longrightarrow>
    ensures (env_right ceil_log) (r i P d) (\<lambda>apps. \<forall>app \<in> set apps. abd_good Q ceil_log P i app)"
  shows "abdrule_ok Q ceil_log r"
  using assms unfolding abdrule_ok_def by blast

lemma abdrule_okD:
  assumes "abdrule_ok Q ceil_log r" and "prf_sound Q ceil_log P" and "i \<in> open_nodes P"
  shows "ensures (env_right ceil_log) (r i P d) (\<lambda>apps. \<forall>app \<in> set apps. abd_good Q ceil_log P i app)"
  using assms unfolding abdrule_ok_def by blast

lemma abd_good_same: "prf_sound Q ceil_log P \<Longrightarrow> i \<in> open_nodes P \<Longrightarrow> abd_good Q ceil_log P i (([i], P), d)"
  by (simp add: abd_good_def advances_refl)

lemma ensures_lift_any: "ensures I (liftM r) (\<lambda>_. True)"
  by (rule ensures_lift) simp

lemma mk_abdinfrule_ok:
  assumes "\<And>s d. ensures (env_right ceil_log) (f s d) (\<lambda>_. True)"
  shows "abdrule_ok Q ceil_log (mk_abdinfrule f)"
  unfolding mk_abdinfrule_def
  by (rule abdrule_okI, rule ensures_bind [OF ensures_lift_any], rule ensures_bind [OF assms], rule ensures_return)
    (auto intro: abd_good_same)

lemma mk_abdbackrule_ok:
  assumes "\<And>s t d. ensures (env_right ceil_log) (f s t d) (\<lambda>_. True)"
  shows "abdrule_ok Q ceil_log (mk_abdbackrule sel f)"
  unfolding mk_abdbackrule_def
  by (rule abdrule_okI, rule ensures_bind [OF ensures_lift_any], rule ensures_bind [OF ensures_lift_any],
      rule ensures_bind_list, rule ensures_bind [OF ensures_lift_any], rule ensures_bind [OF assms], rule ensures_return)
    (auto intro: abd_good_same)

lemma mk_abdgenrule_ok:
  assumes "\<And>s d. ensures (env_right ceil_log) (f s d) (\<lambda>_. True)"
  shows "abdrule_ok Q ceil_log (mk_abdgenrule Q f)"
  unfolding mk_abdgenrule_def
proof (rule abdrule_okI, rule ensures_bind [OF ensures_lift_any], rule ensures_bind [OF assms], rule ensures_lift, rule ballI)
  fix i P d s apps ys app
  assume sound: "prf_sound Q ceil_log P"
    and ys: "mapE (\<lambda>((l, d), defs'). bindE (add_inf Q i d l P) (\<lambda>p. Inr (p, defs'))) apps = Inr ys" "app \<in> set ys"
  from mapE_mem [OF ys] obtain l d' where "add_inf Q i d' l P = Inr (fst (fst app), snd (fst app))"
    by (auto simp: bindE_eq_Inr)
  from add_inf_sound [OF sound this] show "abd_good Q ceil_log P i app" by (simp add: abd_good_def)
qed

lemma abd_fail_ok: "abdrule_ok Q ceil_log abd_fail"
  by (rule abdrule_okI) (simp add: abd_fail_def ensures_return)

lemma abd_lift_ok:
  assumes "rule_ok Q ceil_log r"
  shows "abdrule_ok Q ceil_log (abd_lift r)"
  unfolding abd_lift_def
  by (rule abdrule_okI, rule ensures_bind [OF rule_okD [OF assms]], assumption, assumption, rule ensures_return)
    (auto simp: abd_good_def)

lemma abd_apply_ok:
  fixes r :: "('q, 'd, 'b) abdrule"
  assumes r: "abdrule_ok Q ceil_log r" and res: "abd_good Q ceil_log P i res"
  shows "ensures (env_right ceil_log) (abd_apply_to_subgoals r res) (\<lambda>apps. \<forall>app \<in> set apps. abd_good Q ceil_log P i app)"
proof -
  obtain ss P1 d where res_eq: "res = ((ss, P1), d)" by (metis prod.collapse)
  let ?J = "\<lambda>(apps :: ('q, 'd) abd_app list) rest. \<forall>app \<in> set apps. abd_good Q ceil_log P i ((fst (fst app) @ rest, snd (fst app)), snd app)"
  have "ensures (env_right ceil_log) (abd_apply_to_subgoals r res) (\<lambda>apps. ?J apps [])"
    unfolding abd_apply_to_subgoals_def res_eq prod.case
  proof (rule ensures_fold [where J = ?J])
    show "?J [(([], P1), d)] ss" using res by (simp add: res_eq)
  next
    fix apps s rest assume J: "?J apps (s # rest)"
    have step: "ensures (env_right ceil_log) (case app of ((opened, oldprf), olddefs) \<Rightarrow> bindM (r s oldprf olddefs) (\<lambda>new.
        returnM (map (\<lambda>((newsubgoals, newprf), newdefs). ((opened @ newsubgoals, newprf), newdefs)) new)))
        (\<lambda>apps. ?J apps rest)" if "app \<in> set apps" for app
    proof -
      obtain os P2 d2 where app: "app = ((os, P2), d2)" by (metis prod.collapse)
      with that J have a: "prf_sound Q ceil_log P2" "advances P i (os @ s # rest) P2" by (auto simp: abd_good_def)
      show ?thesis
        unfolding app prod.case
        by (rule ensures_bind [OF abdrule_okD [OF r a(1) advances_open [OF a(2)]]], rule ensures_return)
          (use advances_step [OF a(2)] in \<open>auto simp: abd_good_def\<close>)
    qed
    show "ensures (env_right ceil_log) (bind_list (\<lambda>((opened, oldprf), olddefs). bindM (r s oldprf olddefs) (\<lambda>new.
        returnM (map (\<lambda>((newsubgoals, newprf), newdefs). ((opened @ newsubgoals, newprf), newdefs)) new))) apps)
        (\<lambda>apps. ?J apps rest)"
      by (rule ensures_bind_list) (use step in \<open>simp add: case_prod_unfold\<close>)
  qed
  then show ?thesis by (rule ensures_mono) simp
qed

lemma abd_compose_ok:
  assumes "abdrule_ok Q ceil_log r" and "abdrule_ok Q ceil_log r'"
  shows "abdrule_ok Q ceil_log (abd_compose r r')"
  unfolding abd_compose_def
  by (rule abdrule_okI, rule ensures_bind [OF abdrule_okD [OF assms(1)]], assumption, assumption, rule ensures_bind_list)
    (use abd_apply_ok [OF assms(2)] in blast)

lemma abd_choice_ok: "(\<And>r. r \<in> set rl \<Longrightarrow> abdrule_ok Q ceil_log r) \<Longrightarrow> abdrule_ok Q ceil_log (abd_choice rl)"
  unfolding abd_choice_def by (intro abdrule_okI ensures_bind_list) (rule abdrule_okD)

lemma abd_first_ok: "(\<And>r. r \<in> set rl \<Longrightarrow> abdrule_ok Q ceil_log r) \<Longrightarrow> abdrule_ok Q ceil_log (abd_first rl)"
proof (induction rl)
  case Nil
  show ?case by (rule abdrule_okI) (simp add: ensures_return)
next
  case (Cons r rl)
  have r: "abdrule_ok Q ceil_log r" "abdrule_ok Q ceil_log (abd_first rl)" using Cons by simp_all
  show ?case
  proof (rule abdrule_okI)
    fix i P d assume P: "prf_sound Q ceil_log P" "i \<in> open_nodes P"
    show "ensures (env_right ceil_log) (abd_first (r # rl) i P d) (\<lambda>apps. \<forall>app \<in> set apps. abd_good Q ceil_log P i app)"
      unfolding abd_first.simps
      by (rule ensures_bind [OF abdrule_okD [OF r(1) P]]) (auto intro: ensures_return abdrule_okD [OF r(2) P])
  qed
qed

lemma abd_attempt_ok:
  assumes "abdrule_ok Q ceil_log r"
  shows "abdrule_ok Q ceil_log (abd_attempt r)"
proof (rule abdrule_okI)
  fix i P d assume P: "prf_sound Q ceil_log P" "i \<in> open_nodes P"
  show "ensures (env_right ceil_log) (abd_attempt r i P d) (\<lambda>apps. \<forall>app \<in> set apps. abd_good Q ceil_log P i app)"
    unfolding abd_attempt_def
    by (rule ensures_bind [OF abdrule_okD [OF assms P]]) (auto intro!: ensures_return abd_good_same [OF P])
qed

lemmas abd_combinators_ok =
  mk_abdinfrule_ok mk_abdbackrule_ok mk_abdgenrule_ok abd_fail_ok abd_lift_ok abd_compose_ok abd_choice_ok abd_first_ok abd_attempt_ok

text \<open>The rules of abduction that can be made, as for the rules of the prover.\<close>

inductive made_abdrule ::
  "'q sequent_sig \<Rightarrow> 'b bdd_pkg \<Rightarrow> ('b, 'g) spot_pkg \<Rightarrow> (nat \<Rightarrow> int) \<Rightarrow> (abs_proof \<Rightarrow> abs_proof \<Rightarrow> bool) \<Rightarrow>
   ('q, 'd, 'b) abdrule \<Rightarrow> bool"
  for Q B S ceil_log same where
  infrule: "\<forall>s d. ensures (env_right ceil_log) (f s d) (\<lambda>_. True) \<Longrightarrow> made_abdrule Q B S ceil_log same (mk_abdinfrule f)"
| backrule: "\<forall>s t d. ensures (env_right ceil_log) (g s t d) (\<lambda>_. True) \<Longrightarrow>
    made_abdrule Q B S ceil_log same (mk_abdbackrule sel g)"
| genrule: "\<forall>s d. ensures (env_right ceil_log) (h s d) (\<lambda>_. True) \<Longrightarrow> made_abdrule Q B S ceil_log same (mk_abdgenrule Q h)"
| fail: "made_abdrule Q B S ceil_log same abd_fail"
| lift: "made_rule Q B S ceil_log same p \<Longrightarrow> made_abdrule Q B S ceil_log same (abd_lift p)"
| compose: "made_abdrule Q B S ceil_log same r \<Longrightarrow> made_abdrule Q B S ceil_log same r' \<Longrightarrow>
    made_abdrule Q B S ceil_log same (abd_compose r r')"
| choice: "(\<And>r. r \<in> set rs \<Longrightarrow> made_abdrule Q B S ceil_log same r) \<Longrightarrow> made_abdrule Q B S ceil_log same (abd_choice rs)"
| first: "(\<And>r. r \<in> set rs \<Longrightarrow> made_abdrule Q B S ceil_log same r) \<Longrightarrow> made_abdrule Q B S ceil_log same (abd_first rs)"
| attempt: "made_abdrule Q B S ceil_log same r \<Longrightarrow> made_abdrule Q B S ceil_log same (abd_attempt r)"

context spot_library
begin

lemma made_abdrule_ok:
  assumes "made_abdrule Q B S ceil_log same r" and "\<forall>a b. same a b \<longrightarrow> a = b" and "sequent_laws Q"
  shows "abdrule_ok Q ceil_log r"
  using assms(1)
proof induction
  case (lift p)
  then show ?case by (intro abd_lift_ok made_rule_ok [OF _ assms(2,3)])
qed (auto intro!: abd_combinators_ok)

end

end
