(* ===== verification/Prover_Search.thy ===== *)
theory Prover_Search
  imports Prover_Rules
begin

text \<open>
  The search of the prover (prover.ml): depth-first search below a bound, repeated with
  growing bounds. What it returns is a closed proof of the given sequent that satisfies the
  global trace condition.
\<close>

section \<open>Definitions\<close>

text \<open>
  \<^verbatim>\<open>dfs\<close> closes one node: by an axiom that leaves no subgoals, or by the first application
  of a rule all of whose subgoals it can close in turn. The bound falls with every level.
\<close>

function dfs ::
  "('q, 'b) rule \<Rightarrow> ('q, 'b) rule \<Rightarrow> int \<Rightarrow> int \<Rightarrow> 'q proof_t \<Rightarrow> ('q proof_t option, 'b env) eff" where
  "dfs ax r bound idx prf =
     (if bound < 0 then returnM None
      else
        bindM (ax idx prf) (\<lambda>apps.
        case find (\<lambda>(ss', _). ss' = []) apps of
          Some (_, p) \<Rightarrow> returnM (Some p)
        | None \<Rightarrow>
            bindM (r idx prf) (find_mapM (\<lambda>(subgoals', prf').
              foldM (\<lambda>optprf idx'. case optprf of None \<Rightarrow> returnM None | Some p \<Rightarrow> dfs ax r (bound - 1) idx' p)
                (Some prf') subgoals'))))"
  by pat_completeness auto
termination
  by (relation "measure (\<lambda>(ax, r, bound, idx, prf). nat (bound + 1))") auto

declare dfs.simps [simp del]

text \<open>
  The state of \<^verbatim>\<open>idfs\<close> also has the variable \<^verbatim>\<open>last_search_depth\<close>. The bounds are mathematical
  integers; the source's are 63 bits wide, and \<^verbatim>\<open>bound + 1\<close> wraps around only after a failed
  search of depth \<^verbatim>\<open>max_int\<close>.
\<close>

type_synonym 'b prover_state = "'b env \<times> int"

definition on_env :: "('a, 'e) eff \<Rightarrow> ('a, 'e \<times> 'x) eff" where
  "on_env m s = (case m (fst s) of (res, e) \<Rightarrow> (res, (e, snd s)))"

definition set_last_search_depth :: "int \<Rightarrow> (unit, 'b prover_state) eff" where
  "set_last_search_depth d s = (Inr (), (fst s, d))"

function idfs ::
  "int \<Rightarrow> int \<Rightarrow> ('q, 'b) rule \<Rightarrow> ('q, 'b) rule \<Rightarrow> 'q \<Rightarrow> ('q proof_t option, 'b prover_state) eff" where
  "idfs bound maxbound ax r seq =
     (if bound > maxbound then returnM None
      else
        bindM (on_env (dfs ax r bound 0 (prf_mk seq))) (\<lambda>res.
        case res of
          None \<Rightarrow> idfs (bound + 1) maxbound ax r seq
        | Some p \<Rightarrow> bindM (set_last_search_depth bound) (\<lambda>_. returnM (Some p))))"
  by pat_completeness auto
termination
  by (relation "measure (\<lambda>(bound, maxbound, ax, r, seq). nat (maxbound - bound + 1))") auto

declare idfs.simps [simp del]

section \<open>Soundness of the search\<close>

lemma advances_trans_fold:
  "advances P i (s # ss) P1 \<Longrightarrow> advances P1 s [] P2 \<Longrightarrow> advances P i ss P2"
  using advances_step [of P i "[]" s ss P1 "[]" P2] by simp

lemma dfs_ok:
  assumes ax: "rule_ok Q ceil_log ax" and r: "rule_ok Q ceil_log r"
  shows "prf_sound Q ceil_log P \<Longrightarrow> i \<in> open_nodes P \<Longrightarrow>
    ensures (env_right ceil_log) (dfs ax r bound i P)
      (\<lambda>res. \<forall>P'. res = Some P' \<longrightarrow> prf_sound Q ceil_log P' \<and> advances P i [] P')"
proof (induction "nat (bound + 1)" arbitrary: bound i P rule: less_induct)
  case less
  let ?R = "\<lambda>res. \<forall>P'. res = Some P' \<longrightarrow> prf_sound Q ceil_log P' \<and> advances P i [] P'"
  let ?f = "\<lambda>(subgoals', prf'). foldM (\<lambda>optprf idx'. case optprf of None \<Rightarrow> returnM None | Some p \<Rightarrow> dfs ax r (bound - 1) idx' p)
      (Some prf') subgoals'"
  show ?case
  proof (cases "bound < 0")
    case True
    then show ?thesis by (simp add: dfs.simps ensures_return)
  next
    case False
    have app: "ensures (env_right ceil_log) (?f app) ?R"
      if a: "prf_sound Q ceil_log (snd app)" "advances P i (fst app) (snd app)" for app
    proof -
      have "ensures (env_right ceil_log) (foldM (\<lambda>optprf idx'. case optprf of None \<Rightarrow> returnM None
            | Some p \<Rightarrow> dfs ax r (bound - 1) idx' p) (Some (snd app)) (fst app))
          (\<lambda>res. \<forall>P'. res = Some P' \<longrightarrow> prf_sound Q ceil_log P' \<and> advances P i [] P')"
      proof (rule ensures_fold [where J = "\<lambda>res ss. \<forall>P'. res = Some P' \<longrightarrow> prf_sound Q ceil_log P' \<and> advances P i ss P'"])
        fix res s ss assume J: "\<forall>P'. res = Some P' \<longrightarrow> prf_sound Q ceil_log P' \<and> advances P i (s # ss) P'"
        show "ensures (env_right ceil_log) (case res of None \<Rightarrow> returnM None | Some p \<Rightarrow> dfs ax r (bound - 1) s p)
            (\<lambda>res. \<forall>P'. res = Some P' \<longrightarrow> prf_sound Q ceil_log P' \<and> advances P i ss P')"
        proof (cases res)
          case (Some p)
          with J have p: "prf_sound Q ceil_log p" "advances P i (s # ss) p" by auto
          then have "s \<in> open_nodes p" using advances_open [of P i "[]" s ss p] by simp
          from less.hyps [OF _ p(1) this, of "bound - 1"] False
          have "ensures (env_right ceil_log) (dfs ax r (bound - 1) s p)
              (\<lambda>res. \<forall>P'. res = Some P' \<longrightarrow> prf_sound Q ceil_log P' \<and> advances p s [] P')" by simp
          then show ?thesis unfolding Some option.case
            by (rule ensures_mono) (use advances_trans_fold [OF p(2)] in blast)
        qed (simp add: ensures_return)
      qed (use a in simp)
      then show ?thesis by (simp add: case_prod_unfold)
    qed
    have "ensures (env_right ceil_log) (bindM (r i P) (find_mapM ?f)) ?R"
      by (rule ensures_bind [OF rule_okD [OF r less.prems]], rule ensures_find_map, rule app) auto
    moreover have "?R (Some (snd app))"
      if "\<forall>app \<in> set apps. prf_sound Q ceil_log (snd app) \<and> advances P i (fst app) (snd app)"
        "find (\<lambda>(ss', _). ss' = []) apps = Some app" for apps app
      using that by (auto simp: find_Some_iff case_prod_unfold dest!: bspec [OF that(1) nth_mem])
    ultimately show ?thesis
      unfolding dfs.simps [of ax r bound i P] using False
      by (auto intro!: ensures_bind [OF rule_okD [OF ax less.prems]] ensures_return split: option.split prod.split) 
  qed
qed

lemma on_env_ensures: "ensures I m R \<Longrightarrow> ensures (\<lambda>s. I (fst s)) (on_env m) R"
  unfolding ensures_def on_env_def case_prod_unfold fst_conv snd_conv by blast

lemma prf_mk_open: "open_nodes (prf_mk s) = {0}"
  by (auto simp: open_nodes_def prf_mk_lookup mk_open_def split: if_splits)

lemma prf_mk_sound: "prf_sound Q ceil_log (prf_mk s)"
proof -
  have "\<not> tg_edge (prf_graph Q (prf_mk s)) i j" for i j
    by (simp add: prf_graph_edge [OF prf_mk_ok] prf_mk_lookup mk_open_def)
  then have "gtc (prf_graph Q (prf_mk s)) 0" by (intro gtc_no_path) (auto simp: tg_path_def)
  then show ?thesis by (simp add: prf_sound_def prf_mk_ok)
qed

lemma idfs_ok:
  assumes ax: "rule_ok Q ceil_log ax" and r: "rule_ok Q ceil_log r"
  shows "ensures (\<lambda>s. env_right ceil_log (fst s)) (idfs bound maxbound ax r seq)
    (\<lambda>res. \<forall>P. res = Some P \<longrightarrow> prf_sound Q ceil_log P \<and> advances (prf_mk seq) 0 [] P)"
proof (induction "nat (maxbound - bound + 1)" arbitrary: bound rule: less_induct)
  case less
  let ?R = "\<lambda>res. \<forall>P. res = Some P \<longrightarrow> prf_sound Q ceil_log P \<and> advances (prf_mk seq) 0 [] P"
  show ?case
  proof (cases "bound > maxbound")
    case True
    then show ?thesis unfolding idfs.simps [of bound maxbound ax r seq] by (simp add: ensures_return)
  next
    case False
    have "0 \<in> open_nodes (prf_mk seq)" by (simp add: prf_mk_open)
    note d = on_env_ensures [OF dfs_ok [OF ax r prf_mk_sound [of Q ceil_log seq] this, of bound]]
    have l: "ensures (\<lambda>s. env_right ceil_log (fst s)) (set_last_search_depth bound) (\<lambda>_. True)"
      by (simp add: ensures_def set_last_search_depth_def)
    have n: "ensures (\<lambda>s. env_right ceil_log (fst s)) (idfs (bound + 1) maxbound ax r seq) ?R"
    proof (rule less.hyps)
      show "nat (maxbound - (bound + 1) + 1) < nat (maxbound - bound + 1)" using False by simp
    qed
    have "ensures (\<lambda>s. env_right ceil_log (fst s)) (case res of None \<Rightarrow> idfs (bound + 1) maxbound ax r seq
        | Some p \<Rightarrow> bindM (set_last_search_depth bound) (\<lambda>_. returnM (Some p))) ?R" if "?R res" for res
    proof (cases res)
      case None
      show ?thesis unfolding None option.case by (rule n)
    next
      case (Some p)
      show ?thesis unfolding Some option.case
        by (rule ensures_bind [OF l], rule ensures_return) (use that Some in blast)
    qed
    note b = ensures_bind [OF d this]
    show ?thesis by (subst idfs.simps, subst if_not_P [OF False], rule b)
  qed
qed

text \<open>A proof that has advanced from the open root to no open node is closed and has the given root.\<close>

lemma advances_from_root:
  assumes "prf_ok Q P" and "advances (prf_mk seq) 0 [] P"
  shows "is_closed P" "prf_get_seq 0 P = Inr seq"
proof -
  show "is_closed P" using assms unfolding is_closed_iff [OF prf_okD(1) [OF assms(1)]] by (simp add: advances_def prf_mk_open)
  have "map_of (prf_mk seq) 0 = Some (0, mk_open seq)" by (simp add: prf_mk_lookup)
  with assms(2) have "\<exists>y. map_of P 0 = Some y \<and> node_get_seq (snd y) = node_get_seq (snd (0 :: int, mk_open seq))"
    unfolding advances_def grows_def by blast
  then show "prf_get_seq 0 P = Inr seq" by (auto simp: prf_get_seq_eq mk_open_def)
qed

section \<open>What the search finds\<close>

lemma idfs_unfold:
  assumes "bound \<le> maxbound" and "dfs ax r bound 0 (prf_mk seq) e = (res, e')"
  shows "idfs bound maxbound ax r seq (e, d) =
    (case res of Inl err \<Rightarrow> (Inl err, (e', d)) | Inr None \<Rightarrow> idfs (bound + 1) maxbound ax r seq (e', d)
     | Inr (Some p) \<Rightarrow> (Inr (Some p), (e', bound)))"
  using assms by (simp add: idfs.simps [of bound] bindM_def on_env_def set_last_search_depth_def returnM_def
      split: sum.split option.split)

lemma idfs_beyond: "maxbound < bound \<Longrightarrow> idfs bound maxbound ax r seq s = (Inr None, s)"
  by (simp add: idfs.simps returnM_def)

text \<open>
  The searches that \<^verbatim>\<open>idfs\<close> makes: each starts in the state that the one before it left, and
  all but the last found nothing.
\<close>

lemma idfs_found:
  assumes "idfs bound maxbound ax r seq (e, d0) = (Inr (Some P), (e', d))"
  shows "bound \<le> d \<and> d \<le> maxbound \<and> (\<exists>e1. dfs ax r d 0 (prf_mk seq) e1 = (Inr (Some P), e')) \<and>
    (\<forall>b. bound \<le> b \<and> b < d \<longrightarrow> (\<exists>e1 e2. dfs ax r b 0 (prf_mk seq) e1 = (Inr None, e2)))"
  using assms
proof (induction "nat (maxbound - bound + 1)" arbitrary: bound e rule: less_induct)
  case less
  obtain res e1 where d: "dfs ax r bound 0 (prf_mk seq) e = (res, e1)" by (cases "dfs ax r bound 0 (prf_mk seq) e")
  have b: "bound \<le> maxbound" using less.prems idfs_beyond [of maxbound bound ax r seq "(e, d0)"] by (cases "maxbound < bound") auto
  note u = less.prems [unfolded idfs_unfold [OF b d]]
  show ?case
  proof (cases res)
    case (Inr found)
    show ?thesis
    proof (cases found)
      case None
      with Inr u have n: "idfs (bound + 1) maxbound ax r seq (e1, d0) = (Inr (Some P), (e', d))" by simp
      have "nat (maxbound - (bound + 1) + 1) < nat (maxbound - bound + 1)" using b by simp
      note IH = less.hyps [OF this n]
      have "\<exists>e1 e2. dfs ax r b' 0 (prf_mk seq) e1 = (Inr None, e2)" if "bound \<le> b' \<and> b' < d" for b'
      proof (cases "b' = bound")
        case True
        with d Inr None show ?thesis by blast
      next
        case False
        with that have "bound + 1 \<le> b' \<and> b' < d" by simp
        with IH show ?thesis by blast
      qed
      moreover have "bound \<le> d" using IH by simp
      ultimately show ?thesis using IH by blast
    next
      case (Some p)
      with Inr u have "P = p" "e' = e1" "d = bound" by simp_all
      then have "dfs ax r d 0 (prf_mk seq) e = (Inr (Some P), e')" "bound \<le> d \<and> d \<le> maxbound" "\<And>b. \<not> (bound \<le> b \<and> b < d)"
        using d b Inr Some by simp_all
      then show ?thesis by blast
    qed
  qed (use u in simp)
qed

text \<open>A search that succeeds at some depth, from every state the searches before it leave, is successful.\<close>

lemma idfs_finds:
  assumes "bound \<le> d" and "d \<le> maxbound" and "I (fst s)"
    and success: "\<And>e. I e \<Longrightarrow> \<exists>P e'. dfs ax r d 0 (prf_mk seq) e = (Inr (Some P), e')"
    and before: "\<And>b e. bound \<le> b \<Longrightarrow> b < d \<Longrightarrow> I e \<Longrightarrow> \<exists>res e'. dfs ax r b 0 (prf_mk seq) e = (Inr res, e') \<and> I e'"
  shows "\<exists>P s'. idfs bound maxbound ax r seq s = (Inr (Some P), s')"
  using assms(1,3) before
proof (induction "nat (d - bound)" arbitrary: bound s rule: less_induct)
  case less
  obtain e d0 where s: "s = (e, d0)" by (cases s)
  have b: "bound \<le> maxbound" using less.prems(1) assms(2) by simp
  have e: "I e" using less.prems(2) by (simp add: s)
  show ?case
  proof (cases "bound = d")
    case True
    with success [OF e] obtain P e' where "dfs ax r bound 0 (prf_mk seq) e = (Inr (Some P), e')" by blast
    from idfs_unfold [OF b this] show ?thesis by (simp add: s)
  next
    case False
    with less.prems(1) have "bound < d" by simp
    from less.prems(3) [OF order_refl this e] obtain res e' where
      r: "dfs ax r bound 0 (prf_mk seq) e = (Inr res, e')" and e': "I e'" by blast
    have "\<exists>P s'. idfs (bound + 1) maxbound ax r seq (e', d0) = (Inr (Some P), s')"
    proof (rule less.hyps)
      show "nat (d - (bound + 1)) < nat (d - bound)" "bound + 1 \<le> d" using \<open>bound < d\<close> by simp_all
      show "\<exists>res e'. dfs ax r b 0 (prf_mk seq) e = (Inr res, e') \<and> I e'" if "bound + 1 \<le> b" "b < d" "I e" for b e
        by (rule less.prems(3)) (use that in simp_all)
    qed (simp add: e')
    then show ?thesis unfolding s idfs_unfold [OF b r] by (cases res) simp_all
  qed
qed

end
