(* ===== verification/Abducer.thy ===== *)
theory Abducer
  imports Abd_Rules Prover_Search "HOL-Library.Multiset"
begin

text \<open>
  The search of abduction (abducer.ml): a search for a proof together with inductive
  definitions, breadth-first in the depth of goals and depth-first below it, with a stack of
  pending rule applications. What it returns is a closed, sound proof; it ends, and none of
  its assertions fails.
\<close>

section \<open>Definitions\<close>

record ('q, 'd) app_state =
  ap_prf :: "'q proof_t"
  ap_depth :: int
  ap_goals :: "(int \<times> int) list"
  ap_defs :: 'd

definition mk_app :: "'q proof_t \<Rightarrow> int \<Rightarrow> (int \<times> int) list \<Rightarrow> 'd \<Rightarrow> ('q, 'd) app_state" where
  "mk_app p d g defs = \<lparr>ap_prf = p, ap_depth = d, ap_goals = g, ap_defs = defs\<rparr>"

record ('q, 'd) abd_proof_state =
  ps_seq_no :: int
  ps_par :: int
  ps_idx :: int
  ps_apps :: "('q, 'd) app_state list"

text \<open>The state also has the counter \<^verbatim>\<open>state_seq_no\<close>.\<close>

type_synonym 'b abd_state = "'b prover_state \<times> int"

definition mk_state :: "int \<Rightarrow> int \<Rightarrow> ('q, 'd) app_state list \<Rightarrow> (('q, 'd) abd_proof_state, 'b abd_state) eff" where
  "mk_state par idx apps s =
     (Inr \<lparr>ps_seq_no = snd s + 1, ps_par = par, ps_idx = idx, ps_apps = apps\<rparr>, (fst s, snd s + 1))"

fun pop_loop :: "('q, 'd) abd_proof_state list \<Rightarrow> int \<Rightarrow> ('q, 'd) abd_proof_state list \<Rightarrow> ('q, 'd) abd_proof_state list" where
  "pop_loop aux s [] = rev aux"
| "pop_loop aux s (p # ps) = (if ps_seq_no p = s then pop_loop aux (ps_par p) ps else pop_loop (p # aux) s ps)"

definition pop_parents :: "int \<Rightarrow> ('q, 'd) abd_proof_state list \<Rightarrow> ('q, 'd) abd_proof_state list" where
  "pop_parents sn stack = pop_loop [] sn stack"

definition expand_proof_state ::
  "int \<Rightarrow> ('q, 'd) app_state \<Rightarrow> ('q, 'd, 'b) abdrule \<Rightarrow> (('q, 'd) abd_proof_state, 'b abd_state) eff" where
  "expand_proof_state par_seq_no app rule =
     assertM ''not (Proof.is_closed app.prf) && not (Blist.is_empty app.goals)''
       (\<not> is_closed (ap_prf app) \<and> ap_goals app \<noteq> [])
       (case ap_goals app of
          [] \<Rightarrow> liftM (Inl (Invalid_argument ''decons''))
        | (idx, goal_depth) # goals \<Rightarrow>
            let new_goal_depth = goal_depth + 1;
                new_prf_depth = max (ap_depth app) new_goal_depth
            in bindM (on_env (on_env (rule idx (ap_prf app) (ap_defs app)))) (\<lambda>res.
               mk_state par_seq_no idx
                 (map (\<lambda>((g', p'), defs'). mk_app p' new_prf_depth
                    (rev (rev (map (\<lambda>j. (j, new_goal_depth)) g')) @ goals) defs') res)))"

text \<open>The measure for the inner function of \<^verbatim>\<open>bfs\<close>: how far the goals of pending applications are from the bound.\<close>

definition app_key :: "int \<Rightarrow> ('q, 'd) app_state \<Rightarrow> nat multiset" where
  "app_key bound app = mset (map (\<lambda>g. nat (bound - snd g)) (ap_goals app))"

definition stack_key :: "int \<Rightarrow> ('q, 'd) abd_proof_state list \<Rightarrow> nat multiset multiset" where
  "stack_key bound stack = mset (concat (map (\<lambda>ps. map (app_key bound) (ps_apps ps)) stack))"

lemma stack_key_simps [simp]:
  "stack_key b [] = {#}" "stack_key b (ps # stack) = mset (map (app_key b) (ps_apps ps)) + stack_key b stack"
  by (simp_all add: stack_key_def)

lemma expand_goals:
  assumes "expand_proof_state sn app rule s = (Inr st, s')"
  shows "\<exists>idx gd goals. ap_goals app = (idx, gd) # goals \<and>
    (\<forall>a \<in> set (ps_apps st). \<exists>g. ap_goals a = map (\<lambda>j. (j, gd + 1)) g @ goals)"
proof -
  have ne: "ap_goals app \<noteq> []" using assms by (auto simp: expand_proof_state_def assertM_def liftM_def split: if_splits)
  then obtain idx gd goals where g: "ap_goals app = (idx, gd) # goals" by (metis neq_Nil_conv prod.collapse)
  show ?thesis
    using assms unfolding expand_proof_state_def assertM_def
    by (force simp: g bindM_def liftM_def mk_state_def mk_app_def Let_def split: if_splits prod.splits sum.splits)
qed

lemma app_key_less:
  assumes "ap_goals app = (idx, gd) # goals" and "gd < b" and "ap_goals a = map (\<lambda>j. (j, gd + 1)) g @ goals"
  shows "(app_key b a, app_key b app) \<in> mult less_than"
proof -
  let ?I = "mset (map (\<lambda>g. nat (b - snd g)) goals)"
  have "(?I + mset (map (\<lambda>j. nat (b - (gd + 1))) g), ?I + {#nat (b - gd)#}) \<in> mult less_than"
    using assms(2) by (intro one_step_implies_mult) auto
  moreover have "app_key b a = ?I + mset (map (\<lambda>j. nat (b - (gd + 1))) g)" "app_key b app = ?I + {#nat (b - gd)#}"
    unfolding app_key_def assms(1,3) by (simp_all add: comp_def)
  ultimately show ?thesis by simp
qed

lemma pop_loop_key: "\<exists>R. stack_key b (rev aux) + stack_key b ps = stack_key b (pop_loop aux s ps) + R"
proof (induction aux s ps rule: pop_loop.induct)
  case (2 aux s p ps)
  have rev: "stack_key b (rev (p # aux)) = mset (map (app_key b) (ps_apps p)) + stack_key b (rev aux)"
    by (simp add: stack_key_def)
  show ?case
  proof (cases "ps_seq_no p = s")
    case True
    with 2(1) obtain R where "stack_key b (rev aux) + stack_key b ps = stack_key b (pop_loop aux (ps_par p) ps) + R" by blast
    with True show ?thesis by (intro exI [of _ "R + mset (map (app_key b) (ps_apps p))"]) (simp add: ac_simps)
  next
    case False
    with 2(2) rev show ?thesis by (simp add: ac_simps)
  qed
qed simp

lemma drop_app_less:
  assumes "ps_apps ps = app # apps"
  shows "(stack_key b (ps\<lparr>ps_apps := apps\<rparr> # stack), stack_key b (ps # stack)) \<in> mult (mult less_than)"
  using one_step_implies_mult [of "{#app_key b app#}" "{#}" "mult less_than" "stack_key b (ps\<lparr>ps_apps := apps\<rparr> # stack)"]
  by (simp add: assms)

text \<open>The stack that an expanded application leaves, after the removal of entries.\<close>

lemma expand_less:
  assumes apps: "ps_apps ps = app # apps" and e: "expand_proof_state sn app rule s = (Inr st, s')"
    and gd: "\<forall>g \<in> set (ap_goals app). snd g < b"
    and key: "stack_key b (ps\<lparr>ps_apps := apps\<rparr> # stack) = stack_key b stack' + R"
  shows "(stack_key b (st # stack'), stack_key b (ps # stack)) \<in> mult (mult less_than)"
proof -
  obtain idx d goals where g: "ap_goals app = (idx, d) # goals"
    "\<forall>a \<in> set (ps_apps st). \<exists>g. ap_goals a = map (\<lambda>j. (j, d + 1)) g @ goals"
    using expand_goals [OF e] by blast
  have "d < b" using gd g(1) by simp
  then have "\<forall>k \<in># mset (map (app_key b) (ps_apps st)). (k, app_key b app) \<in> mult less_than"
    using app_key_less [OF g(1)] g(2) by simp blast
  then have "(stack_key b stack' + mset (map (app_key b) (ps_apps st)), stack_key b stack' + (R + {#app_key b app#}))
      \<in> mult (mult less_than)"
    by (intro one_step_implies_mult) auto
  moreover have "stack_key b (ps # stack) = stack_key b stack' + (R + {#app_key b app#})"
    using key by (simp add: apps ac_simps)
  ultimately show ?thesis by (simp add: ac_simps)
qed

definition bfs_order :: "((int \<times> ('q, 'd, 'b) abdrule \<times> ('d \<Rightarrow> (bool, 'b env) eff) \<times> int \<times> ('q, 'd) abd_proof_state list \<times>
    ('q, 'd) abd_proof_state list \<times> 'b abd_state) \<times> (int \<times> ('q, 'd, 'b) abdrule \<times> ('d \<Rightarrow> (bool, 'b env) eff) \<times> int \<times>
    ('q, 'd) abd_proof_state list \<times> ('q, 'd) abd_proof_state list \<times> 'b abd_state)) set" where
  "bfs_order = inv_image (less_than <*lex*> mult (mult less_than) <*lex*> less_than)
     (\<lambda>(maxbound, rule, check, bound, frontier, stack, s). (nat (maxbound + 1 - bound), stack_key bound stack, length stack))"

lemma bfs_order_wf: "wf bfs_order"
  unfolding bfs_order_def by (intro wf_inv_image wf_lex_prod wf_mult wf_less_than)

lemma bfs_order_bound:
  "b \<le> m \<Longrightarrow> ((m, r, c, b + 1, f', st', s'), (m, r, c, b, f, st, s)) \<in> bfs_order"
  by (simp add: bfs_order_def)

lemma bfs_order_stack:
  "(stack_key b st', stack_key b st) \<in> mult (mult less_than) \<Longrightarrow>
    ((m, r, c, b, f', st', s'), (m, r, c, b, f, st, s)) \<in> bfs_order"
  by (simp add: bfs_order_def)

lemma bfs_order_empty:
  "ps_apps ps = [] \<Longrightarrow> ((m, r, c, b, f', st, s'), (m, r, c, b, f, ps # st, s)) \<in> bfs_order"
  by (simp add: bfs_order_def)

lemma bfs_order_expand:
  assumes "ps_apps ps = app # apps" and "expand_proof_state sn app rule s0 = (Inr st, s')"
    and "list_all (\<lambda>(_, gd). gd \<le> b) (ap_goals app)" and "\<not> list_ex (\<lambda>(_, gd). gd = b) (ap_goals app)"
    and "stack' = (if closed then pop_parents n (ps\<lparr>ps_apps := apps\<rparr> # stack) else ps\<lparr>ps_apps := apps\<rparr> # stack)"
  shows "((m, r, c, b, f', st # stack', s1), (m, r, c, b, f, ps # stack, s2)) \<in> bfs_order"
proof (rule bfs_order_stack)
  have gd: "\<forall>g \<in> set (ap_goals app). snd g < b"
    using assms(3,4) by (fastforce simp: list_all_iff list_ex_iff)
  obtain R where "stack_key b (ps\<lparr>ps_apps := apps\<rparr> # stack) = stack_key b (pop_parents n (ps\<lparr>ps_apps := apps\<rparr> # stack)) + R"
    using pop_loop_key [of b "[]" "ps\<lparr>ps_apps := apps\<rparr> # stack" n] by (auto simp: pop_parents_def)
  then have "\<exists>R. stack_key b (ps\<lparr>ps_apps := apps\<rparr> # stack) = stack_key b stack' + R"
    unfolding assms(5) by (cases closed) (auto intro: exI [of _ "{#}"])
  then show "(stack_key b (st # stack'), stack_key b (ps # stack)) \<in> mult (mult less_than)"
    using expand_less [OF assms(1,2) gd] by blast
qed

text \<open>The inner function \<^verbatim>\<open>aux\<close> of \<^verbatim>\<open>bfs\<close>. The last argument is the state.\<close>

function bfs_aux ::
  "int \<Rightarrow> ('q, 'd, 'b) abdrule \<Rightarrow> ('d \<Rightarrow> (bool, 'b env) eff) \<Rightarrow> int \<Rightarrow> ('q, 'd) abd_proof_state list \<Rightarrow>
   ('q, 'd) abd_proof_state list \<Rightarrow> (('q proof_t \<times> int \<times> 'd) option, 'b abd_state) eff" where
  "bfs_aux maxbound rule check bound frontier stack s =
     (if bound > maxbound \<or> stack = [] \<and> frontier = [] then returnM None s
      else case stack of
        [] \<Rightarrow> bfs_aux maxbound rule check (bound + 1) [] (rev frontier) s
      | proof_state # stack \<Rightarrow>
          case ps_apps proof_state of
            [] \<Rightarrow> bfs_aux maxbound rule check bound frontier stack s
          | app # apps \<Rightarrow>
              assertM ''app.depth <= bound'' (ap_depth app \<le> bound) (\<lambda>s.
              assertM ''Blist.for_all (fun (_, gd) -> gd <= bound) app.goals'' (list_all (\<lambda>(_, gd). gd \<le> bound) (ap_goals app)) (\<lambda>s.
              let stack = proof_state\<lparr>ps_apps := apps\<rparr> # stack in
              if ap_goals app = [] then
                assertM ''Proof.is_closed app.prf'' (is_closed (ap_prf app)) (\<lambda>s.
                bindM (on_env (on_env (check (ap_defs app)))) (\<lambda>ok s.
                  if ok then returnM (Some (ap_prf app, ap_depth app, ap_defs app)) s
                  else bfs_aux maxbound rule check bound frontier stack s) s) s
              else
                assertM ''not (Proof.is_closed app.prf)'' (\<not> is_closed (ap_prf app)) (\<lambda>s.
                if list_ex (\<lambda>(_, gd). gd = bound) (ap_goals app) then
                  bindM (expand_proof_state (ps_seq_no proof_state) app rule) (\<lambda>st s.
                    bfs_aux maxbound rule check bound (st # frontier) stack s) s
                else
                  bindM (liftM (is_closed_at (ap_prf app) (ps_idx proof_state))) (\<lambda>closed s.
                  let stack = (if closed then pop_parents (ps_seq_no proof_state) stack else stack) in
                  bindM (expand_proof_state (ps_seq_no proof_state) app rule) (\<lambda>st s.
                    bfs_aux maxbound rule check bound frontier (st # stack) s) s) s) s) s) s)"
  by pat_completeness auto
termination
proof (relation bfs_order, goal_cases)
  case 1
  show ?case by (rule bfs_order_wf)
next
  case 2
  then show ?case by (simp add: bfs_order_bound)
next
  case 3
  then show ?case by (simp add: bfs_order_empty)
next
  case 4
  then show ?case by (auto intro!: bfs_order_stack drop_app_less)
next
  case 5
  then show ?case by (auto intro!: bfs_order_stack drop_app_less)
next
  case 6
  then show ?case by (auto intro!: bfs_order_expand)
qed

declare bfs_aux.simps [simp del]

definition bfs ::
  "int \<Rightarrow> ('q, 'd, 'b) abdrule \<Rightarrow> 'q \<Rightarrow> 'd \<Rightarrow> ('d \<Rightarrow> (bool, 'b env) eff) \<Rightarrow> (('q proof_t \<times> 'd) option, 'b abd_state) eff" where
  "bfs maxbound rule seq initial_defs check =
     (let start = prf_mk seq in
      bindM (expand_proof_state 0 (mk_app start 0 [(0, 0)] initial_defs) rule) (\<lambda>st.
      bindM (bfs_aux maxbound rule check 1 [] [st]) (\<lambda>r.
        case r of
          None \<Rightarrow> returnM None
        | Some (p, d, defs) \<Rightarrow> bindM (on_env (set_last_search_depth d)) (\<lambda>_. returnM (Some (p, defs))))))"

section \<open>What the search returns\<close>

text \<open>Pending applications hold a sound proof that has grown from the root; their goals are its open nodes.\<close>

definition app_ok :: "'q sequent_sig \<Rightarrow> (nat \<Rightarrow> int) \<Rightarrow> 'q \<Rightarrow> int \<Rightarrow> ('q, 'd) app_state \<Rightarrow> bool" where
  "app_ok Q ceil_log seq b app \<longleftrightarrow>
     prf_sound Q ceil_log (ap_prf app) \<and> advances (prf_mk seq) 0 (map fst (ap_goals app)) (ap_prf app) \<and>
     ap_depth app \<le> b \<and> (\<forall>g \<in> set (ap_goals app). snd g \<le> b)"

definition state_ok :: "'q sequent_sig \<Rightarrow> (nat \<Rightarrow> int) \<Rightarrow> 'q \<Rightarrow> int \<Rightarrow> ('q, 'd) abd_proof_state \<Rightarrow> bool" where
  "state_ok Q ceil_log seq b ps \<longleftrightarrow>
     (\<forall>a \<in> set (ps_apps ps). app_ok Q ceil_log seq b a \<and> ps_idx ps \<in> dom (map_of (ap_prf a)))"

definition abd_right :: "(nat \<Rightarrow> int) \<Rightarrow> 'b abd_state \<Rightarrow> bool" where
  "abd_right ceil_log s \<longleftrightarrow> env_right ceil_log (fst (fst s))"

text \<open>A rule with the contract, which returns if \<open>t\<close> is set.\<close>

definition abdrule_meets :: "bool \<Rightarrow> 'q sequent_sig \<Rightarrow> (nat \<Rightarrow> int) \<Rightarrow> ('q, 'd, 'b) abdrule \<Rightarrow> bool" where
  "abdrule_meets t Q ceil_log r \<longleftrightarrow>
     (\<forall>i P d e. prf_sound Q ceil_log P \<and> i \<in> open_nodes P \<and> env_right ceil_log e \<longrightarrow>
        meets t (env_right ceil_log) (\<lambda>apps. \<forall>app \<in> set apps. abd_good Q ceil_log P i app) (r i P d e))"

lemma abdrule_meetsD:
  "abdrule_meets t Q ceil_log r \<Longrightarrow> prf_sound Q ceil_log P \<Longrightarrow> i \<in> open_nodes P \<Longrightarrow> env_right ceil_log e \<Longrightarrow>
    meets t (env_right ceil_log) (\<lambda>apps. \<forall>app \<in> set apps. abd_good Q ceil_log P i app) (r i P d e)"
  unfolding abdrule_meets_def by blast

lemma abdrule_ok_meets: "abdrule_ok Q ceil_log r \<Longrightarrow> abdrule_meets False Q ceil_log r"
  unfolding abdrule_ok_def abdrule_meets_def meets_ensures by blast

lemma abdrule_ok_returns:
  fixes r :: "('q, 'd, 'b) abdrule"
  assumes "abdrule_ok Q ceil_log r"
    and "\<And>i P d e. prf_sound Q ceil_log P \<Longrightarrow> i \<in> open_nodes P \<Longrightarrow> env_right ceil_log e \<Longrightarrow>
      \<exists>apps e'. r i P d e = (Inr apps, e')"
  shows "abdrule_meets True Q ceil_log r"
  unfolding abdrule_meets_def
proof (intro allI impI, elim conjE)
  fix i P d and e :: "'b env"
  assume P: "prf_sound Q ceil_log P" "i \<in> open_nodes P" and e: "env_right ceil_log e"
  obtain apps e' where r: "r i P d e = (Inr apps, e')" using assms(2) [OF P e] by blast
  from ensuresD [OF abdrule_okD [OF assms(1) P] e r]
  show "meets True (env_right ceil_log) (\<lambda>apps. \<forall>app \<in> set apps. abd_good Q ceil_log P i app) (r i P d e)"
    by (simp add: meets_def r)
qed

lemma on_env_meets:
  "meets t (env_right ceil_log) R (m (fst (fst s))) \<Longrightarrow> meets t (abd_right ceil_log) R (on_env (on_env m) s)"
  by (simp add: meets_def on_env_def abd_right_def case_prod_unfold)

lemma on_env_run: "on_env (on_env m) s = (r, s') \<Longrightarrow> m (fst (fst s)) = (r, fst (fst s'))"
  by (auto simp: on_env_def split: prod.splits)

lemma app_ok_closed:
  assumes "app_ok Q ceil_log seq b app"
  shows "is_closed (ap_prf app) \<longleftrightarrow> ap_goals app = []"
proof -
  have "open_nodes (ap_prf app) = set (map fst (ap_goals app))" and ok: "prf_ok Q (ap_prf app)"
    using assms by (auto simp: app_ok_def advances_def prf_mk_open prf_sound_def)
  then show ?thesis by (simp add: is_closed_iff [OF prf_okD(1) [OF ok]])
qed

lemma expand_meets:
  assumes rule: "abdrule_meets t Q ceil_log rule" and app: "app_ok Q ceil_log seq b app" and g: "ap_goals app = (i, gd) # goals"
    and B: "b \<le> B" "gd + 1 \<le> B" and s: "abd_right ceil_log s"
  shows "meets t (abd_right ceil_log) (state_ok Q ceil_log seq B) (expand_proof_state n app rule s)"
proof -
  let ?P = "ap_prf app"
  have P: "prf_sound Q ceil_log ?P" "advances (prf_mk seq) 0 ([] @ i # map fst goals) ?P"
    and le: "ap_depth app \<le> b" "\<forall>g \<in> set goals. snd g \<le> b"
    using app by (auto simp: app_ok_def g)
  note i = advances_open [OF P(2)]
  have r: "meets t (abd_right ceil_log) (\<lambda>apps. \<forall>app \<in> set apps. abd_good Q ceil_log ?P i app)
      (on_env (on_env (rule i ?P (ap_defs app))) s)"
    by (rule on_env_meets, rule abdrule_meetsD [OF rule P(1) i]) (use s in \<open>simp add: abd_right_def\<close>)
  have new: "app_ok Q ceil_log seq B (mk_app P' (max (ap_depth app) (gd + 1)) (map (\<lambda>j. (j, gd + 1)) ss @ goals) d') \<and>
      i \<in> dom (map_of P')" if "abd_good Q ceil_log ?P i ((ss, P'), d')" for ss P' d'
  proof -
    from that have a: "prf_sound Q ceil_log P'" "advances ?P i ss P'" by (auto simp: abd_good_def)
    have "advances (prf_mk seq) 0 (ss @ map fst goals) P'" using advances_step [OF P(2) a(2)] by simp
    moreover have "map fst (map (\<lambda>j. (j, gd + 1)) ss @ goals) = ss @ map fst goals" by (simp add: comp_def)
    moreover have "i \<in> dom (map_of P')" using a(2) i unfolding advances_def grows_def open_nodes_def by blast
    ultimately show ?thesis using a(1) le B by (auto simp: app_ok_def mk_app_def)
  qed
  have "meets t (abd_right ceil_log) (state_ok Q ceil_log seq B)
      (bindM (on_env (on_env (rule i ?P (ap_defs app)))) (\<lambda>res. mk_state n i
        (map (\<lambda>((g', p'), defs'). mk_app p' (max (ap_depth app) (gd + 1)) (map (\<lambda>j. (j, gd + 1)) g' @ goals) defs') res)) s)"
  proof (rule meets_bind, rule r)
    fix apps s' assume apps: "\<forall>app \<in> set apps. abd_good Q ceil_log ?P i app" and "abd_right ceil_log s'"
    then show "meets t (abd_right ceil_log) (state_ok Q ceil_log seq B) (mk_state n i
        (map (\<lambda>((g', p'), defs'). mk_app p' (max (ap_depth app) (gd + 1)) (map (\<lambda>j. (j, gd + 1)) g' @ goals) defs') apps) s')"
      using new by (force simp: meets_def mk_state_def state_ok_def abd_right_def mk_app_def)
  qed
  moreover have "\<not> is_closed ?P" by (simp add: app_ok_closed [OF app] g)
  ultimately show ?thesis
    unfolding expand_proof_state_def by (intro meets_assert) (simp_all add: g Let_def)
qed

text \<open>The result of the search: a sound proof with no goals left, definitions that passed the check, a depth within the bound.\<close>

definition bfs_good ::
  "'q sequent_sig \<Rightarrow> (nat \<Rightarrow> int) \<Rightarrow> 'q \<Rightarrow> int \<Rightarrow> ('d \<Rightarrow> (bool, 'b env) eff) \<Rightarrow> 'q proof_t \<times> int \<times> 'd \<Rightarrow> bool" where
  "bfs_good Q ceil_log seq maxbound check = (\<lambda>(P, d, defs).
     prf_sound Q ceil_log P \<and> advances (prf_mk seq) 0 [] P \<and> d \<le> maxbound \<and> (\<exists>e e'. check defs e = (Inr True, e')))"

lemma state_ok_drop: "state_ok Q ceil_log seq b ps \<Longrightarrow> ps_apps ps = app # apps \<Longrightarrow> state_ok Q ceil_log seq b (ps\<lparr>ps_apps := apps\<rparr>)"
  by (simp add: state_ok_def)

lemma pop_loop_set: "set (pop_loop aux s ps) \<subseteq> set aux \<union> set ps"
  by (induction aux s ps rule: pop_loop.induct) (auto split: if_splits)

lemma pop_parents_set: "set (pop_parents sn stack) \<subseteq> set stack"
  using pop_loop_set [of "[]" sn stack] by (simp add: pop_parents_def)

lemma closed_at_meets:
  assumes "app_ok Q ceil_log seq b app" and "i \<in> dom (map_of (ap_prf app))" and "abd_right ceil_log s"
  shows "meets t (abd_right ceil_log) (\<lambda>_. True) (liftM (is_closed_at (ap_prf app) i) s)"
proof -
  have "prf_ok Q (ap_prf app)" using assms(1) by (simp add: app_ok_def prf_sound_def)
  moreover obtain x where "map_of (ap_prf app) i = Some x" using assms(2) by blast
  ultimately show ?thesis using is_closed_at_eq assms(3) by (fastforce simp: meets_def liftM_def)
qed

text \<open>The next application: without goals it is checked, with goals below the bound it is expanded.\<close>

lemma checked_meets:
  assumes check: "\<forall>d e. env_right ceil_log e \<longrightarrow> meets t (env_right ceil_log) (\<lambda>_. True) (check d e)"
    and app: "app_ok Q ceil_log seq bound app" "ap_goals app = []" and "bound \<le> maxbound" and s: "abd_right ceil_log s"
    and R: "R (Some (ap_prf app, ap_depth app, ap_defs app)) \<longleftrightarrow>
      bfs_good Q ceil_log seq maxbound check (ap_prf app, ap_depth app, ap_defs app)"
    and k: "\<And>s'. on_env (on_env (check (ap_defs app))) s = (Inr False, s') \<Longrightarrow> abd_right ceil_log s' \<Longrightarrow>
      meets t (abd_right ceil_log) R (k s')"
  shows "meets t (abd_right ceil_log) R (bindM (on_env (on_env (check (ap_defs app)))) (\<lambda>b s.
    if b then returnM (Some (ap_prf app, ap_depth app, ap_defs app)) s else k s) s)"
proof (rule meets_bind)
  show "meets t (abd_right ceil_log) (\<lambda>_. True) (on_env (on_env (check (ap_defs app))) s)"
    by (rule on_env_meets) (use check s [unfolded abd_right_def] in blast)
  fix b s' assume b: "on_env (on_env (check (ap_defs app))) s = (Inr b, s')" and s': "abd_right ceil_log s'"
  show "meets t (abd_right ceil_log) R (if b then returnM (Some (ap_prf app, ap_depth app, ap_defs app)) s' else k s')"
  proof (cases b)
    case True
    with on_env_run [OF b] have "check (ap_defs app) (fst (fst s)) = (Inr True, fst (fst s'))" by simp
    then have "\<exists>e e'. check (ap_defs app) e = (Inr True, e')" by blast
    with app assms(4) have "bfs_good Q ceil_log seq maxbound check (ap_prf app, ap_depth app, ap_defs app)"
      by (auto simp: bfs_good_def app_ok_def)
    with True s' R show ?thesis by (simp add: meets_return)
  qed (use k b s' in simp)
qed

lemma below_meets:
  assumes rule: "abdrule_meets t Q ceil_log rule" and app: "app_ok Q ceil_log seq b app" "i \<in> dom (map_of (ap_prf app))"
    and g: "ap_goals app = (j, gd) # gs" "gd + 1 \<le> b" and s: "abd_right ceil_log s"
    and k: "\<And>c s1 st s'. liftM (is_closed_at (ap_prf app) i) s = (Inr c, s1) \<Longrightarrow>
      expand_proof_state n app rule s1 = (Inr st, s') \<Longrightarrow> state_ok Q ceil_log seq b st \<Longrightarrow> abd_right ceil_log s' \<Longrightarrow>
      meets t (abd_right ceil_log) R (k c st s')"
  shows "meets t (abd_right ceil_log) R (bindM (liftM (is_closed_at (ap_prf app) i)) (\<lambda>c s.
    bindM (expand_proof_state n app rule) (\<lambda>st s. k c st s) s) s)"
proof (rule meets_bind, rule closed_at_meets [OF app s])
  fix c s1 assume c: "liftM (is_closed_at (ap_prf app) i) s = (Inr c, s1)" and s1: "abd_right ceil_log s1"
  show "meets t (abd_right ceil_log) R (bindM (expand_proof_state n app rule) (\<lambda>st s. k c st s) s1)"
    by (rule meets_bind, rule expand_meets [OF rule app(1) g(1) order_refl g(2) s1]) (rule k [OF c])
qed

lemma bfs_aux_meets:
  assumes rule: "abdrule_meets t Q ceil_log rule"
    and check: "\<forall>d e. env_right ceil_log e \<longrightarrow> meets t (env_right ceil_log) (\<lambda>_. True) (check d e)"
  shows "abd_right ceil_log s \<Longrightarrow> \<forall>ps \<in> set stack. state_ok Q ceil_log seq bound ps \<Longrightarrow>
    \<forall>ps \<in> set frontier. state_ok Q ceil_log seq (bound + 1) ps \<Longrightarrow>
    meets t (abd_right ceil_log) (\<lambda>res. \<forall>x. res = Some x \<longrightarrow> bfs_good Q ceil_log seq maxbound check x)
      (bfs_aux maxbound rule check bound frontier stack s)"
  using rule check
proof (induction maxbound rule check bound frontier stack s rule: bfs_aux.induct)
  case (1 maxbound rule check bound frontier stack s)
  let ?R = "\<lambda>res. \<forall>x. res = Some x \<longrightarrow> bfs_good Q ceil_log seq maxbound check x"
  note IH = "1.IH" and s = "1.prems"(1) and stack = "1.prems"(2) and frontier = "1.prems"(3)
    and rule = "1.prems"(4) and check = "1.prems"(5)
  consider (stop) "bound > maxbound \<or> stack = [] \<and> frontier = []"
    | (next_bound) "\<not> (bound > maxbound \<or> stack = [] \<and> frontier = [])" "stack = []"
    | (pop) ps rest where "\<not> (bound > maxbound \<or> stack = [] \<and> frontier = [])" "stack = ps # rest" "ps_apps ps = []"
    | (app) ps rest app apps where "\<not> (bound > maxbound \<or> stack = [] \<and> frontier = [])" "stack = ps # rest" "ps_apps ps = app # apps"
    by (metis list.exhaust)
  then show ?case
  proof cases
    case stop
    with s show ?thesis by (subst bfs_aux.simps) (simp add: meets_return)
  next
    case next_bound
    have "meets t (abd_right ceil_log) ?R (bfs_aux maxbound rule check (bound + 1) [] (rev frontier) s)"
      by (rule IH(1) [OF next_bound s _ _ rule check]) (use frontier in auto)
    with next_bound show ?thesis by (subst bfs_aux.simps) simp
  next
    case pop
    have "meets t (abd_right ceil_log) ?R (bfs_aux maxbound rule check bound frontier rest s)"
      by (rule IH(2) [OF pop s _ frontier rule check]) (use stack pop in auto)
    with pop show ?thesis by (subst bfs_aux.simps) simp
  next
    case app
    let ?stack = "ps\<lparr>ps_apps := apps\<rparr> # rest"
    have ok: "app_ok Q ceil_log seq bound app" "ps_idx ps \<in> dom (map_of (ap_prf app))"
      using stack by (auto simp: app state_ok_def)
    have st: "\<forall>ps \<in> set ?stack. state_ok Q ceil_log seq bound ps"
      using stack state_ok_drop [OF _ app(3)] by (auto simp: app(2))
    have dep: "ap_depth app \<le> bound" "list_all (\<lambda>(_, gd). gd \<le> bound) (ap_goals app)"
      using ok(1) by (auto simp: app_ok_def list_all_iff)
    note closed = app_ok_closed [OF ok(1)]
    show ?thesis
    proof (cases "ap_goals app")
      case Nil
      have "meets t (abd_right ceil_log) ?R (bindM (on_env (on_env (check (ap_defs app)))) (\<lambda>b s.
          if b then returnM (Some (ap_prf app, ap_depth app, ap_defs app)) s
          else bfs_aux maxbound rule check bound frontier ?stack s) s)"
        by (rule checked_meets [OF check ok(1) Nil _ s])
          (use app(1) Nil closed IH(3) [OF app dep refl Nil _ _ _ _ st frontier rule check] in auto)
      with app dep Nil closed show ?thesis by (subst bfs_aux.simps) (simp add: assertM_def)
    next
      case (Cons g gs)
      then have goals: "ap_goals app \<noteq> []" "\<not> is_closed (ap_prf app)" "ap_goals app = (fst g, snd g) # gs" using closed by simp_all
      show ?thesis
      proof (cases "list_ex (\<lambda>(_, gd). gd = bound) (ap_goals app)")
        case at: True
        have e: "meets t (abd_right ceil_log) (state_ok Q ceil_log seq (bound + 1)) (expand_proof_state (ps_seq_no ps) app rule s)"
          by (rule expand_meets [OF rule ok(1) goals(3) _ _ s]) (use dep(2) Cons in \<open>auto simp: case_prod_unfold\<close>)
        have "meets t (abd_right ceil_log) ?R (bindM (expand_proof_state (ps_seq_no ps) app rule) (\<lambda>st s.
            bfs_aux maxbound rule check bound (st # frontier) ?stack s) s)"
          by (rule meets_bind, rule e, rule IH(4) [OF app dep refl goals(1,2) at _ _ st _ rule check]) (use frontier in auto)
        with app dep goals(1,2) at show ?thesis by (subst bfs_aux.simps) (simp add: assertM_def)
      next
        case at: False
        then have less: "snd g + 1 \<le> bound" using dep(2) by (auto simp: Cons case_prod_unfold)
        let ?pop = "\<lambda>closed. if closed then pop_parents (ps_seq_no ps) ?stack else ?stack"
        have pop: "\<forall>ps \<in> set (?pop c). state_ok Q ceil_log seq bound ps" for c
          using st pop_parents_set [of "ps_seq_no ps" ?stack] by auto
        have "meets t (abd_right ceil_log) ?R (bindM (liftM (is_closed_at (ap_prf app) (ps_idx ps))) (\<lambda>c s.
            bindM (expand_proof_state (ps_seq_no ps) app rule) (\<lambda>st s.
              bfs_aux maxbound rule check bound frontier (st # ?pop c) s) s) s)"
          by (rule below_meets [OF rule ok goals(3) less s], rule IH(5) [OF app dep refl goals(1,2) at _ refl _ _ _ frontier rule check])
            (use pop in auto)
        with app dep goals(1,2) at show ?thesis by (subst bfs_aux.simps) (simp add: assertM_def Let_def)
      qed
    qed
  qed
qed

lemma bfs_meets:
  fixes rule :: "('q, 'd, 'b) abdrule"
  assumes rule: "abdrule_meets t Q ceil_log rule"
    and check: "\<forall>d e. env_right ceil_log e \<longrightarrow> meets t (env_right ceil_log) (\<lambda>_. True) (check d e)"
    and s: "abd_right ceil_log s"
  shows "meets t (abd_right ceil_log) (\<lambda>res. \<forall>P defs. res = Some (P, defs) \<longrightarrow>
    (\<exists>d. bfs_good Q ceil_log seq maxbound check (P, d, defs))) (bfs maxbound rule seq defs0 check s)"
proof -
  let ?app = "mk_app (prf_mk seq) 0 [(0, 0)] defs0"
  have "app_ok Q ceil_log seq 0 ?app"
    by (simp add: app_ok_def mk_app_def prf_mk_sound prf_mk_open advances_refl)
  note e = expand_meets [OF rule this _ _ _ s, of 0 0 "[]" 1]
  show ?thesis
    unfolding bfs_def Let_def
  proof (rule meets_bind, rule e)
    fix st :: "('q, 'd) abd_proof_state" and s' :: "'b abd_state"
    assume "state_ok Q ceil_log seq 1 st" and s': "abd_right ceil_log s'"
    then have a: "meets t (abd_right ceil_log) (\<lambda>res. \<forall>x. res = Some x \<longrightarrow> bfs_good Q ceil_log seq maxbound check x)
        (bfs_aux maxbound rule check 1 [] [st] s')"
      by (intro bfs_aux_meets [OF rule check]) simp_all
    show "meets t (abd_right ceil_log) (\<lambda>res. \<forall>P defs. res = Some (P, defs) \<longrightarrow>
        (\<exists>d. bfs_good Q ceil_log seq maxbound check (P, d, defs)))
        (bindM (bfs_aux maxbound rule check 1 [] [st]) (\<lambda>r. case r of None \<Rightarrow> returnM None
          | Some (p, d, defs) \<Rightarrow> bindM (on_env (set_last_search_depth d)) (\<lambda>_. returnM (Some (p, defs)))) s')"
      by (rule meets_bind, rule a)
        (auto simp: meets_def bindM_def returnM_def on_env_def set_last_search_depth_def abd_right_def split: option.split)
  qed (simp_all add: mk_app_def)
qed

end
