(* ===== verification/Seq_Tactics.thy ===== *)
theory Seq_Tactics
  imports Prover_Rules
begin

text \<open>
  Tactics on sequents (seqtactics.ml): functions from a sequent to the ways of replacing it
  by premises, each with its tag pairs. Composing two tactics composes the tag pairs. The
  choice of one application per premise is made by \<^verbatim>\<open>Blist.choose\<close>.
\<close>

section \<open>Definitions\<close>

text \<open>\<^verbatim>\<open>Blist.choose\<close>: the accumulators make every second list come out reversed, so it is reversed first.\<close>

definition choose_list :: "'a list list \<Rightarrow> 'a list list" where
  "choose_list lol =
     (case foldl (\<lambda>(r, a) l. (\<not> r, (if r then rev l else l) # a)) (True, []) lol of (_, lol) \<Rightarrow>
        foldl (\<lambda>ll. foldl (\<lambda>tl e. foldl (\<lambda>t l. (e # l) # t) tl ll) []) [[]] lol)"

type_synonym 'q tactic_t = "'q \<Rightarrow> 'q infrule_app list"

definition relabel :: "string \<Rightarrow> 'q tactic_t \<Rightarrow> 'q tactic_t" where
  "relabel descr rl seq = map (\<lambda>(app, _). (app, descr)) (rl seq)"

definition tac_attempt :: "'q sequent_sig \<Rightarrow> 'q tactic_t \<Rightarrow> 'q tactic_t" where
  "tac_attempt Q rl seq =
     (case rl seq of
        [] \<Rightarrow> [([(seq, tp_mk (seq_tags Q seq), {})], '''')]
      | apps \<Rightarrow> apps)"

definition fix_subgoal :: "tagpairs \<Rightarrow> tagpairs \<Rightarrow> 'q \<times> tagpairs \<times> tagpairs \<Rightarrow> 'q \<times> tagpairs \<times> tagpairs" where
  "fix_subgoal tv tp = (\<lambda>(seq', tv', tp').
     (seq', tp_compose tv tv', union_of_list [tp_compose tp tp', tp_compose tv tp', tp_compose tp tv']))"

definition apply_to_subgoal :: "'q tactic_t \<Rightarrow> 'q \<times> tagpairs \<times> tagpairs \<Rightarrow> 'q infrule_app list" where
  "apply_to_subgoal r = (\<lambda>(seq, tv, tp). map (\<lambda>(l, d). (map (fix_subgoal tv tp) l, d)) (r seq))"

definition filt_emp :: "string list \<Rightarrow> string list" where
  "filt_emp ss = filter (\<lambda>s. length s \<noteq> 0) ss"

text \<open>\<^verbatim>\<open>String.concat\<close>.\<close>

fun string_concat :: "string \<Rightarrow> string list \<Rightarrow> string" where
  "string_concat sep [] = []"
| "string_concat sep [s] = s"
| "string_concat sep (s # t # ss) = s @ sep @ string_concat sep (t # ss)"

definition apply_to_application :: "'q tactic_t \<Rightarrow> 'q infrule_app \<Rightarrow> 'q infrule_app list" where
  "apply_to_application r = (\<lambda>(subgoals, d).
     let apps = map (apply_to_subgoal r) subgoals;
         choices = choose_list apps
     in map (\<lambda>l. (concat (map fst l),
                  string_concat ''/'' (filt_emp [d, string_concat '','' (filt_emp (map snd l))]))) choices)"

definition tac_compose :: "'q tactic_t \<Rightarrow> 'q tactic_t \<Rightarrow> 'q tactic_t" where
  "tac_compose r r' seq = concat (map (apply_to_application r') (r seq))"

fun tac_first :: "'q tactic_t list \<Rightarrow> 'q tactic_t" where
  "tac_first [] seq = []"
| "tac_first (r # rs) seq = (case r seq of [] \<Rightarrow> tac_first rs seq | apps \<Rightarrow> apps)"

definition tac_choice :: "'q tactic_t list \<Rightarrow> 'q tactic_t" where
  "tac_choice rs seq = concat (map (\<lambda>r. r seq) rs)"

text \<open>
  The inner function of \<^verbatim>\<open>repeat\<close> applies the tactic as long as it can. The first argument
  bounds the depth of the recursion; a recursion that exceeds every bound does not end.
\<close>

primrec repeat_rec :: "nat \<Rightarrow> 'q tactic_t \<Rightarrow> 'q infrule_app \<Rightarrow> 'q infrule_app list result" where
  "repeat_rec 0 r app = Inl Diverges"
| "repeat_rec (Suc k) r app =
     (case apply_to_application r app of
        [] \<Rightarrow> Inr [app]
      | apps \<Rightarrow> bindE (mapE (repeat_rec k r) apps) (\<lambda>xss. Inr (concat xss)))"

definition tac_repeat :: "nat \<Rightarrow> 'q tactic_t \<Rightarrow> 'q \<Rightarrow> 'q infrule_app list result" where
  "tac_repeat k r seq = bindE (mapE (repeat_rec k r) (r seq)) (\<lambda>xss. Inr (concat xss))"

section \<open>Choosing one element of each list\<close>

fun alternate :: "bool \<Rightarrow> 'a list list \<Rightarrow> 'a list list" where
  "alternate r [] = []"
| "alternate r (l # ls) = (if r then rev l else l) # alternate (\<not> r) ls"

lemma alternate_foldl:
  "snd (foldl (\<lambda>(r, a) l. (\<not> r, (if r then rev l else l) # a)) (r, acc) lol) = rev (alternate r lol) @ acc"
  by (induction lol arbitrary: r acc) auto

lemma prepend_foldl:
  "foldl (\<lambda>tl e. foldl (\<lambda>t l. (e # l) # t) tl ll) acc l = rev (concat (map (\<lambda>e. map ((#) e) ll) l)) @ acc"
proof (induction l arbitrary: acc)
  case (Cons e l)
  have "foldl (\<lambda>t l. (e # l) # t) acc ll = rev (map ((#) e) ll) @ acc" for acc by (induction ll arbitrary: acc) auto
  with Cons show ?case by simp
qed simp

lemma alternate_foldr:
  "foldr (\<lambda>l ll. foldl (\<lambda>tl e. foldl (\<lambda>t l. (e # l) # t) tl ll) [] l) (alternate r lol) [[]] =
     (if r then product_lists lol else rev (product_lists lol))"
proof (induction lol arbitrary: r)
  case (Cons l lol)
  then show ?case by (cases r) (simp_all add: prepend_foldl rev_concat rev_map comp_def)
qed simp

lemma choose_list_eq: "choose_list lol = product_lists lol"
proof -
  let ?s = "foldl (\<lambda>(r, a) l. (\<not> r, (if r then rev l else l) # a)) (True, []) lol"
  have "choose_list lol = foldl (\<lambda>ll. foldl (\<lambda>tl e. foldl (\<lambda>t l. (e # l) # t) tl ll) []) [[]] (snd ?s)"
    by (simp add: choose_list_def case_prod_unfold)
  also have "snd ?s = rev (alternate True lol)" by (simp add: alternate_foldl)
  finally show ?thesis using alternate_foldr [of True lol] by (simp add: foldl_conv_foldr)
qed

section \<open>Applications\<close>

text \<open>An inference followed by one for a premise, as a single inference.\<close>

definition fuse :: "'q \<times> tagpairs \<times> tagpairs \<Rightarrow> 'q \<times> tagpairs \<times> tagpairs \<Rightarrow> 'q \<times> tagpairs \<times> tagpairs" where
  "fuse = (\<lambda>(_, tv, tp) (s, tv', tp'). (s, tv O tv', block_pairs tv tp tv' tp'))"

text \<open>The tag pairs of a premise relate tags of the conclusion to tags of the premise, and progressing pairs are pairs.\<close>

definition goal_ok :: "'q sequent_sig \<Rightarrow> 'q \<Rightarrow> 'q \<times> tagpairs \<times> tagpairs \<Rightarrow> bool" where
  "goal_ok Q seq = (\<lambda>(s, tv, tp). finite tv \<and> tp \<subseteq> tv \<and> tv \<subseteq> seq_tags Q seq \<times> seq_tags Q s)"

definition tac_ok :: "'q sequent_sig \<Rightarrow> 'q tactic_t \<Rightarrow> bool" where
  "tac_ok Q r \<longleftrightarrow> (\<forall>seq. \<forall>app \<in> set (r seq). \<forall>g \<in> set (fst app). goal_ok Q seq g)"

lemma tac_okD: "tac_ok Q r \<Longrightarrow> app \<in> set (r seq) \<Longrightarrow> g \<in> set (fst app) \<Longrightarrow> goal_ok Q seq g"
  by (auto simp: tac_ok_def)

lemma goal_ok_finite: "goal_ok Q seq (s, tv, tp) \<Longrightarrow> finite tv \<and> finite tp"
  by (auto simp: goal_ok_def intro: finite_subset)

lemma fix_subgoal_eq:
  "goal_ok Q seq (s, tv, tp) \<Longrightarrow> goal_ok Q s g \<Longrightarrow> fix_subgoal tv tp g = fuse (s, tv, tp) g"
  by (cases g) (auto simp: fix_subgoal_def fuse_def tp_compose_relcomp union_of_list_def block_pairs_def dest!: goal_ok_finite)

lemma fuse_ok: "goal_ok Q seq g \<Longrightarrow> goal_ok Q (fst g) g' \<Longrightarrow> goal_ok Q seq (fuse g g')"
  by (cases g; cases g') (auto simp: fuse_def goal_ok_def block_pairs_def finite_relcomp)

lemma fuse_fst [simp]: "fst (fuse g g') = fst g'"
  by (simp add: fuse_def case_prod_unfold)

definition join_label :: "string \<Rightarrow> string list \<Rightarrow> string" where
  "join_label d ds = string_concat ''/'' (filt_emp [d, string_concat '','' (filt_emp ds)])"

text \<open>Every premise of the application is replaced by the premises of one application of the tactic to it.\<close>

lemma apply_to_application_mem:
  assumes r: "tac_ok Q r" and goals: "\<And>g. g \<in> set goals \<Longrightarrow> goal_ok Q seq g"
  shows "app \<in> set (apply_to_application r (goals, d)) \<longleftrightarrow>
    (\<exists>as. list_all2 (\<lambda>g a. a \<in> set (r (fst g))) goals as \<and>
      app = (concat (map2 (\<lambda>g a. map (fuse g) (fst a)) goals as), join_label d (map snd as)))"
proof -
  let ?sub = "\<lambda>g a. (map (fuse g) (fst a), snd a)" and ?h = "\<lambda>l. (concat (map fst l), join_label d (map snd l))"
  have "apply_to_subgoal r g = map (?sub g) (r (fst g))" if "g \<in> set goals" for g
    using goals [OF that] tac_okD [OF r]
    by (cases g) (auto simp: apply_to_subgoal_def case_prod_unfold intro!: fix_subgoal_eq [of Q seq])
  then have "list_all2 (\<lambda>x g. x \<in> set (apply_to_subgoal r g)) l goals \<longleftrightarrow>
      list_all2 (\<lambda>x g. \<exists>a \<in> set (r (fst g)). x = ?sub g a) l goals" for l
    by (intro list.rel_cong refl) auto
  then have "l \<in> set (choose_list (map (apply_to_subgoal r) goals)) \<longleftrightarrow>
      (\<exists>as. list_all2 (\<lambda>g a. a \<in> set (r (fst g))) goals as \<and> l = map2 ?sub goals as)" for l
    by (simp add: choose_list_eq product_lists_set list_all2_map2 list_all2_choice)
  moreover have "app \<in> set (apply_to_application r (goals, d)) \<longleftrightarrow>
      (\<exists>l \<in> set (choose_list (map (apply_to_subgoal r) goals)). app = ?h l)"
    by (simp add: apply_to_application_def Let_def join_label_def image_iff)
  moreover have "?h (map2 ?sub goals as) = (concat (map2 (\<lambda>g a. map (fuse g) (fst a)) goals as), join_label d (map snd as))"
    if "list_all2 (\<lambda>g a. a \<in> set (r (fst g))) goals as" for as
  proof -
    have "map snd (map2 ?sub goals as) = map snd as"
      using list_all2_lengthD [OF that] by (induction goals as rule: list_induct2) simp_all
    moreover have "map fst (map2 ?sub goals as) = map2 (\<lambda>g a. map (fuse g) (fst a)) goals as"
      by (simp add: comp_def case_prod_unfold)
    ultimately show ?thesis by (simp only:)
  qed
  ultimately show ?thesis unfolding Bex_def by (auto simp del: map_map)
qed

lemma apply_to_application_ok:
  assumes "tac_ok Q r" and "\<And>g. g \<in> set (fst a) \<Longrightarrow> goal_ok Q seq g" and "app \<in> set (apply_to_application r a)" "g \<in> set (fst app)"
  shows "goal_ok Q seq g" "\<exists>g0 \<in> set (fst a). \<exists>b \<in> set (r (fst g0)). fst g \<in> fst ` set (fst b)"
proof -
  obtain goals d where a: "a = (goals, d)" by (cases a)
  obtain as where as: "list_all2 (\<lambda>g a. a \<in> set (r (fst g))) goals as"
    and app: "fst app = concat (map2 (\<lambda>g a. map (fuse g) (fst a)) goals as)"
    using assms(3) apply_to_application_mem [OF assms(1), of goals seq app d] assms(2) unfolding a by auto
  obtain g0 b where "(g0, b) \<in> set (zip goals as)" and g: "g \<in> fuse g0 ` set (fst b)" using assms(4) by (auto simp: app)
  then have b: "g0 \<in> set goals" "b \<in> set (r (fst g0))" using as by (auto simp: list_all2_iff dest: set_zip_leftD)
  then show "\<exists>g0 \<in> set (fst a). \<exists>b \<in> set (r (fst g0)). fst g \<in> fst ` set (fst b)" using g by (force simp: a)
  obtain g' where "g' \<in> set (fst b)" "g = fuse g0 g'" using g by blast
  with fuse_ok [of Q seq g0 g'] assms(2) [of g0] tac_okD [OF assms(1) b(2), of g'] b(1) show "goal_ok Q seq g" by (simp add: a)
qed

section \<open>The combinators keep tag pairs valid\<close>

lemma relabel_ok: "tac_ok Q r \<Longrightarrow> tac_ok Q (relabel d r)"
  by (fastforce simp: tac_ok_def relabel_def)

lemma tac_attempt_ok: "sequent_laws Q \<Longrightarrow> tac_ok Q r \<Longrightarrow> tac_ok Q (tac_attempt Q r)"
  by (auto simp: tac_ok_def tac_attempt_def goal_ok_def tp_mk_Id sequent_lawsD(2) Id_on_def split: list.splits)

lemma tac_compose_ok:
  assumes "tac_ok Q r" and "tac_ok Q r'"
  shows "tac_ok Q (tac_compose r r')"
  unfolding tac_ok_def tac_compose_def
  using apply_to_application_ok(1) [OF assms(2)] tac_okD [OF assms(1)] by (auto simp: Ball_def) blast

lemma tac_first_mem: "app \<in> set (tac_first rs seq) \<Longrightarrow> \<exists>r \<in> set rs. app \<in> set (r seq)"
  by (induction rs) (auto split: list.splits)

lemma tac_first_ok: "(\<And>r. r \<in> set rs \<Longrightarrow> tac_ok Q r) \<Longrightarrow> tac_ok Q (tac_first rs)"
  unfolding tac_ok_def by (blast dest: tac_first_mem)

lemma tac_choice_ok: "(\<And>r. r \<in> set rs \<Longrightarrow> tac_ok Q r) \<Longrightarrow> tac_ok Q (tac_choice rs)"
  by (fastforce simp: tac_ok_def tac_choice_def)

lemmas tactics_ok = relabel_ok tac_attempt_ok tac_compose_ok tac_first_ok tac_choice_ok

section \<open>Repetition\<close>

text \<open>What a repetition returns: the applications that the tactic leads to and that it cannot go on from.\<close>

definition app_step :: "'q tactic_t \<Rightarrow> 'q infrule_app \<Rightarrow> 'q infrule_app \<Rightarrow> bool" where
  "app_step r a b \<longleftrightarrow> b \<in> set (apply_to_application r a)"

lemma app_steps:
  "(app_step r)\<^sup>*\<^sup>* a b \<longleftrightarrow> b = a \<or> (\<exists>c \<in> set (apply_to_application r a). (app_step r)\<^sup>*\<^sup>* c b)"
  by (auto simp: app_step_def elim: converse_rtranclpE intro: converse_rtranclp_into_rtranclp)

lemma repeat_rec_set:
  "repeat_rec k r a = Inr apps \<Longrightarrow> set apps = {b. (app_step r)\<^sup>*\<^sup>* a b \<and> apply_to_application r b = []}"
proof (induction k arbitrary: a apps)
  case (Suc k)
  let ?S = "\<lambda>a. {b. (app_step r)\<^sup>*\<^sup>* a b \<and> apply_to_application r b = []}"
  have steps: "?S a = (if apply_to_application r a = [] then {a} else {}) \<union> (\<Union>c \<in> set (apply_to_application r a). ?S c)"
    by (subst app_steps) (simp add: set_eq_iff, blast)
  show ?case
  proof (cases "apply_to_application r a")
    case Nil
    then have "apps = [a]" using Suc.prems by simp
    with Nil steps show ?thesis by simp
  next
    case (Cons c cs)
    then obtain xss where xss: "mapE (repeat_rec k r) (apply_to_application r a) = Inr xss" "apps = concat xss"
      using Suc.prems by (auto simp: bindE_eq_Inr)
    have "set (concat xss) = (\<Union>c \<in> set (apply_to_application r a). ?S c)"
      using xss(1)
    proof (rule mapE_concat)
      fix x ys assume "repeat_rec k r x = Inr ys"
      then show "set ys = ?S x" by (rule Suc.IH)
    qed
    with steps show ?thesis by (simp add: Cons xss(2))
  qed
qed simp

lemma tac_repeat_set:
  assumes "tac_repeat k r seq = Inr apps"
  shows "set apps = {b. \<exists>a \<in> set (r seq). (app_step r)\<^sup>*\<^sup>* a b \<and> apply_to_application r b = []}"
proof -
  obtain xss where xss: "mapE (repeat_rec k r) (r seq) = Inr xss" "apps = concat xss"
    using assms by (auto simp: tac_repeat_def bindE_eq_Inr)
  have "set (concat xss) = (\<Union>a \<in> set (r seq). {b. (app_step r)\<^sup>*\<^sup>* a b \<and> apply_to_application r b = []})"
    using xss(1) by (rule mapE_concat) (rule repeat_rec_set)
  then show ?thesis unfolding xss(2) by blast
qed

lemma app_steps_ok:
  assumes "(app_step r)\<^sup>*\<^sup>* a b" and r: "tac_ok Q r" and "\<forall>g \<in> set (fst a). goal_ok Q seq g"
  shows "\<forall>g \<in> set (fst b). goal_ok Q seq g"
  using assms(1,3)
proof (induction rule: rtranclp_induct)
  case (step b c)
  then show ?case using apply_to_application_ok(1) [OF r, of b seq c] by (auto simp: app_step_def)
qed

lemma tac_repeat_ok:
  assumes "tac_ok Q r" and "tac_repeat k r seq = Inr apps" and "app \<in> set apps" "g \<in> set (fst app)"
  shows "goal_ok Q seq g"
proof -
  obtain a where "a \<in> set (r seq)" "(app_step r)\<^sup>*\<^sup>* a app" using assms(3) unfolding tac_repeat_set [OF assms(2)] by blast
  with app_steps_ok [OF this(2) assms(1), of seq] tac_okD [OF assms(1)] assms(4) show ?thesis by blast
qed

text \<open>
  The tactics that the combinators make from tactics with valid tag pairs; \<^verbatim>\<open>repeat\<close> is a
  tactic where it ends.
\<close>

inductive made_tactic :: "'q sequent_sig \<Rightarrow> 'q tactic_t \<Rightarrow> bool" for Q where
  given: "tac_ok Q r \<Longrightarrow> made_tactic Q r"
| relabel: "made_tactic Q r \<Longrightarrow> made_tactic Q (relabel d r)"
| attempt: "made_tactic Q r \<Longrightarrow> made_tactic Q (tac_attempt Q r)"
| compose: "made_tactic Q r \<Longrightarrow> made_tactic Q r' \<Longrightarrow> made_tactic Q (tac_compose r r')"
| first: "(\<And>r. r \<in> set rs \<Longrightarrow> made_tactic Q r) \<Longrightarrow> made_tactic Q (tac_first rs)"
| choice: "(\<And>r. r \<in> set rs \<Longrightarrow> made_tactic Q r) \<Longrightarrow> made_tactic Q (tac_choice rs)"
| repeated: "made_tactic Q r \<Longrightarrow> (\<And>s. \<exists>k. tac_repeat k r s = Inr (r' s)) \<Longrightarrow> made_tactic Q r'"

lemma made_tactic_ok:
  assumes "made_tactic Q r" and "sequent_laws Q"
  shows "tac_ok Q r"
  using assms(1)
proof induction
  case (repeated r r')
  show ?case
    unfolding tac_ok_def
  proof (intro allI ballI)
    fix seq app g assume "app \<in> set (r' seq)" "g \<in> set (fst app)"
    moreover obtain k where "tac_repeat k r seq = Inr (r' seq)" using repeated.hyps(2) by blast
    ultimately show "goal_ok Q seq g" using tac_repeat_ok [OF repeated.IH] by blast
  qed
qed (auto intro: tactics_ok simp: assms(2))

text \<open>
  Every step applies the tactic to all premises, so it ends when the tactic always leaves
  premises and these are smaller. An application without premises is applied to without end.
\<close>

lemma apply_to_subgoal_premises:
  assumes "x \<in> set (apply_to_subgoal r g)"
  shows "\<exists>c \<in> set (r (fst g)). map fst (fst x) = map fst (fst c)"
proof -
  obtain s tv tp where g: "g = (s, tv, tp)" by (cases g)
  have "fst (fix_subgoal tv tp g') = fst g'" for g' :: "'a \<times> tagpairs \<times> tagpairs"
    by (simp add: fix_subgoal_def case_prod_unfold)
  moreover obtain c where c: "c \<in> set (r s)" "x = (map (fix_subgoal tv tp) (fst c), snd c)"
    using assms by (auto simp: apply_to_subgoal_def g)
  ultimately have "map fst (fst x) = map fst (fst c)" by simp
  with c(1) show ?thesis unfolding g fst_conv by (rule rev_bexI)
qed

lemma apply_to_application_premises:
  assumes "b \<in> set (apply_to_application r a)"
  shows "\<forall>g \<in> set (fst b). \<exists>g0 \<in> set (fst a). \<exists>c \<in> set (r (fst g0)). fst g \<in> fst ` set (fst c)"
    and "fst b = [] \<Longrightarrow> \<forall>g0 \<in> set (fst a). \<exists>c \<in> set (r (fst g0)). fst c = []"
proof -
  obtain l where l: "list_all2 (\<lambda>x g. x \<in> set (apply_to_subgoal r g)) l (fst a)" and b: "fst b = concat (map fst l)"
    using assms by (auto simp: apply_to_application_def case_prod_unfold choose_list_eq product_lists_set list_all2_map2)
  have left: "\<exists>y \<in> set ys. R x y" if "list_all2 R xs ys" "x \<in> set xs" for R xs ys and x :: "'a infrule_app"
    using that by (induction rule: list_all2_induct) auto
  have right: "\<exists>x \<in> set xs. R x y" if "list_all2 R xs ys" "y \<in> set ys" for R and xs :: "'a infrule_app list" and ys y
    using that by (induction rule: list_all2_induct) auto
  show "\<forall>g \<in> set (fst b). \<exists>g0 \<in> set (fst a). \<exists>c \<in> set (r (fst g0)). fst g \<in> fst ` set (fst c)"
  proof
    fix g assume "g \<in> set (fst b)"
    then obtain x where x: "x \<in> set l" "g \<in> set (fst x)" by (auto simp: b)
    obtain g0 where "g0 \<in> set (fst a)" "x \<in> set (apply_to_subgoal r g0)" using left [OF l x(1)] by blast
    moreover from this(2) obtain c where "c \<in> set (r (fst g0))" "map fst (fst x) = map fst (fst c)"
      by (blast dest: apply_to_subgoal_premises)
    moreover from this(2) have "fst ` set (fst x) = fst ` set (fst c)" by (metis list.set_map)
    ultimately show "\<exists>g0 \<in> set (fst a). \<exists>c \<in> set (r (fst g0)). fst g \<in> fst ` set (fst c)" using x(2) by blast
  qed
  show "\<forall>g0 \<in> set (fst a). \<exists>c \<in> set (r (fst g0)). fst c = []" if "fst b = []"
  proof
    fix g0 assume "g0 \<in> set (fst a)"
    from right [OF l this] obtain x where "x \<in> set l" "x \<in> set (apply_to_subgoal r g0)" by blast
    moreover from this(2) obtain c where "c \<in> set (r (fst g0))" "map fst (fst x) = map fst (fst c)"
      by (blast dest: apply_to_subgoal_premises)
    ultimately show "\<exists>c \<in> set (r (fst g0)). fst c = []" using that b by (intro bexI [of _ c]) auto
  qed
qed

lemma repeat_rec_returns:
  assumes shrink: "\<And>s app. app \<in> set (r s) \<Longrightarrow> fst app \<noteq> [] \<and> (\<forall>g \<in> set (fst app). \<mu> (fst g) < (\<mu> s :: nat))"
  shows "fst a \<noteq> [] \<Longrightarrow> \<forall>g \<in> set (fst a). \<mu> (fst g) < k \<Longrightarrow> \<exists>apps. repeat_rec k r a = Inr apps"
proof (induction k arbitrary: a)
  case (Suc k)
  have "\<exists>apps. repeat_rec k r b = Inr apps" if b: "b \<in> set (apply_to_application r a)" for b
  proof (rule Suc.IH)
    show "fst b \<noteq> []" using apply_to_application_premises(2) [OF b] Suc.prems(1) shrink by (cases "fst a") auto
    show "\<forall>g \<in> set (fst b). \<mu> (fst g) < k"
    proof
      fix g assume "g \<in> set (fst b)"
      then obtain g0 c where "g0 \<in> set (fst a)" "c \<in> set (r (fst g0))" "fst g \<in> fst ` set (fst c)"
        using apply_to_application_premises(1) [OF b] by blast
      with shrink [OF this(2)] Suc.prems(2) show "\<mu> (fst g) < k" by fastforce
    qed
  qed
  then obtain xss where "mapE (repeat_rec k r) (apply_to_application r a) = Inr xss" using mapE_returns by blast
  then show ?case by (cases "apply_to_application r a") auto
next
  case 0
  then show ?case by (cases "fst a") auto
qed

lemma tac_repeat_returns:
  assumes shrink: "\<And>s app. app \<in> set (r s) \<Longrightarrow> fst app \<noteq> [] \<and> (\<forall>g \<in> set (fst app). \<mu> (fst g) < (\<mu> s :: nat))"
  shows "\<exists>apps. tac_repeat (\<mu> seq) r seq = Inr apps"
proof -
  have "\<exists>apps. repeat_rec (\<mu> seq) r a = Inr apps" if "a \<in> set (r seq)" for a
    using repeat_rec_returns [of r \<mu> a "\<mu> seq"] shrink shrink [OF that] by blast
  then obtain xss where "mapE (repeat_rec (\<mu> seq) r) (r seq) = Inr xss" using mapE_returns by blast
  then show ?thesis by (simp add: tac_repeat_def)
qed

lemma apply_to_closed: "apply_to_application r ([], d) = [([], join_label d [])]"
  by (simp add: apply_to_application_def choose_list_def join_label_def Let_def)

lemma repeat_rec_closed: "repeat_rec k r ([], d) = Inl Diverges"
  by (induction k arbitrary: d) (simp_all add: apply_to_closed)

lemma repeat_rec_error: "repeat_rec k r a = Inl e \<Longrightarrow> e = Diverges"
proof (induction k arbitrary: a)
  case (Suc k)
  then obtain b where "repeat_rec k r b = Inl e"
    by (auto simp: bindE_def split: list.splits sum.splits dest!: mapE_error)
  then show ?case by (rule Suc.IH)
qed simp

lemma tac_repeat_closed:
  assumes "([], d) \<in> set (r seq)"
  shows "tac_repeat k r seq = Inl Diverges"
proof -
  have "mapE (repeat_rec k r) (r seq) = Inl Diverges"
    using assms repeat_rec_closed by (rule mapE_fails) (rule repeat_rec_error)
  then show ?thesis by (simp add: tac_repeat_def)
qed

end
