(* ===== verification/Prover_Valid.thy ===== *)
theory Prover_Valid
  imports Seq_Tactics
begin

text \<open>
  Proofs whose tag pairs relate tags of a node to tags of its premises. The constructors keep
  this property when they are given such tag pairs, as tactics provide them, and on a proof
  that has it the soundness check never fails.
\<close>

section \<open>Valid tag pairs\<close>

definition prf_valid :: "'q sequent_sig \<Rightarrow> 'q proof_t \<Rightarrow> bool" where
  "prf_valid Q P \<longleftrightarrow>
     (\<forall>i x. map_of P i = Some x \<longrightarrow> (\<forall>(j, tv, tp) \<in> set (node_premises (snd x)).
        \<exists>y. map_of P j = Some y \<and> goal_ok Q (node_get_seq (snd x)) (node_get_seq (snd y), tv, tp)))"

lemma prf_validD:
  "prf_valid Q P \<Longrightarrow> map_of P i = Some x \<Longrightarrow> (j, tv, tp) \<in> set (node_premises (snd x)) \<Longrightarrow>
    \<exists>y. map_of P j = Some y \<and> goal_ok Q (node_get_seq (snd x)) (node_get_seq (snd y), tv, tp)"
  unfolding prf_valid_def by blast

lemma prf_valid_finite: "prf_valid Q P \<Longrightarrow> prf_finite P"
  unfolding prf_finite_def node_finite_def by (blast dest: prf_validD goal_ok_finite)

lemma prf_valid_closed:
  assumes wf: "im_wf P" and v: "prf_valid Q P"
  shows "abs_closed (abs_of Q P)"
proof -
  have "premise_ok (abs_of Q P) a e" if a: "(i, a) \<in> set (abs_of Q P)" "e \<in> set (snd a)" for i a e
  proof -
    obtain p n where n: "(i, (p, n)) \<in> set P" "a = abs_node Q n" using a(1) by (auto simp: abs_of_def)
    have l: "map_of P i = Some (p, n)" using n(1) im_wf_distinct [OF wf] by simp
    obtain j tv tp where e: "e = (j, ints tv, ints tp)" "(j, tv, tp) \<in> set (node_premises n)"
      using a(2) by (auto simp: n(2) abs_node_def)
    obtain y where y: "map_of P j = Some y" "goal_ok Q (node_get_seq n) (node_get_seq (snd y), tv, tp)"
      using prf_validD [OF v l, of j tv tp] e(2) by auto
    then have t: "tp \<subseteq> tv" "fst ` tv \<subseteq> seq_tags Q (node_get_seq n)" "snd ` tv \<subseteq> seq_tags Q (node_get_seq (snd y))"
      by (auto simp: goal_ok_def)
    have "ints tp \<subseteq> ints tv" using t(1) by (auto simp: ints_def)
    with t y(1) show ?thesis
      by (cases y) (auto simp: premise_ok_def e(1) n(2) abs_node_def abs_of_lookup ints_proj)
  qed
  then show ?thesis unfolding abs_closed_def by blast
qed

lemma expands_valid:
  assumes ok: "prf_ok Q P" and e: "expands P i n ss P'" and v: "prf_valid Q P"
    and n: "\<And>j tv tp. (j, tv, tp) \<in> set (node_premises n) \<Longrightarrow>
      \<exists>y. map_of P' j = Some y \<and> goal_ok Q (node_get_seq n) (node_get_seq (snd y), tv, tp)"
  shows "prf_valid Q P'"
  unfolding prf_valid_def
proof (intro allI impI ballI, clarify)
  fix k p m j tv tp
  assume k: "map_of P' k = Some (p, m)" and pr: "(j, tv, tp) \<in> set (node_premises (snd (p, m)))"
  obtain q m0 where i: "map_of P' i = Some (q, n)"
    "\<And>j. j \<noteq> i \<Longrightarrow> j \<in> set (inf_idxs P ss) \<Longrightarrow> map_of P' j = Some (i, mk_open (ss ! nat (j - int (length P))))"
    "\<And>j. j \<noteq> i \<Longrightarrow> j \<notin> set (inf_idxs P ss) \<Longrightarrow> map_of P' j = map_of P j"
    using e by (rule expandsD) blast
  show "\<exists>y. map_of P' j = Some y \<and> goal_ok Q (node_get_seq (snd (p, m))) (node_get_seq (snd y), tv, tp)"
  proof (cases "k = i")
    case True
    with k i(1) pr n show ?thesis by simp
  next
    case False
    have "k \<notin> set (inf_idxs P ss)" using i(2) [OF False] k pr by (auto simp: mk_open_def)
    then have "map_of P k = Some (p, m)" using i(3) [OF False] k by simp
    from prf_validD [OF v this pr] obtain y where
      y: "map_of P j = Some y" "goal_ok Q (node_get_seq m) (node_get_seq (snd y), tv, tp)" by auto
    with expands_grows [OF ok e] obtain y' where "map_of P' j = Some y'" "node_get_seq (snd y') = node_get_seq (snd y)"
      unfolding grows_def by blast
    with y(2) show ?thesis by auto
  qed
qed

lemma prf_mk_valid: "prf_valid Q (prf_mk s)"
  by (simp add: prf_valid_def prf_mk_lookup mk_open_def)

lemma add_axiom_valid:
  assumes ok: "prf_ok Q P" and v: "prf_valid Q P" and a: "add_axiom Q i d P = Inr P'"
  shows "prf_valid Q P'"
proof -
  obtain s where e: "expands P i (AxiomNode s d) [] P'" using add_axiom_expands [OF a prf_okD(1) [OF ok]] by blast
  show ?thesis by (rule expands_valid [OF ok e v]) simp
qed

lemma expands_seq: "expands P i n ss P' \<Longrightarrow> prf_get_seq i P = Inr s \<Longrightarrow> node_get_seq n = s"
  by (auto simp: expands_def prf_get_seq_eq)

lemma add_inf_valid:
  assumes ok: "prf_ok Q P" and v: "prf_valid Q P" and a: "add_inf Q i d goals P = Inr (idxs, P')"
    and s: "prf_get_seq i P = Inr s" and goals: "\<forall>g \<in> set goals. goal_ok Q s g"
  shows "prf_valid Q P'"
proof -
  obtain q where e: "expands P i (inf_node P q d goals) (map fst goals) P'" using add_inf_expands [OF ok a] by blast
  have q: "q = s" using expands_seq [OF e s] by (simp add: inf_node_def)
  obtain p m where i: "map_of P i = Some (p, m)"
    "\<And>j. j \<noteq> i \<Longrightarrow> j \<in> set (inf_idxs P (map fst goals)) \<Longrightarrow>
      map_of P' j = Some (i, mk_open (map fst goals ! nat (j - int (length P))))"
    using e by (rule expandsD) blast
  show ?thesis
  proof (rule expands_valid [OF ok e v])
    fix j tv tp assume "(j, tv, tp) \<in> set (node_premises (inf_node P q d goals))"
    then obtain k where k: "k < length goals" "j = int (length P) + int k" "goals ! k = (fst (goals ! k), tv, tp)"
      by (auto simp: inf_node_def in_set_zip inf_idxs_def) (metis prod.collapse)
    have "j \<in> set (inf_idxs P (map fst goals))" using k(1,2) by simp
    moreover from this have "j \<noteq> i" using expands_dom(3) [OF ok e] by blast
    ultimately have "map_of P' j = Some (i, mk_open (fst (goals ! k)))" using i(2) [of j] k(1,2) by simp
    moreover have "goal_ok Q s (fst (goals ! k), tv, tp)" using goals k(1,3) by (metis nth_mem)
    ultimately show "\<exists>y. map_of P' j = Some y \<and>
        goal_ok Q (node_get_seq (inf_node P q d goals)) (node_get_seq (snd y), tv, tp)"
      by (simp add: inf_node_def mk_open_def q)
  qed
qed

lemma add_backlink_valid:
  assumes ok: "prf_ok Q P" and v: "prf_valid Q P" and a: "add_backlink Q i d t vtts P = Inr P'"
    and s: "prf_get_seq i P = Inr s" and t: "prf_get_seq t P = Inr s'" and pairs: "goal_ok Q s (s', vtts, {})"
  shows "prf_valid Q P'"
proof -
  obtain q x where e: "expands P i (BackNode q d t vtts) [] P'" and x: "map_of P t = Some x"
    using add_backlink_expands [OF a prf_okD(1) [OF ok]] by blast
  have q: "q = s" using expands_seq [OF e s] by simp
  have "\<exists>y. map_of P' t = Some y \<and> node_get_seq (snd y) = node_get_seq (snd x)"
    using expands_grows [OF ok e] x unfolding grows_def by blast
  moreover have "node_get_seq (snd x) = s'" using t x by (auto simp: prf_get_seq_eq)
  ultimately show ?thesis by (intro expands_valid [OF ok e v]) (use pairs q in auto)
qed

section \<open>Building proofs\<close>

text \<open>The proofs that the constructors build from an open root, when they are given valid tag pairs.\<close>

inductive built :: "'q sequent_sig \<Rightarrow> 'q proof_t \<Rightarrow> bool" for Q where
  root: "built Q (prf_mk s)"
| axiom: "built Q P \<Longrightarrow> add_axiom Q i d P = Inr P' \<Longrightarrow> built Q P'"
| inf: "built Q P \<Longrightarrow> prf_get_seq i P = Inr s \<Longrightarrow> \<forall>g \<in> set goals. goal_ok Q s g \<Longrightarrow>
    add_inf Q i d goals P = Inr (idxs, P') \<Longrightarrow> built Q P'"
| backlink: "built Q P \<Longrightarrow> prf_get_seq i P = Inr s \<Longrightarrow> prf_get_seq t P = Inr s' \<Longrightarrow> goal_ok Q s (s', vtts, {}) \<Longrightarrow>
    add_backlink Q i d t vtts P = Inr P' \<Longrightarrow> built Q P'"

lemma built_ok: "built Q P \<Longrightarrow> prf_ok Q P \<and> prf_valid Q P"
proof (induction rule: built.induct)
  case (root s)
  show ?case by (simp add: prf_mk_ok prf_mk_valid)
next
  case (axiom P i d P')
  then show ?case using constructors_ok(1) [of Q P i d P'] add_axiom_valid [of Q P i d P'] by blast
next
  case (inf P i s goals d idxs P')
  then show ?case using constructors_ok(3) [of Q P i d goals idxs P'] add_inf_valid [of Q P i d goals idxs P' s] by blast
next
  case (backlink P i s t s' vtts d P')
  then show ?case using constructors_ok(2) [of Q P i d t vtts P'] add_backlink_valid [of Q P i d t vtts P' s s'] by blast
qed

text \<open>A rule made from a tactic with valid tag pairs builds such proofs.\<close>

lemma tactic_builds:
  assumes "built Q P" and r: "\<And>s l app g. r s = Inr l \<Longrightarrow> app \<in> set l \<Longrightarrow> g \<in> set (fst app) \<Longrightarrow> goal_ok Q s g"
    and "mk_infrule Q (\<lambda>s. liftM (r s)) i P e = (Inr apps, e')" and "app \<in> set apps"
  shows "built Q (snd app)"
proof -
  obtain s ra where s: "prf_get_seq i P = Inr s" and ra: "r s = Inr ra" and m: "mapE (\<lambda>(l, d). add_inf Q i d l P) ra = Inr apps"
    using assms(3) by (auto simp: mk_infrule_def bindM_def liftM_def returnM_def split: sum.splits)
  from mapE_mem [OF m assms(4)] obtain l d where "(l, d) \<in> set ra" "add_inf Q i d l P = Inr (fst app, snd app)"
    by auto
  then show ?thesis using built.inf [OF assms(1) s, of l d "fst app" "snd app"] r [OF ra] by fastforce
qed

section \<open>The check of a built proof\<close>

context spot_library
begin

lemma prf_check_total:
  assumes laws: "sequent_laws Q" and ok: "prf_ok Q P" and v: "prf_valid Q P"
    and range: "abs_in_range (abs_of Q P)" and log: "\<forall>n. 0 < n \<and> n \<le> length P \<longrightarrow> log_ok ceil_log n"
    and same: "\<forall>a b. same a b \<longrightarrow> a = b" and cache: "cache_ok 0 c"
  shows "\<exists>c'. prf_check Q B S ceil_log same P (c, idle) = Inr (gtc (prf_graph Q P) 0, c', idle) \<and> cache_ok 0 c'"
proof -
  note fin = prf_valid_finite [OF v]
  have "im_mem 0 (abs_of Q P)" using prf_ok_root [OF ok] by (auto simp: im_mem_map_of abs_of_lookup)
  then show ?thesis
    unfolding prf_check_eq [OF laws ok fin] prf_graph_def
    by (rule check_proof_ok [OF abs_of_ok [OF laws ok fin] prf_valid_closed [OF prf_okD(1) [OF ok] v] _ range])
      (use log same cache in auto)
qed

text \<open>The check of a list of proofs within the limits never fails and answers for each whether it is sound.\<close>

lemma check_app_total:
  assumes laws: "sequent_laws Q" and same: "\<forall>a b. same a b \<longrightarrow> a = b"
    and app: "prf_ok Q (snd app)" "prf_valid Q (snd app)" "prf_fits Q ceil_log (snd app)" and cache: "cache_ok 0 c"
  shows "\<exists>c'. check_app Q B S ceil_log same app (c, idle) = (Inr (gtc (prf_graph Q (snd app)) 0), (c', idle)) \<and> cache_ok 0 c'"
proof -
  obtain c' where "prf_check Q B S ceil_log same (snd app) (c, idle) = Inr (gtc (prf_graph Q (snd app)) 0, c', idle)" "cache_ok 0 c'"
    using prf_check_total [OF laws app(1,2) _ _ same cache, of ceil_log] app(3) by (auto simp: prf_fits_def)
  then show ?thesis by (simp add: check_app_def stateM_def case_prod_unfold)
qed

lemma check_apps_total:
  assumes laws: "sequent_laws Q" and same: "\<forall>a b. same a b \<longrightarrow> a = b"
  shows "\<forall>app \<in> set apps. prf_ok Q (snd app) \<and> prf_valid Q (snd app) \<and> prf_fits Q ceil_log (snd app) \<Longrightarrow> cache_ok 0 c \<Longrightarrow>
    (\<exists>c'. filterM (check_app Q B S ceil_log same) apps (c, idle) =
      (Inr (filter (\<lambda>app. gtc (prf_graph Q (snd app)) 0) apps), (c', idle)) \<and> cache_ok 0 c') \<and>
    (\<exists>c'. find_optM (check_app Q B S ceil_log same) apps (c, idle) =
      (Inr (find (\<lambda>app. gtc (prf_graph Q (snd app)) 0) apps), (c', idle)) \<and> cache_ok 0 c')"
proof (induction apps arbitrary: c)
  case (Cons app apps)
  obtain c1 where c1: "check_app Q B S ceil_log same app (c, idle) = (Inr (gtc (prf_graph Q (snd app)) 0), (c1, idle))"
    "cache_ok 0 c1"
    using check_app_total [OF laws same, of app ceil_log c] Cons.prems by auto
  with Cons.IH [of c1] Cons.prems show ?case by (auto simp: bindM_def returnM_def)
qed (simp add: returnM_def)

end

section \<open>Back-links that close a node\<close>

text \<open>The proofs with one back-link from a node, before the check: one for each target and each way to link to it.\<close>

definition back_apps ::
  "'q sequent_sig \<Rightarrow> 'q select_f \<Rightarrow> ('q \<Rightarrow> 'q \<Rightarrow> (tagpairs \<times> string) list) \<Rightarrow> int \<Rightarrow> 'q proof_t \<Rightarrow>
   (int list \<times> 'q proof_t) list result" where
  "back_apps Q sel_f g i P =
     bindE (prf_get_seq i P) (\<lambda>s.
     bindE (sel_f i P) (\<lambda>ts.
     bindE (mapE (\<lambda>t. bindE (prf_get_seq t P) (\<lambda>u.
       mapE (\<lambda>(v, d). bindE (add_backlink Q i d t v P) (\<lambda>p. Inr ([], p))) (g s u))) ts) (\<lambda>xss. Inr (concat xss))))"

lemma returnM_lift: "returnM x = liftM (Inr x)"
  by (simp add: fun_eq_iff returnM_def liftM_def)

lemma bindM_Inr: "bindM (liftM (Inr x)) f = f x"
  by (simp add: fun_eq_iff bindM_def liftM_def)

lemma bindM_assoc: "bindM (bindM m f) g = bindM m (\<lambda>x. bindM (f x) g)"
  by (auto simp: fun_eq_iff bindM_def split: prod.split sum.split)

lemma mapM_lift: "mapM (\<lambda>x. liftM (f x)) xs = liftM (mapE f xs)"
  by (induction xs) (auto simp: fun_eq_iff bindM_def liftM_def returnM_def bindE_def split: sum.split)

lemma bindM_lift: "bindM (liftM r) (\<lambda>x. liftM (f x)) = liftM (bindE r f)"
  by (auto simp: fun_eq_iff bindM_def liftM_def bindE_def split: sum.split)

lemma back_apps_eff:
  "bindM (liftM (prf_get_seq i P)) (\<lambda>s. bindM (liftM (sel_f i P)) (\<lambda>ts.
     bindM (bind_list (\<lambda>t. bindM (liftM (prf_get_seq t P)) (\<lambda>u. bindM (returnM (g s u)) (\<lambda>links.
       liftM (mapE (\<lambda>(v, d). bindE (add_backlink Q i d t v P) (\<lambda>p. Inr ([], p))) links)))) ts) k)) =
   bindM (liftM (back_apps Q sel_f g i P)) k"
  by (simp add: back_apps_def bind_list_def returnM_lift bindM_lift mapM_lift bindM_assoc [symmetric])

lemma mk_backrule_apps:
  assumes "back_apps Q sel_f g i P = Inr apps"
  shows "mk_backrule Q B S ceil_log same greedy sel_f (\<lambda>s t. returnM (g s t)) i P =
    (if greedy then bindM (find_optM (check_app Q B S ceil_log same) apps) (\<lambda>r. returnM (case r of None \<Rightarrow> [] | Some x \<Rightarrow> [x]))
     else filterM (check_app Q B S ceil_log same) apps)"
  unfolding mk_backrule_def back_apps_eff assms bindM_Inr ..

lemma back_apps_mem:
  assumes "back_apps Q sel_f g i P = Inr apps" and "app \<in> set apps"
  shows "\<exists>s t u v d. prf_get_seq i P = Inr s \<and> prf_get_seq t P = Inr u \<and> (v, d) \<in> set (g s u) \<and>
    add_backlink Q i d t v P = Inr (snd app) \<and> fst app = []"
proof -
  obtain s ts xss where s: "prf_get_seq i P = Inr s" "apps = concat xss"
    and m: "mapE (\<lambda>t. bindE (prf_get_seq t P) (\<lambda>u.
       mapE (\<lambda>(v, d). bindE (add_backlink Q i d t v P) (\<lambda>p. Inr ([], p))) (g s u))) ts = Inr xss"
    using assms(1) by (auto simp: back_apps_def bindE_eq_Inr)
  obtain xs where "xs \<in> set xss" "app \<in> set xs" using assms(2) by (auto simp: s)
  moreover from mapE_mem [OF m this(1)] obtain t u where u: "prf_get_seq t P = Inr u"
    "mapE (\<lambda>(v, d). bindE (add_backlink Q i d t v P) (\<lambda>p. Inr ([], p))) (g s u) = Inr xs"
    by (auto simp: bindE_eq_Inr)
  ultimately obtain x where "x \<in> set (g s u)" "(case x of (v, d) \<Rightarrow> bindE (add_backlink Q i d t v P) (\<lambda>p. Inr ([], p))) = Inr app"
    using mapE_mem [OF u(2), of app] by blast
  moreover obtain v d where "x = (v, d)" by (cases x)
  ultimately have "(v, d) \<in> set (g s u)" "add_backlink Q i d t v P = Inr (snd app)" "fst app = []"
    by (auto simp: bindE_eq_Inr)
  with s(1) u(1) show ?thesis by blast
qed

lemma add_backlink_fits:
  assumes ok: "prf_ok Q P" and fits: "prf_fits Q ceil_log P" and a: "add_backlink Q i d t v P = Inr P'" and v: "prf_valid Q P'"
  shows "prf_fits Q ceil_log P'"
proof -
  obtain q where e: "expands P i (BackNode q d t v) [] P'"
    using add_backlink_expands [OF a prf_okD(1) [OF ok]] by blast
  obtain p m where i: "map_of P i = Some (p, m)" "node_get_seq (BackNode q d t v) = node_get_seq m"
    "map_of P' i = Some (p, BackNode q d t v)"
    "\<And>j. j \<noteq> i \<Longrightarrow> j \<notin> set (inf_idxs P ([] :: 'a list)) \<Longrightarrow> map_of P' j = map_of P j" "im_wf P'"
    using e by (rule expandsD) blast
  have old: "\<exists>y. map_of P j = Some y \<and> node_get_seq (snd x) = node_get_seq (snd y)" if "map_of P' j = Some x" for j x
  proof (cases "j = i")
    case True
    with i(1-3) that show ?thesis by auto
  next
    case False
    with i(4) [of j] that have "map_of P j = Some x" by simp
    then show ?thesis by blast
  qed
  have "abs_in_range (abs_of Q P')"
    unfolding abs_in_range_of [OF i(5)]
  proof (intro allI impI)
    fix j x assume "map_of P' j = Some x"
    from old [OF this] obtain y where "map_of P j = Some y" "node_get_seq (snd x) = node_get_seq (snd y)" by blast
    with fits show "c_range j \<and> (\<forall>t \<in> seq_tags Q (node_get_seq (snd x)). c_range (to_int t))"
      unfolding prf_fits_def abs_in_range_of [OF prf_okD(1) [OF ok]] by metis
  qed
  with prf_valid_finite [OF v] fits expands_dom(2) [OF ok e] show ?thesis by (simp add: prf_fits_def)
qed

lemma back_apps_ok:
  assumes "built Q P" and fits: "prf_fits Q ceil_log P" and apps: "back_apps Q sel_f g i P = Inr apps" and "app \<in> set apps"
    and g: "\<forall>s t. \<forall>(v, d) \<in> set (g s t). goal_ok Q s (t, v, {})"
  shows "prf_ok Q (snd app) \<and> prf_valid Q (snd app) \<and> prf_fits Q ceil_log (snd app)"
proof -
  obtain s t u v d where m: "prf_get_seq i P = Inr s" "prf_get_seq t P = Inr u" "(v, d) \<in> set (g s u)"
    "add_backlink Q i d t v P = Inr (snd app)"
    using back_apps_mem [OF apps assms(4)] by blast
  have "goal_ok Q s (u, v, {})" using bspec [OF spec [OF spec [OF g]] m(3)] by simp
  then have "built Q (snd app)" by (rule built.backlink [OF assms(1) m(1,2) _ m(4)])
  with built_ok add_backlink_fits [OF _ fits m(4)] built_ok [OF assms(1)] show ?thesis by blast
qed

end
