(* ===== verification/Prover_Copy.thy ===== *)
theory Prover_Copy
  imports Prover_Rules
begin

text \<open>
  The recursions that copy and walk proofs end: the bounds on their depth in the model are
  never reached in a proof with the invariants. A closed proof that is copied to an open
  node closes it.
\<close>

section \<open>Code that ends\<close>

definition ends :: "'a result \<Rightarrow> bool" where
  "ends r \<longleftrightarrow> r \<noteq> Inl Diverges"

named_theorems ends_intros

lemma ends_Inr [simp, ends_intros]: "ends (Inr x)"
  by (simp add: ends_def)

lemma ends_other [simp, ends_intros]: "ends (Inl Not_found)" "ends (Inl (Invalid_argument w))"
  by (simp_all add: ends_def)

lemma ends_bind [ends_intros]: "ends r \<Longrightarrow> (\<And>x. r = Inr x \<Longrightarrow> ends (f x)) \<Longrightarrow> ends (bindE r f)"
  by (cases r) (auto simp: ends_def)

lemma ends_asserting [ends_intros]: "(b \<Longrightarrow> ends r) \<Longrightarrow> ends (asserting w b r)"
  by (auto simp: asserting_def ends_def)

lemma ends_lookups [ends_intros]:
  "ends (prf_find i P)" "ends (prf_get i P)" "ends (prf_get_seq i P)" "ends (prf_replace i n P)" "ends (im_find j m)"
  by (simp_all add: prf_lookups im_find_def split: option.split)

lemma ends_dest [ends_intros]: "ends (dest_inf n)" "ends (dest_backlink n)"
  by (cases n; simp)+

lemma ends_constructors [ends_intros]:
  "ends (add_axiom Q i d P)" "ends (add_backlink Q i d t vtts P)" "ends (add_inf Q i d goals P)"
proof -
  have e: "ends (ensure_add Q i n P)" for n unfolding ensure_add_def by (intro ends_intros)
  have m: "ends (map2E f xs ys)" for f :: "int \<Rightarrow> 'a \<times> tagpairs \<times> tagpairs \<Rightarrow> int \<times> 'a node" and xs ys
    by (induction f xs ys rule: map2E.induct) (auto intro!: ends_intros)
  have f: "ends (fresh_idx P)" unfolding fresh_idx_def by (auto split: list.split)
  show "ends (add_axiom Q i d P)" "ends (add_backlink Q i d t vtts P)" "ends (add_inf Q i d goals P)"
    unfolding add_axiom_def add_backlink_def add_inf_def Let_def by (intro ends_intros e m f)+
qed

lemma ends_map2R [ends_intros]: "(\<And>x y. ends (f x y)) \<Longrightarrow> ends (map2R f xs ys)"
  by (induction f xs ys rule: map2R.induct) (auto intro!: ends_intros)

lemma ends_fold_right2E [ends_intros]: "ends (fold_right2E f xs ys c)"
  by (induction f xs ys c rule: fold_right2E.induct) (auto intro!: ends_intros)

lemma ends_foldE [ends_intros]: "(\<And>x s. ends (f x s)) \<Longrightarrow> ends (foldE f xs s)"
  by (induction xs arbitrary: s) (auto intro!: ends_intros)

lemma ends_fold_left2E:
  assumes "J c" and "\<And>c x y. J c \<Longrightarrow> x \<in> set xs \<Longrightarrow> ends (f c x y)"
    and "\<And>c x y c'. J c \<Longrightarrow> x \<in> set xs \<Longrightarrow> f c x y = Inr c' \<Longrightarrow> J c'"
  shows "ends (fold_left2E f c xs ys)"
  using assms
proof (induction xs arbitrary: c ys)
  case Nil
  then show ?case by (cases ys) simp_all
next
  case (Cons x xs)
  show ?case
  proof (cases ys)
    case (Cons y zs)
    have "ends (fold_left2E f d xs zs)" if "f c x y = Inr d" for d
    proof (rule Cons.IH)
      show "J d" by (rule Cons.prems(3) [OF Cons.prems(1) _ that]) simp
      show "ends (f c x' y)" if "J c" "x' \<in> set xs" for c x' y by (rule Cons.prems(2)) (use that in simp_all)
      show "J c'" if "J c" "x' \<in> set xs" "f c x' y = Inr c'" for c x' y c'
        by (rule Cons.prems(3) [OF that(1) _ that(3)]) (use that in simp)
    qed
    with Cons.prems(1,2) show ?thesis by (simp add: \<open>ys = y # zs\<close> ends_bind)
  qed simp
qed

section \<open>The recursions of the prover's proofs end\<close>

text \<open>Copying the tree below a node visits larger numbers only.\<close>

lemma add_rec_ends:
  assumes ok: "prf_ok Q P"
  shows "idx \<in> dom (map_of P) \<Longrightarrow> int (length P) \<le> idx + int k \<Longrightarrow> ends (add_rec k Q P acc idx idx')"
proof (induction k arbitrary: acc idx idx')
  case 0
  then show ?case unfolding prf_okD(3) [OF ok] by simp
next
  case (Suc k)
  obtain P' nm bls where acc: "acc = (P', nm, bls)" by (cases acc)
  obtain p n where n: "map_of P idx = Some (p, n)" using Suc.prems(1) by auto
  have premise: "j \<in> dom (map_of P) \<and> int (length P) \<le> j + int k" if "n = InfNode s d ps ts" "j \<in> set ps" for s d ps ts j
    using prf_okD(4) [OF ok n] that Suc.prems(2) by (fastforce simp: node_inv_def)
  have "ends (fold_left2E (add_rec k Q P) c ps qs)" if "n = InfNode s d ps ts" for c s d ps ts qs
    by (rule ends_fold_left2E [where J = "\<lambda>_. True"]) (use Suc.IH premise [OF that] in auto)
  moreover have "prf_find idx P = Inr n" by (simp add: prf_find_eq n)
  ultimately show ?case
    unfolding acc by (cases n) (auto intro!: ends_intros)
qed

lemma add_subprf_ends:
  assumes ok: "prf_ok Q P"
  shows "ends (add_subprf Q P idx P')"
proof -
  have "0 \<in> dom (map_of P)" using prf_ok_root [OF ok] by auto
  then have "ends (add_rec (length P) Q P acc 0 idx)" for acc by (rule add_rec_ends [OF ok]) simp
  moreover have "ends (fix_bl Q P nm b P1)" for nm b P1
    unfolding fix_bl_def by (cases b) (auto intro!: ends_intros)
  ultimately show ?thesis unfolding add_subprf_def by (auto intro!: ends_intros)
qed

text \<open>Extracting a proof enters a new node into the map before every further call.\<close>

lemma fold_left2E_mono:
  assumes "fold_left2E f c xs ys = Inr c'" and "\<And>c x y c'. f c x y = Inr c' \<Longrightarrow> D c \<subseteq> (D c' :: 'd set)"
  shows "D c \<subseteq> D c'"
  using assms by (induction f c xs ys rule: fold_left2E.induct) (auto simp: bindE_eq_Inr, blast)

lemma extract_rec_mono:
  "extract_rec k Q P acc idx idx' = Inr acc' \<Longrightarrow> dom (map_of (snd acc)) \<subseteq> dom (map_of (snd acc'))"
proof (induction k arbitrary: acc idx idx' acc')
  case (Suc k)
  obtain P' nm where acc: "acc = (P', nm)" by (cases acc)
  have add: "dom (map_of nm) \<subseteq> dom (map_of (im_add idx idx' nm))" by (auto simp: im_add_lookup)
  show ?case
  proof (cases "im_mem idx nm")
    case True
    with Suc.prems show ?thesis by (auto simp: acc bindE_eq_Inr)
  next
    case False
    obtain n where n: "prf_find idx P = Inr n" using Suc.prems False by (auto simp: acc bindE_eq_Inr Let_def)
    have "dom (map_of (im_add idx idx' nm)) \<subseteq> dom (map_of (snd acc'))"
    proof (cases n)
      case (InfNode s d ps ts)
      then obtain P1 qs where "fold_left2E (extract_rec k Q P) (P1, im_add idx idx' nm) ps qs = Inr acc'"
        using Suc.prems False n by (auto simp: acc bindE_eq_Inr Let_def)
      from fold_left2E_mono [OF this, where D = "\<lambda>c. dom (map_of (snd c))"] Suc.IH show ?thesis by simp
    next
      case (BackNode s d t vtts)
      then show ?thesis using Suc.prems False n Suc.IH [of "(P', im_add idx idx' nm)" t idx' acc']
        by (auto simp: acc bindE_eq_Inr Let_def split: if_splits)
    qed (use Suc.prems False n in \<open>auto simp: acc bindE_eq_Inr Let_def\<close>)
    with add show ?thesis by (simp add: acc)
  qed
qed simp

lemma extract_rec_ends:
  "card (dom (map_of P) - dom (map_of (snd acc))) < k \<Longrightarrow> ends (extract_rec k Q P acc idx idx')"
proof (induction k arbitrary: acc idx idx')
  case (Suc k)
  obtain P' nm where acc: "acc = (P', nm)" by (cases acc)
  show ?case
  proof (cases "im_mem idx nm")
    case True
    then show ?thesis by (auto simp: acc intro!: ends_intros)
  next
    case False
    let ?nm = "im_add idx idx' nm"
    have new: "dom (map_of ?nm) = insert idx (dom (map_of nm))" by (auto simp: im_add_lookup)
    show ?thesis
    proof (cases "map_of P idx")
      case None
      with False show ?thesis by (simp add: acc prf_find_eq Let_def)
    next
      case (Some x)
      obtain p n where x: "x = (p, n)" by (cases x)
      have "dom (map_of P) - dom (map_of ?nm) \<subset> dom (map_of P) - dom (map_of nm)"
        using Some False unfolding new by (auto simp: im_mem_map_of)
      then have "card (dom (map_of P) - dom (map_of ?nm)) < card (dom (map_of P) - dom (map_of nm))"
        by (intro psubset_card_mono) (simp_all add: finite_dom_map_of)
      then have smaller: "card (dom (map_of P) - dom (map_of ?nm)) < k" using Suc.prems by (simp add: acc)
      have step: "ends (extract_rec k Q P c j j')" if "dom (map_of ?nm) \<subseteq> dom (map_of (snd c))" for c j j'
      proof (rule Suc.IH)
        have "card (dom (map_of P) - dom (map_of (snd c))) \<le> card (dom (map_of P) - dom (map_of ?nm))"
          using that by (intro card_mono) (auto simp: finite_dom_map_of)
        with smaller show "card (dom (map_of P) - dom (map_of (snd c))) < k" by simp
      qed
      have "ends (fold_left2E (extract_rec k Q P) (P1, ?nm) ps qs)" for P1 ps qs
        by (rule ends_fold_left2E [where J = "\<lambda>c. dom (map_of ?nm) \<subseteq> dom (map_of (snd c))"])
          (use step extract_rec_mono in \<open>auto, blast+\<close>)
      moreover have "prf_find idx P = Inr n" by (simp add: prf_find_eq Some x)
      ultimately show ?thesis
        using False step unfolding acc by (cases n) (auto simp: Let_def intro!: ends_intros)
    qed
  qed
qed simp

lemma extract_subproof_ends: "ends (extract_subproof Q idx P)"
proof -
  have "card (dom (map_of P)) \<le> length P"
    by (metis card_length dom_map_of_conv_image_fst length_map list.set_map)
  then have "ends (extract_rec (Suc (length P)) Q P (P', []) idx j)" for P' j by (intro extract_rec_ends) simp
  then show ?thesis unfolding extract_subproof_def by (auto intro!: ends_intros)
qed

section \<open>Copying a closed proof\<close>

lemma advances_perm: "advances P i ss P' \<Longrightarrow> set ss' = set ss \<Longrightarrow> distinct ss' \<Longrightarrow> advances P i ss' P'"
  by (simp add: advances_def)

lemma add_inf_advances:
  assumes ok: "prf_ok Q P" and "add_inf Q i d goals P = Inr (idxs, P')"
  shows "advances P i idxs P'"
proof -
  obtain q where e: "expands P i (inf_node P q d goals) (map fst goals) P'" and idxs: "idxs = inf_idxs P goals"
    using add_inf_expands [OF assms] by blast
  have "inf_idxs P (map fst goals) = inf_idxs P goals" by (simp add: inf_idxs_def)
  with expands_advances [OF ok e] idxs show ?thesis by simp
qed

lemma add_axiom_advances:
  assumes ok: "prf_ok Q P" and "add_axiom Q i d P = Inr P'"
  shows "advances P i [] P'"
proof -
  obtain n where "expands P i n [] P'" using constructors_expand(1) [OF assms] by blast
  from expands_advances [OF ok this] show ?thesis by simp
qed

text \<open>Copying the tree below a node leaves the copies of its back-links open, which it collects.\<close>

lemma fold_copies:
  assumes step: "\<And>P nm bls j j' P' nm' bls'. f (P, nm, bls) j j' = Inr (P', nm', bls') \<Longrightarrow> prf_ok Q P \<Longrightarrow>
      j' \<in> open_nodes P \<Longrightarrow> prf_ok Q P' \<and> (\<exists>new. bls' = new @ bls \<and> advances P j' (map snd new) P')"
  shows "fold_left2E f (P1, nm, new @ bls) js js' = Inr (P', nm', bls') \<Longrightarrow> prf_ok Q P1 \<Longrightarrow>
    advances P i (map snd new @ js') P1 \<Longrightarrow>
    prf_ok Q P' \<and> (\<exists>new'. bls' = new' @ bls \<and> advances P i (map snd new') P')"
proof (induction js arbitrary: P1 nm new js')
  case Nil
  then show ?case by (cases js') auto
next
  case (Cons j js)
  obtain j' ks' where js': "js' = j' # ks'" using Cons.prems(1) by (cases js') auto
  obtain P2 nm2 bls2 where s: "f (P1, nm, new @ bls) j j' = Inr (P2, nm2, bls2)"
    and rest: "fold_left2E f (P2, nm2, bls2) js ks' = Inr (P', nm', bls')"
    using Cons.prems(1) by (auto simp: js' bindE_eq_Inr)
  have a: "advances P i (map snd new @ j' # ks') P1" using Cons.prems(3) by (simp add: js')
  from step [OF s Cons.prems(2) advances_open [OF a]] obtain more where
    m: "prf_ok Q P2" "bls2 = more @ new @ bls" "advances P1 j' (map snd more) P2" by blast
  from advances_step [OF a m(3)] have "advances P i ((map snd new @ map snd more) @ ks') P2" .
  moreover from this have "distinct ((map snd new @ map snd more) @ ks')" by (simp add: advances_def)
  ultimately have "advances P i (map snd (more @ new) @ ks') P2" by (elim advances_perm) auto
  moreover have "fold_left2E f (P2, nm2, (more @ new) @ bls) js ks' = Inr (P', nm', bls')" using rest m(2) by simp
  ultimately show ?case by (intro Cons.IH [OF _ m(1)])
qed

lemma add_rec_advances:
  assumes closed: "open_nodes prf = {}"
  shows "add_rec k Q prf (P, nm, bls) idx idx' = Inr (P', nm', bls') \<Longrightarrow> prf_ok Q P \<Longrightarrow> idx' \<in> open_nodes P \<Longrightarrow>
    prf_ok Q P' \<and> (\<exists>new. bls' = new @ bls \<and> advances P idx' (map snd new) P')"
proof (induction k arbitrary: P nm bls idx idx' P' nm' bls')
  case (Suc k)
  obtain n where n: "prf_find idx prf = Inr n" using Suc.prems(1) by (auto simp: bindE_eq_Inr)
  then have "\<not> is_open n" using closed by (auto simp: prf_find_eq open_nodes_def split: option.splits)
  then consider (axiom) s d where "n = AxiomNode s d" | (inf) s d ps ts where "n = InfNode s d ps ts"
    | (link) s d t vtts where "n = BackNode s d t vtts" by (cases n) auto
  then show ?case
  proof cases
    case axiom
    then have "add_axiom Q idx' d P = Inr P'" "bls' = bls" using Suc.prems(1) n by (auto simp: bindE_eq_Inr)
    with add_axiom_advances [OF Suc.prems(2)] constructors_ok(1) [OF Suc.prems(2)] show ?thesis by auto
  next
    case link
    then have "P' = P" "bls' = [(idx, idx')] @ bls" using Suc.prems(1) n by simp_all
    with advances_refl [OF Suc.prems(3)] Suc.prems(2) show ?thesis by (intro conjI exI [of _ "[(idx, idx')]"]) simp_all
  next
    case inf
    obtain goals qs P1 nm1 where a: "add_inf Q idx' d goals P = Inr (qs, P1)"
      and f: "fold_left2E (add_rec k Q prf) (P1, nm1, [] @ bls) ps qs = Inr (P', nm', bls')"
      using Suc.prems(1) n inf by (auto simp: bindE_eq_Inr)
    have "advances P idx' (map snd [] @ qs) P1" using add_inf_advances [OF Suc.prems(2) a] by simp
    with f constructors_ok(3) [OF Suc.prems(2) a] show ?thesis by (rule fold_copies [rotated 1]) (rule Suc.IH)
  qed
qed simp

text \<open>The collected back-links are added last.\<close>

lemma fix_bls_advances:
  "foldE (fix_bl Q prf nm) bls P1 = Inr P' \<Longrightarrow> prf_ok Q P1 \<Longrightarrow> advances P i (map snd bls) P1 \<Longrightarrow>
    prf_ok Q P' \<and> advances P i [] P'"
proof (induction bls arbitrary: P1)
  case (Cons b bls)
  obtain P2 where s: "fix_bl Q prf nm b P1 = Inr P2" and rest: "foldE (fix_bl Q prf nm) bls P2 = Inr P'"
    using Cons.prems(1) by (auto simp: bindE_eq_Inr)
  obtain d t vtts where "add_backlink Q (snd b) d t vtts P1 = Inr P2"
    using s by (cases b) (auto simp: fix_bl_def bindE_eq_Inr)
  from add_backlink_advances [OF Cons.prems(2) this] have P2: "prf_ok Q P2" "advances P1 (snd b) [] P2" by auto
  have "advances P i (map snd bls) P2"
    using advances_step [of P i "[]" "snd b" "map snd bls" P1 "[]" P2] Cons.prems(3) P2(2) by simp
  with Cons.IH [OF rest P2(1)] show ?case by blast
qed simp

lemma add_subprf_advances:
  assumes ok: "prf_ok Q P" and closed: "open_nodes prf = {}" and r: "add_subprf Q prf idx P = Inr P'"
  shows "prf_ok Q P' \<and> advances P idx [] P'"
proof -
  obtain n P1 nm bls where n: "prf_find idx P = Inr n" "is_open n"
    and a: "add_rec (length prf) Q prf (P, im_add 0 idx [], []) 0 idx = Inr (P1, nm, bls)"
    and f: "foldE (fix_bl Q prf nm) bls P1 = Inr P'"
    using r by (auto simp: add_subprf_def bindE_eq_Inr asserting_eq_Inr)
  have "idx \<in> open_nodes P" using n by (auto simp: prf_find_eq open_nodes_def split: option.splits)
  from add_rec_advances [OF closed a ok this] have "prf_ok Q P1" "advances P idx (map snd bls) P1" by auto
  with fix_bls_advances [OF f] show ?thesis by blast
qed

end
