(* ===== verification/Prover_Samples.thy ===== *)
theory Prover_Samples
  imports Abducer Prover_Valid Prover_Copy Driver_Properties
begin

text \<open>
  A small logic on which the properties of the prover are evaluated: sequents are numbers
  with one tag, a rule that unfolds a sequent into itself with progress, and back-links
  between equal sequents. The proof of a sequent is one unfolding and one back-link.
\<close>

section \<open>The logic\<close>

definition tag_x :: var where
  "tag_x = Var 1 ''x''"

definition loop_sig :: "nat sequent_sig" where
  "loop_sig = \<lparr>seq_equal = (=), seq_equal_upto_tags = (=), seq_tags = (\<lambda>_. {tag_x})\<rparr>"

definition unfold_tac :: "nat tactic_t" where
  "unfold_tac s = [([(s, {(tag_x, tag_x)}, {(tag_x, tag_x)})], ''Unfold'')]"

definition unfold_rule :: "(nat, bdt) rule" where
  "unfold_rule = mk_infrule loop_sig (\<lambda>s. returnM (unfold_tac s))"

definition back_links :: "nat \<Rightarrow> nat \<Rightarrow> (tagpairs \<times> string) list" where
  "back_links s t = (if s = t then [({(tag_x, tag_x)}, ''Back'')] else [])"

definition back_rule :: "bool \<Rightarrow> (nat, bdt) rule" where
  "back_rule greedy = mk_backrule loop_sig robdd_pkg exact_spot (\<lambda>_. 1) (=) greedy all_nodes (\<lambda>s t. returnM (back_links s t))"

definition loop_rule :: "(nat, bdt) rule" where
  "loop_rule = rule_choice [back_rule True, unfold_rule]"

definition prf1 :: "nat proof_t" where
  "prf1 = [(0, (0, InfNode 0 ''Unfold'' [1] [({(tag_x, tag_x)}, {(tag_x, tag_x)})])), (1, (0, mk_open 0))]"

definition prf2 :: "nat proof_t" where
  "prf2 = [(0, (0, InfNode 0 ''Unfold'' [1] [({(tag_x, tag_x)}, {(tag_x, tag_x)})])),
           (1, (0, BackNode 0 ''Back'' 0 {(tag_x, tag_x)}))]"

lemma loop_sig_simps [simp]:
  "seq_equal loop_sig = (=)" "seq_equal_upto_tags loop_sig = (=)" "seq_tags loop_sig s = {tag_x}"
  by (simp_all add: loop_sig_def)

lemma loop_sig_laws: "sequent_laws loop_sig"
  by (simp add: sequent_laws_def)

lemma unfold_tac_ok: "tac_ok loop_sig unfold_tac"
  by (simp add: tac_ok_def unfold_tac_def goal_ok_def)

lemma loop_steps:
  "add_inf loop_sig 0 ''Unfold'' [(0, {(tag_x, tag_x)}, {(tag_x, tag_x)})] (prf_mk 0) = Inr ([1], prf1)"
  "add_backlink loop_sig 1 ''Back'' 0 {(tag_x, tag_x)} prf1 = Inr prf2"
  by (simp_all add: add_inf_def add_backlink_def fresh_idx_def prf_mk_def im_add_def im_mem_def range_from_def
      prf_lookups ensure_add_def node_mk_defs asserting_def prf1_def prf2_def Let_def)

lemma loop_built: "built loop_sig prf1" "built loop_sig prf2"
proof -
  show 1: "built loop_sig prf1"
    by (rule built.inf [OF built.root _ _ loop_steps(1)]) (simp_all add: prf_get_seq_eq prf_mk_lookup mk_open_def goal_ok_def)
  show "built loop_sig prf2"
    by (rule built.backlink [OF 1 _ _ _ loop_steps(2)]) (simp_all add: prf_get_seq_eq prf1_def mk_open_def goal_ok_def)
qed

lemma loop_gtc: "gtc (prf_graph loop_sig prf2) 0"
proof (rule gtcI)
  let ?G = "prf_graph loop_sig prf2"
  note ok = conjunct1 [OF built_ok [OF loop_built(2)]]
  fix p assume p: "tg_path ?G 0 p"
  have edge: "(p i = 0 \<and> p (Suc i) = 1) \<or> (p i = 1 \<and> p (Suc i) = 0)" for i
    using tg_path_edge [OF p, of i] unfolding prf_graph_edge [OF ok] by (auto simp: prf2_def split: if_splits)
  have pairs: "(1, 1) \<in> tg_valid ?G 0 1" "(1, 1) \<in> tg_valid ?G 1 0" "(1, 1) \<in> tg_prog ?G 0 1"
    by (simp_all add: prf_graph_def abs_graph_def abs_of_def abs_node_def prf2_def ints_def tag_x_def to_int_def)
  show "path_progressing ?G p"
    unfolding path_progressing_def
  proof (rule progressingI [where n = 0 and t = "\<lambda>_. 1"])
    show "(1, 1) \<in> tg_valid ?G (p i) (p (Suc i))" for i using edge [of i] pairs(1,2) by auto
    show "\<exists>i\<ge>m. (1, 1) \<in> tg_prog ?G (p i) (p (Suc i))" for m
    proof (cases "p m = 0")
      case True
      with edge [of m] pairs(3) show ?thesis by auto
    next
      case False
      with edge [of m] have "p (Suc m) = 0" by auto
      with edge [of "Suc m"] pairs(3) show ?thesis by (intro exI [of _ "Suc m"]) auto
    qed
  qed
qed

lemma loop_limits: "prf_fits loop_sig (\<lambda>_. 1) prf2"
  by (simp add: prf_fits_def prf_finite_def prf2_def node_finite_def abs_in_range_def abs_of_def abs_node_def c_range_def
      tag_x_def to_int_def sample_log)

lemma prf1_limits: "abs_in_range (abs_of loop_sig prf1)" "\<forall>n. 0 < n \<and> n \<le> length prf1 \<longrightarrow> log_ok (\<lambda>_. 1) n"
  by (simp_all add: prf1_def mk_open_def abs_in_range_def abs_of_def abs_node_def c_range_def tag_x_def to_int_def sample_log)

lemma loop_check:
  assumes "cache_ok 0 c"
  shows "\<exists>c'. prf_check loop_sig robdd_pkg exact_spot (\<lambda>_. 1) (=) prf2 (c, idle) = Inr (True, c', idle) \<and> cache_ok 0 c'"
  using exact.prf_check_total [OF loop_sig_laws, of prf2 "\<lambda>_. 1" "(=)" c] built_ok [OF loop_built(2)] loop_limits loop_gtc assms
  by (simp add: prf_fits_def)

lemma loop_rule_made: "made_rule loop_sig robdd_pkg exact_spot (\<lambda>_. 1) (=) loop_rule"
  unfolding loop_rule_def
  by (rule made_rule.choice)
    (auto simp: back_rule_def unfold_rule_def intro!: made_rule.backrule made_rule.infrule ensures_return)

lemma start_right: "env_right ceil_log ([], idle)"
  by (simp add: env_right_def)

text \<open>Copying the loop to an open root.\<close>

lemma loop_copy: "add_subprf loop_sig prf2 0 (prf_mk 0) = Inr prf2"
proof -
  have l: "prf_find 0 prf2 = Inr (InfNode 0 ''Unfold'' [1] [({(tag_x, tag_x)}, {(tag_x, tag_x)})])"
    "prf_find 1 prf2 = Inr (BackNode 0 ''Back'' 0 {(tag_x, tag_x)})" "length prf2 = Suc (Suc 0)"
    "prf_find 0 (prf_mk (0 :: nat)) = Inr (mk_open 0)"
    by (simp_all add: prf_find_eq prf2_def prf_mk_lookup)
  have m: "im_add 0 0 [] = [(0, 0 :: int)]" "im_add 1 1 [(0, 0 :: int)] = [(0, 0), (1, 1)]"
    "im_find 0 [(0, 0), (1, 1 :: int)] = Inr 0"
    by (simp_all add: im_add_def im_mem_def im_find_def)
  have "add_rec (length prf2) loop_sig prf2 (prf_mk 0, im_add 0 0 [], []) 0 0 = Inr (prf1, [(0, 0), (1, 1)], [(1, 1)])"
    by (simp add: l m loop_steps(1))
  then show ?thesis by (simp add: add_subprf_def l m asserting_def mk_open_def fix_bl_def loop_steps(2))
qed

section \<open>The search for the loop\<close>

lemma loop_rule_root: "loop_rule 0 (prf_mk 0) e = (Inr [([1], prf1)], e)"
proof -
  have "back_rule True 0 (prf_mk 0) e = (Inr [], e)"
    by (simp add: back_rule_def mk_backrule_def all_nodes_def prf_to_list_def prf_mk_def im_add_def im_mem_def prf_get_seq_eq
        bindM_def liftM_def returnM_def bind_list_def mk_open_def)
  moreover have "unfold_rule 0 (prf_mk 0) e = (Inr [([1], prf1)], e)"
    by (simp add: unfold_rule_def mk_infrule_def unfold_tac_def prf_get_seq_eq prf_mk_lookup loop_steps mk_open_def
        bindM_def liftM_def returnM_def)
  ultimately show ?thesis by (simp add: loop_rule_def rule_choice_def bind_list_def bindM_def returnM_def)
qed

lemma loop_back_apps: "back_apps loop_sig all_nodes back_links 1 prf1 = Inr [([], prf2)]"
proof -
  have "map_of prf1 1 = Some (0, mk_open 0)"
    "map_of prf1 0 = Some (0, InfNode 0 ''Unfold'' [1] [({(tag_x, tag_x)}, {(tag_x, tag_x)})])"
    "filter (\<lambda>idx. idx \<noteq> 1) (map fst (prf_to_list prf1)) = [0]"
    by (simp_all add: prf1_def prf_to_list_def)
  then show ?thesis
    by (simp add: back_apps_def all_nodes_def prf_get_seq_eq loop_steps(2) back_links_def mk_open_def)
qed

lemma back_rule_apps:
  "mk_backrule loop_sig B S ceil_log same greedy all_nodes (\<lambda>s t. returnM (back_links s t)) 1 prf1 e =
     (if greedy then
        bindM (find_optM (check_app loop_sig B S ceil_log same) [([], prf2)]) (\<lambda>r. returnM (case r of None \<Rightarrow> [] | Some x \<Rightarrow> [x]))
      else filterM (check_app loop_sig B S ceil_log same) [([], prf2)]) e"
  by (rule fun_cong [OF mk_backrule_apps]) (rule loop_back_apps)

lemma loop_rule_leaf:
  assumes "cache_ok 0 c"
  shows "\<exists>c' l. loop_rule 1 prf1 (c, idle) = (Inr (([], prf2) # l), (c', idle)) \<and> cache_ok 0 c'"
proof -
  obtain c' where c: "prf_check loop_sig robdd_pkg exact_spot (\<lambda>_. 1) (=) prf2 (c, idle) = Inr (True, c', idle)" "cache_ok 0 c'"
    using loop_check [OF assms] by blast
  then have "back_rule True 1 prf1 (c, idle) = (Inr [([], prf2)], (c', idle))"
    by (simp add: back_rule_def back_rule_apps check_app_def stateM_def bindM_def returnM_def)
  moreover have "\<exists>x. unfold_rule 1 prf1 e = (Inr [x], e)" for e
    by (simp add: unfold_rule_def mk_infrule_def unfold_tac_def prf_get_seq_eq prf1_def mk_open_def bindM_def liftM_def
        returnM_def add_inf_def fresh_idx_def im_add_def im_mem_def range_from_def prf_lookups ensure_add_def node_mk_defs
        asserting_def Let_def)
  then obtain x where "unfold_rule 1 prf1 (c', idle) = (Inr [x], (c', idle))" by blast
  ultimately have "loop_rule 1 prf1 (c, idle) = (Inr (([], prf2) # [x]), (c', idle))"
    by (simp add: loop_rule_def rule_choice_def bind_list_def bindM_def returnM_def)
  with c(2) show ?thesis by blast
qed

lemmas eff_defs = bindM_def liftM_def returnM_def rule_fail_def

lemma loop_dfs:
  "dfs rule_fail loop_rule 0 0 (prf_mk 0) e = (Inr None, e)"
  "cache_ok 0 c \<Longrightarrow> \<exists>c'. dfs rule_fail loop_rule 1 0 (prf_mk 0) (c, idle) = (Inr (Some prf2), (c', idle)) \<and> cache_ok 0 c'"
proof -
  show "dfs rule_fail loop_rule 0 0 (prf_mk 0) e = (Inr None, e)"
    by (simp add: dfs.simps [of _ _ 0] dfs.simps [of _ _ "- 1"] eff_defs loop_rule_root)
  assume "cache_ok 0 c"
  then obtain c' l where l: "loop_rule 1 prf1 (c, idle) = (Inr (([], prf2) # l), (c', idle))" "cache_ok 0 c'"
    using loop_rule_leaf by blast
  have "dfs rule_fail loop_rule 0 1 prf1 (c, idle) = (Inr (Some prf2), (c', idle))"
    by (simp add: dfs.simps [of _ _ 0] eff_defs l(1))
  then have "dfs rule_fail loop_rule 1 0 (prf_mk 0) (c, idle) = (Inr (Some prf2), (c', idle))"
    by (simp add: dfs.simps [of _ _ 1] eff_defs loop_rule_root)
  with l(2) show "\<exists>c'. dfs rule_fail loop_rule 1 0 (prf_mk 0) (c, idle) = (Inr (Some prf2), (c', idle)) \<and> cache_ok 0 c'"
    by blast
qed

lemma loop_search: "\<exists>c. idfs 0 1 rule_fail loop_rule 0 (([], idle), 0) = (Inr (Some prf2), ((c, idle), 1))"
proof -
  have "cache_ok 0 []" by (simp add: cache_ok_def)
  then obtain c where d: "dfs rule_fail loop_rule 1 0 (prf_mk 0) ([], idle) = (Inr (Some prf2), (c, idle))"
    using loop_dfs(2) by blast
  have "idfs 0 1 rule_fail loop_rule 0 (([], idle), 0) = (Inr (Some prf2), ((c, idle), 1))"
    by (subst idfs_unfold [OF _ loop_dfs(1)], simp) (simp add: idfs_unfold [OF _ d])
  then show ?thesis by blast
qed

section \<open>A proof with different tags\<close>

text \<open>
  Sequents are numbers that are all equal up to tags, each with a tag of its own. The proof
  \<open>outer\<close> is a loop through three sequents. The subproof at node \<open>1\<close> has a back-link out of
  it, which \<^verbatim>\<open>extract_subproof\<close> replaces by a copy of its target.
\<close>

definition tag_of :: "nat \<Rightarrow> var" where
  "tag_of s = Var (int s + 1) ''t''"

definition tag_sig :: "nat sequent_sig" where
  "tag_sig = \<lparr>seq_equal = (=), seq_equal_upto_tags = (\<lambda>_ _. True), seq_tags = (\<lambda>s. {tag_of s})\<rparr>"

definition outer :: "nat proof_t" where
  "outer =
     [(0, (0, InfNode 0 ''A'' [1] [({(tag_of 0, tag_of 1)}, {(tag_of 0, tag_of 1)})])),
      (1, (0, InfNode 1 ''B'' [2] [({(tag_of 1, tag_of 2)}, {})])),
      (2, (1, BackNode 2 ''Back'' 0 {(tag_of 2, tag_of 0)}))]"

definition inner :: "nat proof_t" where
  "inner =
     [(0, (0, InfNode 1 ''B'' [1] [({(tag_of 1, tag_of 2)}, {})])),
      (1, (0, InfNode 2 ''A'' [2] [({(tag_of 0, tag_of 1)}, {(tag_of 0, tag_of 1)})])),
      (2, (1, BackNode 1 ''Backl'' 0 {(tag_of 1, tag_of 1)}))]"

lemma tag_sig_simps [simp]:
  "seq_equal tag_sig = (=)" "seq_equal_upto_tags tag_sig s t" "seq_tags tag_sig s = {tag_of s}"
  by (simp_all add: tag_sig_def)

lemma tag_sig_laws: "sequent_laws tag_sig"
  by (simp add: sequent_laws_def)

lemmas constructor_defs = add_inf_def add_backlink_def fresh_idx_def im_add_def im_mem_def range_from_def
  prf_lookups ensure_add_def node_mk_defs asserting_def Let_def

lemma outer_built: "built tag_sig outer"
proof -
  let ?n0 = "InfNode 0 ''A'' [1] [({(tag_of 0, tag_of 1)}, {(tag_of 0, tag_of 1)})]"
  let ?P1 = "[(0, (0, ?n0)), (1, (0, mk_open 1))] :: nat proof_t"
  let ?P2 = "[(0, (0, ?n0)), (1, (0, InfNode 1 ''B'' [2] [({(tag_of 1, tag_of 2)}, {})])), (2, (1, mk_open 2))] :: nat proof_t"
  have s1: "add_inf tag_sig 0 ''A'' [(1, {(tag_of 0, tag_of 1)}, {(tag_of 0, tag_of 1)})] (prf_mk 0) = Inr ([1], ?P1)"
    by (simp add: constructor_defs prf_mk_def)
  have s2: "add_inf tag_sig 1 ''B'' [(2, {(tag_of 1, tag_of 2)}, {})] ?P1 = Inr ([2], ?P2)"
    by (simp add: constructor_defs)
  have s3: "add_backlink tag_sig 2 ''Back'' 0 {(tag_of 2, tag_of 0)} ?P2 = Inr outer"
    by (simp add: constructor_defs outer_def)
  have g: "goal_ok tag_sig s (t, {(tag_of s, tag_of t)}, {(tag_of s, tag_of t)})"
    "goal_ok tag_sig s (t, {(tag_of s, tag_of t)}, {})" for s t
    by (simp_all add: goal_ok_def)
  have 1: "built tag_sig ?P1"
    by (rule built.inf [OF built.root _ _ s1, of 0]) (simp_all add: prf_get_seq_eq prf_mk_lookup mk_open_def g del: One_nat_def)
  have 2: "built tag_sig ?P2"
    by (rule built.inf [OF 1 _ _ s2, of 1]) (simp_all add: prf_get_seq_eq mk_open_def g del: One_nat_def)
  show ?thesis
    by (rule built.backlink [OF 2 _ _ _ s3, of 2 0]) (simp_all add: prf_get_seq_eq mk_open_def g)
qed

lemma outer_extract: "extract_subproof tag_sig 1 outer = Inr inner"
proof -
  have "tp_mk {tag_of 1} = {(tag_of 1, tag_of 1)}" by (auto simp: tp_mk_Id)
  then show ?thesis
    by (simp add: extract_subproof_def outer_def inner_def prf_mk_def constructor_defs im_find_def)
qed

lemma outer_gtc: "gtc (prf_graph tag_sig outer) 0"
proof (rule gtcI)
  let ?G = "prf_graph tag_sig outer"
  note ok = conjunct1 [OF built_ok [OF outer_built]]
  fix p assume p: "tg_path ?G 0 p"
  have edge: "(p i = 0 \<and> p (Suc i) = 1) \<or> (p i = 1 \<and> p (Suc i) = 2) \<or> (p i = 2 \<and> p (Suc i) = 0)" for i
    using tg_path_edge [OF p, of i] unfolding prf_graph_edge [OF ok] by (auto simp: outer_def split: if_splits)
  have pairs: "(1, 2) \<in> tg_valid ?G 0 1" "(2, 3) \<in> tg_valid ?G 1 2" "(3, 1) \<in> tg_valid ?G 2 0" "(1, 2) \<in> tg_prog ?G 0 1"
    by (simp_all add: prf_graph_def abs_graph_def abs_of_def abs_node_def outer_def ints_def tag_of_def to_int_def)
  have again: "\<exists>i\<ge>m. p i = 0" for m
  proof -
    have "p m = 0 \<or> p (Suc m) = 0 \<or> p (Suc (Suc m)) = 0" using edge [of m] edge [of "Suc m"] by auto
    then show ?thesis by (metis le_SucI order_refl)
  qed
  show "path_progressing ?G p"
    unfolding path_progressing_def
  proof (rule progressingI [where n = 0 and t = "\<lambda>i. p i + 1"])
    show "(p i + 1, p (Suc i) + 1) \<in> tg_valid ?G (p i) (p (Suc i))" for i using edge [of i] pairs(1-3) by auto
    show "\<exists>i\<ge>m. (p i + 1, p (Suc i) + 1) \<in> tg_prog ?G (p i) (p (Suc i))" for m
    proof -
      obtain i where "i \<ge> m" "p i = 0" using again by blast
      with edge [of i] pairs(4) show ?thesis by (intro exI [of _ i]) auto
    qed
  qed
qed

section \<open>A tactic that ends\<close>

definition decrease_tac :: "nat tactic_t" where
  "decrease_tac s = (if s = 0 then [] else [([(s - 1, {}, {})], ''Dec'')])"

lemma decrease_tac_shrinks: "app \<in> set (decrease_tac s) \<Longrightarrow> fst app \<noteq> [] \<and> (\<forall>g \<in> set (fst app). fst g < s)"
  by (auto simp: decrease_tac_def split: if_splits)

section \<open>Abduction\<close>

text \<open>The loop again, with definitions that are not used, and a rule that closes every node.\<close>

definition loop_abdrule :: "(nat, unit, bdt) abdrule" where
  "loop_abdrule = abd_lift loop_rule"

definition axiom_abdrule :: "(nat, unit, bdt) abdrule" where
  "axiom_abdrule = abd_lift (mk_axiom loop_sig (\<lambda>s. returnM (Some ''Ax'')))"

lemma axiom_abdrule_made: "made_abdrule loop_sig robdd_pkg exact_spot ceil_log same axiom_abdrule"
  unfolding axiom_abdrule_def by (intro made_abdrule.lift made_rule.axiom allI ensures_return) simp

lemma axiom_abdrule_returns:
  assumes "i \<in> open_nodes P"
  shows "\<exists>apps e'. axiom_abdrule i P d e = (Inr apps, e')"
proof -
  obtain p n where n: "map_of P i = Some (p, n)" "is_open n" using assms by (auto simp: open_nodes_def)
  then have "\<exists>P'. add_axiom loop_sig i ''Ax'' P = Inr P'" by (simp add: add_axiom_eq asserting_def)
  then obtain P' where "add_axiom loop_sig i ''Ax'' P = Inr P'" by blast
  then show "\<exists>apps e'. axiom_abdrule i P d e = (Inr apps, e')"
    by (simp add: axiom_abdrule_def abd_lift_def mk_axiom_def prf_get_seq_eq n eff_defs)
qed

lemma loop_bfs: "\<exists>s'. bfs 2 loop_abdrule 0 () (\<lambda>_. returnM True) ((([], idle), 0), 0) = (Inr (Some (prf2, ())), s')"
proof -
  have "cache_ok 0 []" by (simp add: cache_ok_def)
  then obtain c l where l: "loop_rule 1 prf1 ([], idle) = (Inr (([], prf2) # l), (c, idle))"
    using loop_rule_leaf by blast
  have closed: "\<not> is_closed (prf_mk (0 :: nat))" "\<not> is_closed prf1" "is_closed prf2"
    by (simp_all add: is_closed_def prf_mk_def im_add_def im_mem_def prf1_def prf2_def mk_open_def)
  let ?app1 = "mk_app prf1 1 [(1, 1)] ()" and ?app2 = "mk_app prf2 2 [] ()"
  have e0: "expand_proof_state 0 (mk_app (prf_mk 0) 0 [(0, 0)] ()) loop_abdrule ((([], idle), 0), 0) =
      (Inr \<lparr>ps_seq_no = 1, ps_par = 0, ps_idx = 0, ps_apps = [?app1]\<rparr>, ((([], idle), 0), 1))"
    by (simp add: expand_proof_state_def assertM_def closed mk_app_def on_env_def loop_abdrule_def abd_lift_def
        loop_rule_root eff_defs mk_state_def)
  obtain rest where e1: "expand_proof_state 1 ?app1 loop_abdrule ((([], idle), 0), 1) =
      (Inr \<lparr>ps_seq_no = 2, ps_par = 1, ps_idx = 1, ps_apps = ?app2 # rest\<rparr>, (((c, idle), 0), 2))"
    by (simp add: expand_proof_state_def assertM_def closed mk_app_def on_env_def loop_abdrule_def abd_lift_def
        l eff_defs mk_state_def)
  let ?aux = "bfs_aux 2 loop_abdrule (\<lambda>_. returnM True)"
    and ?st1 = "\<lparr>ps_seq_no = 1, ps_par = 0, ps_idx = 0, ps_apps = [?app1]\<rparr>"
    and ?st2 = "\<lparr>ps_seq_no = 2, ps_par = 1, ps_idx = 1, ps_apps = ?app2 # rest\<rparr>"
  have sel: "ap_prf ?app1 = prf1" "ap_depth ?app1 = 1" "ap_goals ?app1 = [(1, 1)]"
    "ap_prf ?app2 = prf2" "ap_depth ?app2 = 2" "ap_goals ?app2 = []" "ap_defs ?app2 = ()"
    by (simp_all add: mk_app_def)
  have "?aux 2 [] [?st2] s = (Inr (Some (prf2, 2, ())), s)" for s
    by (subst bfs_aux.simps) (simp add: sel assertM_def closed bindM_def on_env_def returnM_def)
  then have "?aux 1 [?st2] [] s = (Inr (Some (prf2, 2, ())), s)" for s
    by (subst bfs_aux.simps) simp
  then have "?aux 1 [?st2] [?st1\<lparr>ps_apps := []\<rparr>] s = (Inr (Some (prf2, 2, ())), s)" for s
    by (subst bfs_aux.simps) simp
  then have "?aux 1 [] [?st1] ((([], idle), 0), 1) = (Inr (Some (prf2, 2, ())), (((c, idle), 0), 2))"
    by (subst bfs_aux.simps) (simp add: sel assertM_def closed bindM_def e1)
  then show ?thesis by (simp add: bfs_def bindM_def e0 on_env_def returnM_def set_last_search_depth_def)
qed

end
