(* ===== verification/Prover_Properties.thy ===== *)
theory Prover_Properties
  imports Prover_Samples
begin

text \<open>
  The properties of the prover: its proofs and their invariants, the check of a proof, rules
  and tactics, and the search.
\<close>

section \<open>Search\<close>

text \<open>
  C2: a proof that \<^verbatim>\<open>idfs\<close> returns, with any rules made by the functions of the rule module
  and within the limits of the C++ checker, is closed, has the given sequent at its root,
  is a connected graph rooted at \<open>0\<close> (\<open>prf_ok\<close>), and satisfies the global trace condition. The
  search leaves the checker idle and the cache right.
\<close>

theorem search_returns_sound_proofs:
  assumes "spot_library B S" and "sequent_laws Q" and "\<forall>a b. same a b \<longrightarrow> a = b"
    and "made_rule Q B S ceil_log same ax" and "made_rule Q B S ceil_log same r"
    and "env_right ceil_log e" and "idfs bound maxbound ax r seq (e, d0) = (Inr (Some P), (e', d))"
    and "prf_fits Q ceil_log P"
  shows "is_closed P \<and> prf_get_seq 0 P = Inr seq \<and> prf_ok Q P \<and> gtc (prf_graph Q P) 0 \<and> env_right ceil_log e'"
proof -
  note ok = spot_library.made_rule_ok [OF assms(1,4) assms(3,2)] spot_library.made_rule_ok [OF assms(1,5) assms(3,2)]
  have "env_right ceil_log (fst (e, d0))" using assms(6) by simp
  from ensuresD [OF idfs_ok [OF ok, of bound maxbound seq] this assms(7)]
  have P: "prf_sound Q ceil_log P" "advances (prf_mk seq) 0 [] P" "env_right ceil_log e'" by auto
  with advances_from_root [OF prf_soundD [OF P(1)] P(2)] assms(8) show ?thesis by (simp add: prf_sound_def)
qed

theorem search_returns_sound_proofs_witness:
  "is_closed prf2 \<and> prf_get_seq 0 prf2 = Inr 0 \<and> gtc (prf_graph loop_sig prf2) 0"
proof -
  obtain c where "idfs 0 1 rule_fail loop_rule 0 (([], idle), 0) = (Inr (Some prf2), ((c, idle), 1))"
    using loop_search by blast
  from search_returns_sound_proofs [OF exact.spot_library_axioms loop_sig_laws _ made_rule.fail loop_rule_made start_right this loop_limits]
  show ?thesis by simp
qed

text \<open>
  C16: if the depth-first search succeeds at a depth between the two bounds, and the searches
  below that depth return, then \<^verbatim>\<open>idfs\<close> returns a proof. The states between the searches
  are those of an invariant, since a check may extend the cache.
\<close>

theorem search_succeeds:
  assumes "bound \<le> d" and "d \<le> maxbound" and "I e"
    and "\<forall>e. I e \<longrightarrow> (\<exists>P e'. dfs ax r d 0 (prf_mk seq) e = (Inr (Some P), e'))"
    and "\<forall>b e. bound \<le> b \<and> b < d \<and> I e \<longrightarrow> (\<exists>res e'. dfs ax r b 0 (prf_mk seq) e = (Inr res, e') \<and> I e')"
  shows "\<exists>P s'. idfs bound maxbound ax r seq (e, d0) = (Inr (Some P), s')"
  by (rule idfs_finds [where I = I and d = d]) (use assms in auto)

theorem search_succeeds_witness: "\<exists>P s'. idfs 0 5 rule_fail loop_rule 0 (([], idle), 0) = (Inr (Some P), s')"
proof -
  let ?I = "\<lambda>e :: bdt env. \<exists>c. e = (c, idle) \<and> cache_ok 0 c"
  have "?I ([], idle)" by (simp add: cache_ok_def)
  moreover have "\<forall>e. ?I e \<longrightarrow> (\<exists>P e'. dfs rule_fail loop_rule 1 0 (prf_mk 0) e = (Inr (Some P), e'))"
    using loop_dfs(2) by blast
  moreover have "\<forall>b e. 0 \<le> b \<and> b < 1 \<and> ?I e \<longrightarrow>
      (\<exists>res e'. dfs rule_fail loop_rule b 0 (prf_mk 0) e = (Inr res, e') \<and> ?I e')"
  proof (intro allI impI)
    fix b :: int and e :: "bdt env" assume "0 \<le> b \<and> b < 1 \<and> ?I e"
    then have "b = 0" "?I e" by auto
    then show "\<exists>res e'. dfs rule_fail loop_rule b 0 (prf_mk 0) e = (Inr res, e') \<and> ?I e'" using loop_dfs(1) by blast
  qed
  ultimately show ?thesis by (intro search_succeeds [where d = 1 and I = ?I]) simp_all
qed

text \<open>
  The depth that \<^verbatim>\<open>idfs\<close> records in \<^verbatim>\<open>last_search_depth\<close> is the one at which the
  depth-first search found the proof, and the searches at all smaller depths from the
  starting bound on have failed.
\<close>

theorem search_depth_is_least:
  assumes "idfs bound maxbound ax r seq (e, d0) = (Inr (Some P), (e', d))"
  shows "bound \<le> d \<and> d \<le> maxbound \<and> (\<exists>e1. dfs ax r d 0 (prf_mk seq) e1 = (Inr (Some P), e')) \<and>
    (\<forall>b. bound \<le> b \<and> b < d \<longrightarrow> (\<exists>e1 e2. dfs ax r b 0 (prf_mk seq) e1 = (Inr None, e2)))"
  by (rule idfs_found [OF assms])

theorem search_depth_is_least_witness:
  "\<exists>e1 e2. dfs rule_fail loop_rule 0 0 (prf_mk 0) e1 = (Inr None, e2)"
  using loop_search search_depth_is_least [of 0 1 rule_fail loop_rule 0] by fastforce

section \<open>Abduction\<close>

text \<open>
  C7: a proof that \<^verbatim>\<open>bfs\<close> returns, with any rules made by the functions of the two rule
  modules and within the limits of the C++ checker, is closed, has the given sequent at its
  root, is a connected graph rooted at \<open>0\<close> (\<open>prf_ok\<close>), satisfies the global trace condition,
  and comes with definitions that the given check has accepted.
\<close>

theorem abduction_returns_sound_proofs:
  assumes "spot_library B S" and "sequent_laws Q" and "\<forall>a b. same a b \<longrightarrow> a = b"
    and "made_abdrule Q B S ceil_log same rule" and "\<forall>d. ensures (env_right ceil_log) (check d) (\<lambda>_. True)"
    and "env_right ceil_log e" and "bfs maxbound rule seq defs0 check ((e, d0), n) = (Inr (Some (P, defs)), s')"
    and "prf_fits Q ceil_log P"
  shows "is_closed P \<and> prf_get_seq 0 P = Inr seq \<and> prf_ok Q P \<and> gtc (prf_graph Q P) 0 \<and>
    (\<exists>e1 e2. check defs e1 = (Inr True, e2))"
proof -
  have rule: "abdrule_meets False Q ceil_log rule"
    by (rule abdrule_ok_meets [OF spot_library.made_abdrule_ok [OF assms(1,4,3,2)]])
  have "\<forall>d e. env_right ceil_log e \<longrightarrow> meets False (env_right ceil_log) (\<lambda>_. True) (check d e)"
    using assms(5) unfolding meets_ensures by blast
  note m = bfs_meets [OF rule this, of "((e, d0), n)" seq maxbound defs0]
  have "abd_right ceil_log ((e, d0), n)" using assms(6) by (simp add: abd_right_def)
  from m [OF this] obtain d where "bfs_good Q ceil_log seq maxbound check (P, d, defs)"
    unfolding assms(7) meets_def by auto
  then have P: "prf_sound Q ceil_log P" "advances (prf_mk seq) 0 [] P" "\<exists>e1 e2. check defs e1 = (Inr True, e2)"
    unfolding bfs_good_def by blast+
  with advances_from_root [OF prf_soundD [OF P(1)] P(2)] assms(8) show ?thesis by (simp add: prf_sound_def)
qed

theorem abduction_returns_sound_proofs_witness: "is_closed prf2 \<and> gtc (prf_graph loop_sig prf2) 0"
proof -
  have r: "made_abdrule loop_sig robdd_pkg exact_spot (\<lambda>_. 1) (=) loop_abdrule"
    unfolding loop_abdrule_def by (rule made_abdrule.lift [OF loop_rule_made])
  obtain s' where "bfs 2 loop_abdrule 0 () (\<lambda>_. returnM True) ((([], idle), 0), 0) = (Inr (Some (prf2, ())), s')"
    using loop_bfs by blast
  from abduction_returns_sound_proofs [OF exact.spot_library_axioms loop_sig_laws _ r _ start_right this loop_limits]
  show ?thesis by (simp add: ensures_return)
qed

text \<open>
  C17: \<^verbatim>\<open>bfs\<close> with a rule made by the functions of the rule modules ends and returns, if the rule
  returns on every open node of a sound proof, and the check of the definitions returns and
  keeps the soundness check idle and its cache right: none of the assertions of the search,
  on the depth of goals and on the closedness of proofs, ever fails.
\<close>

theorem abduction_returns:
  assumes "spot_library B S" and "sequent_laws Q" and "\<forall>a b. same a b \<longrightarrow> a = b"
    and "made_abdrule Q B S ceil_log same rule"
    and "\<forall>i P d e. prf_sound Q ceil_log P \<and> i \<in> open_nodes P \<and> env_right ceil_log e \<longrightarrow>
      (\<exists>apps e'. rule i P d e = (Inr apps, e'))"
    and "\<forall>d e. env_right ceil_log e \<longrightarrow> (\<exists>b e'. check d e = (Inr b, e') \<and> env_right ceil_log e')"
    and "env_right ceil_log e"
  shows "\<exists>res s'. bfs maxbound rule seq defs0 check ((e, d0), n) = (Inr res, s')"
proof -
  have r: "abdrule_meets True Q ceil_log rule"
    by (rule abdrule_ok_returns [OF spot_library.made_abdrule_ok [OF assms(1,4,3,2)]]) (use assms(5) in blast)
  have c: "\<forall>d e. env_right ceil_log e \<longrightarrow> meets True (env_right ceil_log) (\<lambda>_. True) (check d e)"
    using assms(6) unfolding meets_def by (metis fst_conv snd_conv)
  have "abd_right ceil_log ((e, d0), n)" using assms(7) by (simp add: abd_right_def)
  from bfs_meets [OF r c this, of seq maxbound defs0]
  obtain res where "fst (bfs maxbound rule seq defs0 check ((e, d0), n)) = Inr res" unfolding meets_def by blast
  then show ?thesis by (metis prod.collapse)
qed

theorem abduction_returns_witness:
  "\<exists>res s'. bfs 5 axiom_abdrule 0 () (\<lambda>_. returnM False) ((([], idle), 0), 0) = (Inr res, s')"
  by (rule abduction_returns [OF exact.spot_library_axioms loop_sig_laws _ axiom_abdrule_made _ _ start_right, of "(=)"])
    (use axiom_abdrule_returns in \<open>auto simp: returnM_def\<close>)

section \<open>Rules\<close>

text \<open>
  C6: every rule made by the functions of the rule module, applied to an open node of a
  sound proof, returns only sound proofs in which no other node has changed and the new open
  nodes replace the given one, and raises or returns with the checker idle and the cache
  right.
\<close>

theorem rules_keep_soundness:
  assumes "spot_library B S" and "sequent_laws Q" and "\<forall>a b. same a b \<longrightarrow> a = b"
    and "made_rule Q B S ceil_log same r" and "prf_sound Q ceil_log P" and "i \<in> open_nodes P" and "env_right ceil_log e"
    and "r i P e = (res, e')"
  shows "env_right ceil_log e' \<and> (\<forall>apps. res = Inr apps \<longrightarrow>
    (\<forall>app \<in> set apps. prf_sound Q ceil_log (snd app) \<and> advances P i (fst app) (snd app)))"
  by (rule ensuresD [OF rule_okD [OF spot_library.made_rule_ok [OF assms(1,4,3,2)] assms(5,6)] assms(7,8)])

theorem rules_keep_soundness_witness: "advances (prf_mk 0) 0 [1] prf1"
proof -
  from rules_keep_soundness [OF exact.spot_library_axioms loop_sig_laws _ loop_rule_made prf_mk_sound [of _ _ 0] _ start_right loop_rule_root]
  show ?thesis by (simp add: prf_mk_open)
qed

text \<open>
  C8: on a proof with valid tag pairs and within the limits, a back-link rule whose tag
  pairs are valid never fails in the check and keeps exactly the back-links that make the
  proof satisfy the global trace condition; a greedy one keeps the first of them.
\<close>

theorem backrule_keeps_sound_links:
  assumes "spot_library B S" and "sequent_laws Q" and "\<forall>a b. same a b \<longrightarrow> a = b" and "built Q P" and "prf_fits Q ceil_log P"
    and "\<forall>s t. \<forall>(v, d) \<in> set (g s t). goal_ok Q s (t, v, {})" and "back_apps Q sel_f g i P = Inr apps" and "cache_ok 0 c"
  shows "\<exists>c'. mk_backrule Q B S ceil_log same greedy sel_f (\<lambda>s t. returnM (g s t)) i P (c, idle) =
    (Inr (let good = filter (\<lambda>app. gtc (prf_graph Q (snd app)) 0) apps in if greedy then take 1 good else good), (c', idle)) \<and>
    cache_ok 0 c'"
proof -
  have find: "(case find q xs of None \<Rightarrow> [] | Some x \<Rightarrow> [x]) = take 1 (filter q xs)" for q and xs :: "'x list"
    by (induction xs) auto
  have "\<forall>app \<in> set apps. prf_ok Q (snd app) \<and> prf_valid Q (snd app) \<and> prf_fits Q ceil_log (snd app)"
    using back_apps_ok [OF assms(4,5,7) _ assms(6)] by blast
  from spot_library.check_apps_total [OF assms(1-3) this assms(8)] show ?thesis
    unfolding mk_backrule_apps [OF assms(7)] by (auto simp: bindM_def returnM_def find Let_def)
qed

theorem backrule_keeps_sound_links_witness: "\<exists>c'. back_rule False 1 prf1 ([], idle) = (Inr [([], prf2)], (c', idle))"
proof -
  have "prf_fits loop_sig (\<lambda>_. 1) prf1"
    by (simp add: prf_fits_def prf_finite_def prf1_def node_finite_def abs_in_range_def abs_of_def abs_node_def c_range_def
        tag_x_def to_int_def sample_log mk_open_def)
  moreover have "\<forall>s t. \<forall>(v, d) \<in> set (back_links s t). goal_ok loop_sig s (t, v, {})"
    by (simp add: back_links_def goal_ok_def)
  ultimately show ?thesis
    using backrule_keeps_sound_links [OF exact.spot_library_axioms loop_sig_laws _ loop_built(1), of "(=)" "\<lambda>_. 1" back_links
        all_nodes 1 "[([], prf2)]" "[]" False] loop_gtc loop_back_apps
    by (auto simp: back_rule_def cache_ok_def)
qed

section \<open>Proofs\<close>

text \<open>
  Every proof that the constructors build from an open root, with tag pairs between the
  tags of a node and those of its premises, has the invariants \<open>prf_ok\<close> (numbers from \<open>0\<close>
  without gaps, all numbers point to nodes, premises know their parent, back-links go
  to sequents that are equal up to tags) and valid tag pairs.
\<close>

theorem built_proofs_are_well_formed:
  assumes "built Q P"
  shows "prf_ok Q P \<and> prf_valid Q P"
  by (rule built_ok [OF assms])

theorem built_proofs_are_well_formed_witness: "prf_ok loop_sig prf2 \<and> prf_valid loop_sig prf2"
  by (rule built_proofs_are_well_formed [OF loop_built(2)])

text \<open>
  C9: the soundness check of a proof that was built with valid tag pairs and is within the
  limits of the C++ checker never fails and returns the global trace condition at the root.
\<close>

theorem built_proofs_are_checked:
  assumes "spot_library B S" and "sequent_laws Q" and "built Q P" and "abs_in_range (abs_of Q P)"
    and "\<forall>n. 0 < n \<and> n \<le> length P \<longrightarrow> log_ok ceil_log n" and "\<forall>a b. same a b \<longrightarrow> a = b" and "cache_ok 0 c"
  shows "\<exists>c'. prf_check Q B S ceil_log same P (c, idle) = Inr (gtc (prf_graph Q P) 0, c', idle) \<and> cache_ok 0 c'"
  using built_ok [OF assms(3)] by (intro spot_library.prf_check_total [OF assms(1,2) _ _ assms(4-7)]) simp_all

theorem built_proofs_are_checked_witness:
  "\<exists>c'. prf_check loop_sig robdd_pkg exact_spot (\<lambda>_. 1) (=) prf2 ([], idle) = Inr (True, c', idle)"
  using built_proofs_are_checked [OF exact.spot_library_axioms loop_sig_laws loop_built(2), of "\<lambda>_. 1" "(=)" "[]"]
    loop_limits loop_gtc
  by (auto simp: prf_fits_def cache_ok_def)

text \<open>
  C18: the invariants of a proof. That it is a non-empty connected graph rooted at \<open>0\<close>, with
  back-links between sequents that are equal up to tags, holds of a new proof, is kept by
  \<^verbatim>\<open>add_axiom\<close>, \<^verbatim>\<open>add_backlink\<close>, \<^verbatim>\<open>add_inf\<close> and \<^verbatim>\<open>add_subprf\<close>, and holds of what
  \<^verbatim>\<open>extract_subproof\<close> returns. The documented invariant that leaves are open nodes, axioms or
  back-links is kept too, if the copied proof has it, except by \<^verbatim>\<open>add_inf\<close>: an inference with
  premises keeps it, an inference without premises always breaks it.
\<close>

theorem constructors_keep_invariants:
  assumes "prf_ok Q P"
  shows "prf_ok Q (prf_mk s) \<and> leaves_ok (prf_mk s) \<and>
    (add_axiom Q i d P = Inr P' \<longrightarrow> prf_ok Q P' \<and> (leaves_ok P \<longrightarrow> leaves_ok P')) \<and>
    (add_backlink Q i d t vtts P = Inr P' \<longrightarrow> prf_ok Q P' \<and> (leaves_ok P \<longrightarrow> leaves_ok P')) \<and>
    (add_inf Q i d goals P = Inr (idxs, P') \<longrightarrow> prf_ok Q P' \<and> (leaves_ok P \<longrightarrow> leaves_ok P' = (goals \<noteq> []))) \<and>
    (add_subprf Q sub i P = Inr P' \<longrightarrow> prf_ok Q P' \<and> (leaves_ok P \<and> leaves_ok sub \<longrightarrow> leaves_ok P')) \<and>
    (extract_subproof Q i P = Inr P' \<longrightarrow> prf_ok Q P' \<and> (leaves_ok P \<longrightarrow> leaves_ok P'))"
proof (intro conjI impI)
  show "prf_ok Q P'" "leaves_ok P \<Longrightarrow> leaves_ok P' = (goals \<noteq> [])" if "add_inf Q i d goals P = Inr (idxs, P')"
    using constructors_ok(3) [OF assms that] constructors_leaves(3) [OF assms _ that] by blast+
qed (auto intro: constructors_ok(1,2) [OF assms] constructors_leaves(1,2) [OF assms] add_subprf_ok [OF _ assms]
    add_subprf_leaves [OF _ assms] extract_subproof_ok extract_subproof_leaves prf_mk_ok prf_mk_leaves)

theorem constructors_keep_invariants_witness:
  "prf_ok loop_sig prf1 \<and> leaves_ok prf1 \<and>
    (\<exists>P'. add_inf loop_sig 0 ''Ax'' [] (prf_mk 0) = Inr ([], P') \<and> prf_ok loop_sig P' \<and> \<not> leaves_ok P')"
proof -
  note keep = constructors_keep_invariants [OF prf_mk_ok [of loop_sig 0]]
  obtain P' where "add_inf loop_sig 0 ''Ax'' [] (prf_mk 0) = Inr ([], P')"
    by (simp add: add_inf_eq [OF prf_mk_ok] prf_mk_lookup mk_open_def asserting_def)
  with keep [of 0 0 "''Ax''" _ _ _ "[]" "[]"] have "prf_ok loop_sig P' \<and> \<not> leaves_ok P'" by blast
  moreover have "prf_ok loop_sig prf1 \<and> leaves_ok prf1" using keep [of 0 0 "''Unfold''"] loop_steps(1) by blast
  ultimately show ?thesis using \<open>add_inf _ _ _ _ _ = _\<close> by blast
qed

text \<open>
  The constructors fail exactly on a node that is missing or not open; \<^verbatim>\<open>add_backlink\<close>
  also on a missing target and on one whose sequent differs by more than tags.
\<close>

theorem constructors_reject:
  assumes "sequent_laws Q" and "prf_ok Q P"
  shows "(\<exists>P'. add_axiom Q i d P = Inr P') = (i \<in> open_nodes P) \<and>
    (\<exists>r. add_inf Q i d goals P = Inr r) = (i \<in> open_nodes P) \<and>
    (\<exists>P'. add_backlink Q i d t vtts P = Inr P') =
      (i \<in> open_nodes P \<and> (\<exists>s u. prf_get_seq i P = Inr s \<and> prf_get_seq t P = Inr u \<and> seq_equal_upto_tags Q s u))"
  unfolding add_axiom_eq add_backlink_eq add_inf_eq [OF assms(2)]
  by (auto simp: open_nodes_def prf_get_seq_eq asserting_eq_Inr sequent_lawsD(1) [OF assms(1)] split: option.split)

theorem constructors_reject_witness: "\<not> (\<exists>P'. add_axiom loop_sig 0 ''Ax'' prf2 = Inr P')"
  using constructors_reject [OF loop_sig_laws conjunct1 [OF built_ok [OF loop_built(2)]], of 0 "''Ax''"]
  by (simp add: open_nodes_def prf2_def)

text \<open>
  \<^verbatim>\<open>get_ancestry\<close> ends and returns the nodes on the way from the root to the given node,
  each the parent of the next.
\<close>

theorem ancestry_is_parent_chain:
  assumes "prf_ok Q P" and "map_of P i = Some (p, n)"
  shows "\<exists>l. get_ancestry i P = Inr (l @ [(i, n)]) \<and> parent_chain P (l @ [(i, n)]) \<and> fst (hd (l @ [(i, n)])) = 0 \<and>
    map_of P 0 = Some (0, snd (hd (l @ [(i, n)])))"
proof -
  have "i \<in> dom (map_of P)" using assms(2) by blast
  then have "i < int (length P)" unfolding prf_okD(3) [OF assms(1)] by simp
  from ancestry_rec_eq [OF assms this, of "[]"] assms(2) show ?thesis by (simp add: get_ancestry_def prf_get_eq)
qed

theorem ancestry_is_parent_chain_witness: "\<exists>l. get_ancestry 1 prf2 = Inr (l @ [(1, BackNode 0 ''Back'' 0 {(tag_x, tag_x)})])"
  using ancestry_is_parent_chain [OF conjunct1 [OF built_ok [OF loop_built(2)]], of 1 0 "BackNode 0 ''Back'' 0 {(tag_x, tag_x)}"]
  by (auto simp: prf2_def)

text \<open>
  \<^verbatim>\<open>is_closed_at\<close> ends and says whether no node below the given one is open; at the root
  it agrees with \<^verbatim>\<open>is_closed\<close>.
\<close>

theorem closed_at_means_no_open_node_below:
  assumes "prf_ok Q P" and "map_of P i = Some x"
  shows "is_closed_at P i = Inr (\<forall>j. below P i j \<longrightarrow> j \<notin> open_nodes P) \<and> is_closed_at P 0 = Inr (is_closed P)"
proof -
  obtain n where n: "map_of P 0 = Some (0, n)" using prf_ok_root [OF assms(1)] by blast
  have "(\<forall>j. below P 0 j \<longrightarrow> j \<notin> open_nodes P) \<longleftrightarrow> open_nodes P = {}"
    using below_root [OF assms(1)] unfolding open_nodes_def by blast
  with is_closed_at_eq [OF assms] is_closed_at_eq [OF assms(1) n] is_closed_iff [OF prf_okD(1) [OF assms(1)]]
  show ?thesis by simp
qed

theorem closed_at_means_no_open_node_below_witness: "is_closed_at prf1 0 = Inr (is_closed prf1)"
  using closed_at_means_no_open_node_below [OF conjunct1 [OF built_ok [OF loop_built(1)]], of 1 "(0, mk_open 0)"]
  by (simp add: prf1_def)

text \<open>
  C38: copying a closed proof to an open node with \<^verbatim>\<open>add_subprf\<close> closes that node and opens
  none; nodes that were not open and the sequents of all nodes stay as they are.
\<close>

theorem copied_proof_closes_node:
  assumes "prf_ok Q P" and "prf_ok Q sub" and "is_closed sub" and "add_subprf Q sub i P = Inr P'"
  shows "prf_ok Q P' \<and> open_nodes P' = open_nodes P - {i} \<and>
    (\<forall>j x. map_of P j = Some x \<and> \<not> is_open (snd x) \<longrightarrow> map_of P' j = Some x) \<and>
    (\<forall>j s. prf_get_seq j P = Inr s \<longrightarrow> prf_get_seq j P' = Inr s)"
proof -
  have "open_nodes sub = {}" using assms(3) is_closed_iff [OF prf_okD(1) [OF assms(2)]] by simp
  note a = add_subprf_advances [OF assms(1) this assms(4)]
  then have "grows P P'" and ok: "prf_ok Q P'" "open_nodes P' = open_nodes P - {i}" by (simp_all add: advances_def)
  from this(1) have g: "\<exists>y. map_of P' j = Some y \<and> node_get_seq (snd y) = node_get_seq (snd x) \<and> (\<not> is_open (snd x) \<longrightarrow> y = x)"
    if "map_of P j = Some x" for j x
    using that unfolding grows_def by blast
  have "prf_get_seq j P' = Inr s" if s: "prf_get_seq j P = Inr s" for j s
  proof -
    obtain x where x: "map_of P j = Some x" "s = node_get_seq (snd x)" using s by (auto simp: prf_get_seq_eq split: option.splits)
    obtain y where "map_of P' j = Some y" "node_get_seq (snd y) = node_get_seq (snd x)" using g [OF x(1)] by blast
    with x(2) show ?thesis by (simp add: prf_get_seq_eq)
  qed
  moreover have "map_of P' j = Some x" if "map_of P j = Some x" "\<not> is_open (snd x)" for j x using g that by blast
  ultimately show ?thesis using ok by blast
qed

theorem copied_proof_closes_node_witness: "open_nodes prf2 = {}"
proof -
  have "is_closed prf2" by (simp add: is_closed_def prf2_def)
  from copied_proof_closes_node [OF prf_mk_ok conjunct1 [OF built_ok [OF loop_built(2)]] this loop_copy]
  show ?thesis by (simp add: prf_mk_open)
qed

text \<open>
  C39: \<^verbatim>\<open>add_subprf\<close> and \<^verbatim>\<open>extract_subproof\<close> end, also when they fail: the recursions of the
  model never exhaust the depth they are given.
\<close>

theorem copying_ends:
  assumes "prf_ok Q P"
  shows "add_subprf Q P i P' \<noteq> Inl Diverges \<and> extract_subproof Q i P \<noteq> Inl Diverges"
  using add_subprf_ends [OF assms, of i P'] extract_subproof_ends [of Q i P] by (simp add: ends_def)

theorem copying_ends_witness: "extract_subproof loop_sig 1 prf2 \<noteq> Inl Diverges"
  using copying_ends [OF conjunct1 [OF built_ok [OF loop_built(2)]], of 1] by blast

text \<open>
  C40: \<^verbatim>\<open>extract_subproof\<close> does not keep tag pairs valid. It replaces a back-link whose target
  lies outside the subproof by a copy of the target, and gives the copy the tag pairs of the
  target but the tags of the back-link. Here a closed proof that was built with valid tag
  pairs and satisfies the global trace condition is rearranged into one for which the
  soundness check fails in an assertion.
\<close>

theorem extracted_subproof_fails_check:
  "built tag_sig outer \<and> is_closed outer \<and> gtc (prf_graph tag_sig outer) 0 \<and> extract_subproof tag_sig 1 outer = Inr inner \<and>
   prf_check tag_sig B S ceil_log same inner s = Inl (Assert_failure ''valid prf init'')"
proof (intro conjI outer_built outer_gtc outer_extract)
  show "is_closed outer" by (simp add: is_closed_def outer_def)
  have ok: "prf_ok tag_sig inner" by (rule extract_subproof_ok [OF outer_extract])
  have fin: "prf_finite inner" by (simp add: prf_finite_def inner_def node_finite_def)
  note abs = abs_of_ok [OF tag_sig_laws ok fin]
  have "abs_of tag_sig inner \<noteq> []" by (simp add: abs_of_def inner_def)
  moreover have "\<not> abs_closed (abs_of tag_sig inner)"
    by (simp add: abs_of_def inner_def abs_closed_def abs_node_def premise_ok_def ints_def tag_of_def to_int_def)
  ultimately show "prf_check tag_sig B S ceil_log same inner s = Inl (Assert_failure ''valid prf init'')"
    unfolding prf_check_eq [OF tag_sig_laws ok fin] by (simp add: check_proof_def valid_iff [OF abs] asserting_def split: prod.split)
qed

section \<open>Tactics\<close>

text \<open>
  C35: \<^verbatim>\<open>Blist.choose\<close>, which reverses every second list and uses accumulators only, returns
  the choices of one element of each list in the order of the plain recursion that the
  source keeps in a comment.
\<close>

theorem choose_is_product: "choose_list lol = product_lists lol"
  by (rule choose_list_eq)

text \<open>
  C20: composing two tactics gives exactly the ways to apply the first one and then, to each
  premise, the second one. The valid pairs are the compositions, and the progressing ones
  are those compositions in which one of the two steps progresses.
\<close>

theorem composed_tactics_are_two_steps:
  assumes "tac_ok Q r" and "tac_ok Q r'"
  shows "app \<in> set (tac_compose r r' seq) \<longleftrightarrow>
    (\<exists>goals d as. (goals, d) \<in> set (r seq) \<and> list_all2 (\<lambda>g a. a \<in> set (r' (fst g))) goals as \<and>
      app = (concat (map2 (\<lambda>g a. map (fuse g) (fst a)) goals as), join_label d (map snd as)))"
proof -
  have "app \<in> set (tac_compose r r' seq) \<longleftrightarrow>
      (\<exists>goals d. (goals, d) \<in> set (r seq) \<and> app \<in> set (apply_to_application r' (goals, d)))"
    by (auto simp: tac_compose_def)
  also have "\<dots> \<longleftrightarrow> (\<exists>goals d. (goals, d) \<in> set (r seq) \<and> (\<exists>as. list_all2 (\<lambda>g a. a \<in> set (r' (fst g))) goals as \<and>
      app = (concat (map2 (\<lambda>g a. map (fuse g) (fst a)) goals as), join_label d (map snd as))))"
    using apply_to_application_mem [OF assms(2)] tac_okD [OF assms(1)] by (metis fst_conv)
  finally show ?thesis by blast
qed

theorem composed_tactics_are_two_steps_witness:
  "([(0, {(tag_x, tag_x)}, {(tag_x, tag_x)})], ''Unfold/Unfold'') \<in> set (tac_compose unfold_tac unfold_tac 0)"
  unfolding composed_tactics_are_two_steps [OF unfold_tac_ok unfold_tac_ok]
  by (intro exI [of _ "[(0, {(tag_x, tag_x)}, {(tag_x, tag_x)})]"] exI [of _ "''Unfold''"]
      exI [of _ "[([(0, {(tag_x, tag_x)}, {(tag_x, tag_x)})], ''Unfold'')]"])
    (auto simp: unfold_tac_def fuse_def block_pairs_def join_label_def filt_emp_def)

text \<open>
  C19: the tactic combinators keep tag pairs valid, and a rule made from a tactic built with
  them, or from \<^verbatim>\<open>repeat\<close> of one, turns a built proof into built proofs. On each of these, if
  it is within the limits of the C++ checker, the soundness check never fails and returns
  the global trace condition at the root.
\<close>

theorem tactics_build_valid_proofs:
  assumes "spot_library B S" and "sequent_laws Q" and "made_tactic Q tac" and "built Q P"
    and "f \<in> {\<lambda>s. Inr (tac s), tac_repeat k tac}"
    and "mk_infrule Q (\<lambda>s. liftM (f s)) i P e = (Inr apps, e')" and "app \<in> set apps"
    and "abs_in_range (abs_of Q (snd app))" and "\<forall>n. 0 < n \<and> n \<le> length (snd app) \<longrightarrow> log_ok ceil_log n"
    and "\<forall>a b. same a b \<longrightarrow> a = b" and "cache_ok 0 c"
  shows "tac_ok Q tac \<and> built Q (snd app) \<and>
    (\<exists>c'. prf_check Q B S ceil_log same (snd app) (c, idle) = Inr (gtc (prf_graph Q (snd app)) 0, c', idle) \<and> cache_ok 0 c')"
proof -
  have t: "tac_ok Q tac" by (rule made_tactic_ok [OF assms(3,2)])
  have "built Q (snd app)"
    by (rule tactic_builds [OF assms(4) _ assms(6,7)]) (use assms(5) tac_okD [OF t] tac_repeat_ok [OF t] in blast)
  with t built_ok [OF this] spot_library.prf_check_total [OF assms(1,2) _ _ assms(8-11)] show ?thesis by blast
qed

theorem tactics_build_valid_proofs_witness:
  "\<exists>c'. prf_check loop_sig robdd_pkg exact_spot (\<lambda>_. 1) (=) prf1 ([], idle) = Inr (gtc (prf_graph loop_sig prf1) 0, c', idle)"
proof -
  have m: "mk_infrule loop_sig (\<lambda>s. liftM (Inr (tac_choice [unfold_tac] s))) 0 (prf_mk 0) ([], idle) =
      (Inr [([1], prf1)], ([], idle :: bdt checker))"
    by (simp add: mk_infrule_def tac_choice_def unfold_tac_def prf_get_seq_eq prf_mk_lookup loop_steps mk_open_def
        bindM_def liftM_def returnM_def)
  have "made_tactic loop_sig (tac_choice [unfold_tac])"
    by (rule made_tactic.choice) (simp add: made_tactic.given unfold_tac_ok)
  from tactics_build_valid_proofs [OF exact.spot_library_axioms loop_sig_laws this built.root _ m, of 0 "([1], prf1)" "\<lambda>_. 1" "(=)" "[]"]
    prf1_limits
  show ?thesis by (simp add: cache_ok_def) blast
qed

text \<open>
  C36: \<^verbatim>\<open>repeat\<close> of a tactic that always leaves premises, all smaller than the sequent, ends,
  and returns exactly the applications that repeated application to all premises leads to
  and that some premise stops.
\<close>

theorem repeat_applies_until_stuck:
  assumes "\<forall>s app. app \<in> set (r s) \<longrightarrow> fst app \<noteq> [] \<and> (\<forall>g \<in> set (fst app). \<mu> (fst g) < (\<mu> s :: nat))"
  shows "\<exists>apps. tac_repeat (\<mu> seq) r seq = Inr apps \<and>
    set apps = {b. \<exists>a \<in> set (r seq). (app_step r)\<^sup>*\<^sup>* a b \<and> apply_to_application r b = []}"
proof -
  obtain apps where "tac_repeat (\<mu> seq) r seq = Inr apps" using tac_repeat_returns [of r \<mu> seq] assms by blast
  with tac_repeat_set [OF this] show ?thesis by blast
qed

theorem repeat_applies_until_stuck_witness: "\<exists>apps. tac_repeat 2 decrease_tac 2 = Inr apps"
  using repeat_applies_until_stuck [of decrease_tac "\<lambda>s. s" 2] decrease_tac_shrinks by blast

text \<open>
  C37: \<^verbatim>\<open>repeat\<close> never returns if the tactic has an application without premises: such an
  application is applied to again without end.
\<close>

theorem repeat_diverges_on_closed_application:
  assumes "([], d) \<in> set (r seq)"
  shows "tac_repeat k r seq = Inl Diverges"
  using assms by (rule tac_repeat_closed)

theorem repeat_diverges_on_closed_application_witness:
  "tac_repeat 7 (\<lambda>_. [([], ''Ax'')]) (0 :: nat) = Inl Diverges"
  by (rule repeat_diverges_on_closed_application [where d = "''Ax''"]) simp

end
