(* ===== verification/Spec2Isabelle.thy ===== *)
theory Spec2Isabelle
  imports Checker_Properties Driver_Properties Prover_Properties
begin

text \<open>
  \<^bold>\<open>The program.\<close> Cyclist is a theorem prover for cyclic proofs. A cyclic proof is sound if
  every infinite path through it is followed, from some point on, by a trace that progresses
  infinitely often: the global trace condition. This development verifies the generic part
  of the program: the check that decides the condition, and the prover that searches for
  proofs and calls the check. The check:

  \<^item> \<^verbatim>\<open>src/src/generic/checkproof.ml\<close> turns input lines into an abstract proof;
  \<^item> \<^verbatim>\<open>src/src/generic/soundcheck.ml\<close> validates an abstract proof, minimises it, looks its
    answer up in a cache and otherwise hands it, call by call, to the C++ checker;
  \<^item> \<^verbatim>\<open>src/src/generic/soundness.c\<close> is the interface of the C++ checker: two global variables
    and the exported functions;
  \<^item> \<^verbatim>\<open>src/src/generic/proof.hpp\<close> and \<^verbatim>\<open>proof.c\<close> hold the proof as a graph whose vertices are
    BDD minterms;
  \<^item> \<^verbatim>\<open>proof_aut.hpp\<close>, \<^verbatim>\<open>proof_aut.c\<close> and \<^verbatim>\<open>trace.hpp\<close>, \<^verbatim>\<open>trace.c\<close> present this graph to the
    Spot library as two Buchi automata, of its infinite paths and of its progressing traces.
    \<^verbatim>\<open>check_soundness\<close> asks Spot whether the language of the first is included in that of
    the second.

  The prover, a functor over a module of sequents:

  \<^item> \<^verbatim>\<open>src/src/generic/tagpairs.ml\<close>, \<^verbatim>\<open>proofnode.ml\<close> and \<^verbatim>\<open>proof.ml\<close> are the proofs with open
    nodes, axioms, inferences and back-links; \<^verbatim>\<open>Proof.check\<close> makes an abstract proof and
    calls \<^verbatim>\<open>soundcheck.ml\<close>;
  \<^item> \<^verbatim>\<open>seqtactics.ml\<close> combines functions from a sequent to its possible premises, and
    \<^verbatim>\<open>proofrule.ml\<close> makes rules on proofs from such functions and combines them; back-link
    rules call the check;
  \<^item> \<^verbatim>\<open>prover.ml\<close> searches for a closed proof by iterative deepening; \<^verbatim>\<open>abdrule.ml\<close> and
    \<^verbatim>\<open>abducer.ml\<close> are rules and a breadth-first search for proofs together with inductive
    definitions.

  \<^bold>\<open>The theories.\<close>

  \<^item> \<^verbatim>\<open>Prelude\<close>: failures as values of \<open>error + 'a\<close>, with \<open>bindE\<close>, \<open>asserting\<close>, \<open>foldE\<close> and
    \<open>mapE\<close>. Every assertion, exception and undefined access of the sources is an \<open>Inl\<close>.
  \<^item> \<^verbatim>\<open>Traces\<close>: the specification. Trace graphs, their infinite paths, the global trace
    condition \<open>gtc\<close>, and its invariance under renaming, removal of a sink and fusion of a
    vertex with its only successor.
  \<^item> \<^verbatim>\<open>Bdd_Package\<close>, \<^verbatim>\<open>Spot_Twa\<close>: the libraries the C++ code calls, as records of operations
    with the locales \<open>bdd_library\<close> and \<open>spot_library\<close> for their documented laws; reduced
    decision trees and an exact inclusion test satisfy them. The locales \<open>succ_iterator\<close>
    and \<open>state_order\<close> are the contracts that Spot puts on the classes of the checker, and
    are interpreted on the model of those classes. The law of \<open>spot_library\<close> on the copy of an
    automaton speaks of its states and edges; that Spot tells states apart by \<^verbatim>\<open>compare\<close> and
    \<^verbatim>\<open>hash\<close> is covered by \<open>state_order\<close>, which shows that these agree with equality.
  \<^item> \<^verbatim>\<open>Proof_Graph\<close>: the class \<^verbatim>\<open>Proof\<close> as the record \<open>cxx_proof\<close>, its constructor and methods,
    the class invariant, and the step relation of method calls with what every reachable
    object satisfies.
  \<^item> \<^verbatim>\<open>Proof_Aut\<close>, \<^verbatim>\<open>Trace_Aut\<close>: the two automata with their states, iterators, comparison and
    hashing at machine width, the memo table of trace states over an explicit heap, the
    objects that the methods lead to (\<open>ta_used\<close>) with what the destructor does to them, and
    the languages.
  \<^item> \<^verbatim>\<open>Containment\<close>: inclusion of the languages is the global trace condition of the graph.
  \<^item> \<^verbatim>\<open>Soundness\<close>: the C interface on the record \<open>checker\<close> of the two global variables. The
    relation \<open>represents\<close> ties the state to the caller's \<open>view\<close>, and every call refines an
    update of the view. Runs of calls (\<open>do_call\<close>) keep to the protocol \<open>session\<close>.
  \<^item> \<^verbatim>\<open>Ocaml_Lib\<close>: the operations of \<^verbatim>\<open>src/src/lib/\<close> blist.ml, treemap.ml and treeset.ml that
    the driver uses; the locale \<open>dictionary\<close> is the contract of maps.
  \<^item> \<^verbatim>\<open>Soundcheck\<close>: the definitions of soundcheck.ml. The first function \<^verbatim>\<open>check_proof\<close> of the
    file is \<open>mc_check_proof\<close>, the second, exported one \<open>check_proof\<close>.
  \<^item> \<^verbatim>\<open>Minimise\<close>, \<^verbatim>\<open>Driver\<close>, \<^verbatim>\<open>Checkproof\<close>: minimisation keeps the global trace condition; the
    driver and the cached check decide it; \<^verbatim>\<open>mk_prf\<close> builds the proof that its lines describe.
  \<^item> \<^verbatim>\<open>Effects\<close>: code with exceptions and state, \<open>eff\<close>, in which an exception keeps the state,
    and contracts \<open>ensures\<close> for it.
  \<^item> \<^verbatim>\<open>Prover_Node\<close>, \<^verbatim>\<open>Prover_Proof\<close>: the sequent module as the record \<open>sequent_sig\<close> with its
    documented laws \<open>sequent_laws\<close>; tag pairs, nodes, and every operation of proof.ml. Of the
    invariants that the documentation of the type lists, \<open>prf_ok\<close> has those that hold of every
    proof (a non-empty connected graph rooted at \<open>0\<close>, and that back-links have their targets'
    sequents up to tags), and \<open>leaves_ok\<close> the one on leaves, which an inference without
    premises breaks.
  \<^item> \<^verbatim>\<open>Prover_Inv\<close>, \<^verbatim>\<open>Prover_Copy\<close>: which constructors keep the invariants, the recursions on
    proofs end, and what they return. The locale \<open>constructor_invariant\<close> lifts a property
    of the three constructors to the functions that copy proofs.
  \<^item> \<^verbatim>\<open>Prover_Check\<close>: the graph of a proof, what the constructors do to its global trace
    condition, and what the check answers in the course of a search.
  \<^item> \<^verbatim>\<open>Prover_Rules\<close>, \<^verbatim>\<open>Prover_Search\<close>, \<^verbatim>\<open>Seq_Tactics\<close>, \<^verbatim>\<open>Prover_Valid\<close>: rules and their contract
    \<open>rule_ok\<close>, the search, tactics, and proofs built with valid tag pairs (\<open>built\<close>).
  \<^item> \<^verbatim>\<open>Abd_Rules\<close>, \<^verbatim>\<open>Abducer\<close>: the rules of abduction with the same contract, and the search
    with its stack of pending applications.
  \<^item> \<^verbatim>\<open>Samples\<close>, \<^verbatim>\<open>Prover_Samples\<close>, \<^verbatim>\<open>Checker_Properties\<close>, \<^verbatim>\<open>Driver_Properties\<close>,
    \<^verbatim>\<open>Prover_Properties\<close> and this theory: concrete proofs and a concrete logic, and the
    properties of the C++ side, of the driver, of the prover, and of the whole.

  \<^bold>\<open>What is shown.\<close> The check returns, without a failed assertion, and its answer is the
  global trace condition of the graph that the input lines describe; each link of this chain
  (lines to abstract proof, minimisation, driver, interface, automata, inclusion) is a
  property of its own. A proof that either search returns, with any rules that the rule
  modules can make, is closed, proves the given sequent and satisfies the global trace condition; the
  rules, the proof constructors and the tactics each keep the invariant that this rests on,
  and the check never fails on proofs built with valid tag pairs. Further properties give
  the behaviour of the operations on their error branches, the invariants of the data, the
  termination of the loops, and the capacity limits of the C++ side. Six groups of theorems
  show inputs on which the code does not do what it means to: a cache keyed without the
  start node, a start node that minimisation removes, premises that occur twice, numbers
  outside the range that the C++ code handles, the extraction of a subproof with a back-link
  out of it, and the repetition of a tactic that closes a sequent.

  \<^bold>\<open>Hypotheses.\<close> Where a property speaks of the whole check it assumes the laws of
  \<open>spot_library\<close>; that node and tag numbers are in the range of a C++ \<^verbatim>\<open>int\<close> (\<open>c_range\<close>: the
  interface cuts them to 32 bits); that the floating-point logarithm of the driver, a
  parameter \<open>ceil_log\<close>, is not below the exact one and below \<open>31\<close> (\<open>log_ok\<close>), which makes the
  capacity of the vertex numbering sufficient; that the structural comparison of cache keys,
  a parameter \<open>same\<close>, identifies only equal proofs; that the cache holds answers for the same
  start node (\<open>cache_ok\<close>); and that the start node is \<open>0\<close> or lies on an infinite path. The
  last two are needed: see the properties \<open>cache_ignores_start_node\<close> and
  \<open>dead_start_node_fails\<close>. The prover always starts at node \<open>0\<close>, so its searches meet
  neither; there the range and the logarithm are assumed of the final proof only
  (\<open>prf_fits\<close>), and nothing of the functions of a logic but that they leave the checker idle
  and the cache right (\<open>made_rule\<close>), which a function without checks does. Assertions are
  modelled as enabled, as the build leaves them.

  \<^bold>\<open>Loops and fuel.\<close> The loops over containers are folds; the two minimisation loops and the
  two recursions of the search are total functions, by the number of nodes and by the search
  bound, and so is that of abduction, by the distances of all pending goals from the bound; the loop of a client over a successor iterator is \<open>while_option\<close> and is shown to
  end. Fuel bounds the depth of five recursions, and \<open>Diverges\<close> is the value without it.
  Copying a proof (\<open>add_rec\<close>) and walking it (\<open>ancestry_rec\<close>, \<open>closed_rec\<close>) follow the tree,
  so the number of nodes is enough, and extraction (\<open>extract_rec\<close>) enters a new node into its
  map before each call, so one more is enough: they are shown never to exhaust it. \<^verbatim>\<open>repeat\<close>
  of a tactic (\<open>repeat_rec\<close>) may indeed not end; it is shown with which fuel it returns, and
  when no fuel is enough.

  \<^bold>\<open>Not modelled.\<close>

  \<^item> The parser and the loop over standard input of checkproof.ml, all printing of
    soundcheck.ml, its debug output and statistics: input and output, without effect on the
    answer.
  \<^item> The registration of C++ values with OCaml's garbage collector, allocation failure, and
    the deregistration of BDD variables: they belong to the run-time systems. Reserving room
    in a vector ahead of time has no effect on its contents.
  \<^item> The bucket structure of hash tables and the balance of search trees: a C++ hash table is
    a map or a set, an OCaml map the list of its bindings in order. The hash functions
    themselves are modelled. The commented-out functions of proof_aut.c and trace.c.
  \<^item> Hash-consing of names (varManager.ml): a variable is given with its number.
  \<^item> The algorithms of Spot and BuDDy: not part of the sources.
  \<^item> The wrap-around of search bounds and node numbers at OCaml's 63 bits: a search does not
    reach them. The lists of rule applications are the strict lists of blist.ml, as in the
    sources.
  \<^item> Ordering constraints, the command line (frontend.ml), statistics, and the substitutions of
    tagpairs.ml.
  \<^item> The logics built on the prover (seplog, firstorder, while, procedure): their sequents and
    rules are parameters here.
\<close>

section \<open>Sample input\<close>

text \<open>\<^verbatim>\<open>a -> a : {(x, x)}, {}\<close>, and \<^verbatim>\<open>a -> b : {}, {}\<close> with \<^verbatim>\<open>c -> c : {}, {}\<close>.\<close>

definition loop_lines :: "line list" where
  "loop_lines = [(Var 1 ''a'', Var 1 ''a'', {(Var 1 ''x'', Var 1 ''x'')}, {})]"

definition chain_lines :: "line list" where
  "chain_lines = [(Var 1 ''a'', Var 2 ''b'', {}, {}), (Var 3 ''c'', Var 3 ''c'', {}, {})]"

lemma loop_lines_ok:
  "distinct (map (\<lambda>l. (ln_src l, ln_dst l)) loop_lines)" "lines_finite loop_lines" "loop_lines \<noteq> []"
  "lines_in_range loop_lines" "length loop_lines = 1" "ln_src (hd loop_lines) = 1"
  by (simp_all add: loop_lines_def lines_finite_def lines_in_range_def ln_defs to_int_def c_range_def)

lemma loop_lines_path: "tg_path (lines_graph loop_lines) 1 (\<lambda>_. 1)"
  by (simp add: tg_path_def lines_graph_def loop_lines_def ln_defs to_int_def)

lemma loop_lines_gtc: "gtc (lines_graph loop_lines) 1"
  by (rule self_loop_gtc [where t = 1]) (auto simp: lines_graph_def loop_lines_def ln_defs to_int_def ints_def)

section \<open>From the input of the checker to its answer\<close>

text \<open>
  C21: the abstract proof that \<^verbatim>\<open>mk_prf\<close> builds from input lines without a repeated edge is
  well-formed and passes \<^verbatim>\<open>valid\<close>, its nodes are the names that occur in the lines, its
  trace graph is the one the lines describe, and its start node is the source of the first
  line.
\<close>

theorem input_lines_become_proof:
  assumes "distinct (map (\<lambda>l. (ln_src l, ln_dst l)) lns)" and "lines_finite lns" and "lns \<noteq> []"
  shows "\<exists>prf. mk_prf lns = Inr (prf, ln_src (hd lns)) \<and> abs_ok prf \<and> valid prf (ln_src (hd lns)) = Inr True \<and>
    abs_graph prf = lines_graph lns \<and> (\<forall>i. im_mem i prf \<longleftrightarrow> (\<exists>l\<in>set lns. ln_src l = i \<or> ln_dst l = i))"
proof -
  obtain p where p: "mk_prf lns = Inr (p, ln_src (hd lns))" "proof_of_lines lns p" "abs_ok p" "abs_closed p"
    "abs_graph p = lines_graph lns"
    using mk_prf_correct [OF assms(1,2)] assms(3) by auto
  have "im_mem (ln_src (hd lns)) p" unfolding proof_of_lines_mem [OF p(2)] using hd_in_set [OF assms(3)] by blast
  with p(4) have "valid p (ln_src (hd lns)) = Inr True" by (simp add: valid_iff [OF p(3)])
  with p proof_of_lines_mem [OF p(2)] show ?thesis by blast
qed

theorem input_lines_become_proof_witness:
  "\<exists>prf. mk_prf loop_lines = Inr (prf, 1) \<and> valid prf 1 = Inr True"
  using input_lines_become_proof [OF loop_lines_ok(1-3)] by (auto simp: loop_lines_ok(6))

text \<open>
  Input in which the same edge occurs on two lines is refused by an assertion of
  \<^verbatim>\<open>mk_prf\<close>.
\<close>

theorem repeated_edges_refused:
  assumes "\<not> distinct (map (\<lambda>l. (ln_src l, ln_dst l)) lns)" and "lines_finite lns"
  shows "mk_prf lns = Inl (Assert_failure ''not (List.mem dest premises)'')"
  by (rule mk_prf_repeated [OF assms])

theorem repeated_edges_refused_witness:
  "mk_prf (loop_lines @ loop_lines) = Inl (Assert_failure ''not (List.mem dest premises)'')"
  by (rule repeated_edges_refused) (simp_all add: loop_lines_def lines_finite_def ln_defs)

text \<open>
  C1: the stand-alone checker, from its parsed input to its answer: if the start node lies on
  an infinite path, the check of the proof built from the lines runs through validation,
  minimisation, the calls of the C interface and the language inclusion of the two automata,
  and answers whether every infinite path through the edges of the input, from the source of
  its first line, is followed by an infinitely progressing trace.
\<close>

theorem checker_decides_gtc_of_input:
  assumes "spot_library B S" and "distinct (map (\<lambda>l. (ln_src l, ln_dst l)) lns)" and "lines_finite lns"
    and "lines_in_range lns" and "lns \<noteq> []" and "\<exists>w. tg_path (lines_graph lns) (ln_src (hd lns)) w"
    and "\<forall>n. 0 < n \<and> n \<le> 2 * length lns \<longrightarrow> log_ok ceil_log n"
    and "\<forall>a b. same a b \<longrightarrow> a = b" and "cache_ok (ln_src (hd lns)) c"
  shows "\<exists>prf c'. mk_prf lns = Inr (prf, ln_src (hd lns)) \<and>
    check_proof B S ceil_log same (ln_src (hd lns)) prf (c, idle) =
      Inr (gtc (lines_graph lns) (ln_src (hd lns)), c', idle)"
proof -
  obtain p where p: "mk_prf lns = Inr (p, ln_src (hd lns))" "proof_of_lines lns p" "abs_ok p" "abs_closed p"
    "abs_graph p = lines_graph lns"
    using mk_prf_correct [OF assms(2,3)] assms(5) by auto
  have mem: "im_mem (ln_src (hd lns)) p"
    unfolding proof_of_lines_mem [OF p(2)] using hd_in_set [OF assms(5)] by blast
  have log: "log_ok ceil_log n" if "0 < n" "n \<le> length p" for n
    using assms(7) that proof_of_lines_length [OF p(2)] by auto
  have "\<exists>c'. check_proof B S ceil_log same (ln_src (hd lns)) p (c, idle) =
      Inr (gtc (abs_graph p) (ln_src (hd lns)), c', idle) \<and> cache_ok (ln_src (hd lns)) c'"
    by (rule spot_library.check_proof_ok [OF assms(1) p(3,4) mem proof_of_lines_range [OF p(2) assms(4)] log])
      (use assms(6,8,9) p(5) in auto)
  with p(1,5) show ?thesis by auto
qed

theorem checker_decides_gtc_of_input_witness:
  "\<exists>prf c'. mk_prf loop_lines = Inr (prf, 1) \<and>
    check_proof robdd_pkg exact_spot (\<lambda>_. 1) (=) 1 prf ([], idle) = Inr (True, c', idle)"
proof -
  have path: "\<exists>w. tg_path (lines_graph loop_lines) (ln_src (hd loop_lines)) w"
    using loop_lines_path by (auto simp: loop_lines_ok(6))
  have log: "\<forall>n. 0 < n \<and> n \<le> 2 * length loop_lines \<longrightarrow> log_ok (\<lambda>_. 1) n"
    by (simp add: loop_lines_ok(5) sample_log)
  from checker_decides_gtc_of_input [OF exact.spot_library_axioms loop_lines_ok(1,2,4,3) path log, of "(=)" "[]"]
  show ?thesis using loop_lines_gtc by (simp add: loop_lines_ok(6) cache_ok_def)
qed

text \<open>
  C30: a start node without an infinite path makes the stand-alone checker fail its own
  assertion when some other node has one: minimisation protects node \<open>0\<close>, which is no node
  of the input, instead of the start node, and removes it. The global trace condition holds.
\<close>

theorem dead_start_node_fails:
  "mk_prf chain_lines = Inr (chain_and_loop, 1) \<and> valid chain_and_loop 1 = Inr True \<and>
   gtc (lines_graph chain_lines) 1 \<and>
   check_proof B S ceil_log same 1 chain_and_loop (c, st) = Inl (Assert_failure ''valid aprf init'')"
proof -
  have m: "mk_prf chain_lines = Inr (chain_and_loop, 1)"
    by (simp add: mk_prf_def chain_lines_def add_entry_def im_update_def im_add_def im_mem_def to_int_def
        map_to_image mk_abs_node_def to_ints_def chain_and_loop_def Let_def)
  have v: "valid chain_and_loop 1 = Inr True" "valid [(3, ({}, [(3, {}, {})]))] 1 = Inr False"
    using sample_abs_closed(3) loop_members(4)
    by (simp add: valid_iff [OF sample_abs_ok(3)], simp add: valid_def im_mem_def)
  have e: "tg_edge (lines_graph chain_lines) i j \<longleftrightarrow> (i = 1 \<and> j = 2) \<or> (i = 3 \<and> j = 3)" for i j
    by (auto simp: lines_graph_def chain_lines_def ln_defs to_int_def)
  have "\<not> tg_path (lines_graph chain_lines) 1 w" for w
  proof
    assume w: "tg_path (lines_graph chain_lines) 1 w"
    have "w 0 = 1" by (rule tg_path_start [OF w])
    with tg_path_edge [OF w, of 0] have "w (Suc 0) = 2" unfolding e by simp
    with tg_path_edge [OF w, of "Suc 0"] show False unfolding e by simp
  qed
  then have "gtc (lines_graph chain_lines) 1" by (rule gtc_no_path)
  moreover have "chain_and_loop \<noteq> []" by (simp add: chain_and_loop_def)
  ultimately show ?thesis using m v by (simp add: check_proof_def chain_minimal)
qed

end
